(* ===== verification/Prelude.thy ===== *)
theory Prelude
  imports Main "HOL-Library.Word" "HOL-Library.Monad_Syntax"
begin

unbundle bit_operations_syntax

text \<open>
  Shared vocabulary of the development: the machine integers of the Rust sources, the two ways a
  Rust function can fail to return normally (a \<open>Result\<close> error, a panic), the few combinators of
  \<open>core\<close> that the sources use on them, and the generic facts on lists and words that the
  component theories rely on.

  A \<open>Result<T, E>\<close> is \<open>'e + 't\<close>, with \<open>Inl\<close> the error. A computation that may panic is a value of
  \<open>'a exec\<close>, with \<open>None\<close> the panic: array indexing out of bounds, a failed \<open>assert!\<close> and
  \<open>unwrap\<close> of an error are all that panic. The \<open>do\<close> notation sequences \<open>exec\<close> computations.
\<close>

section \<open>Machine integers\<close>

type_synonym u8 = "8 word"
type_synonym u16 = "16 word"
type_synonym u32 = "32 word"
type_synonym u64 = "64 word"
type_synonym bytes = "u8 list"

section \<open>Results and panics\<close>

type_synonym 'a exec = "'a option"

abbreviation (input) panic :: "'a exec" where
  "panic \<equiv> None"

text \<open>\<open>assert!\<close>, \<open>xs[i]\<close>, \<open>xs[i] = v\<close> and \<open>&xs[i..j]\<close> of Rust: each panics instead of going out of range.\<close>

definition assert :: "bool \<Rightarrow> unit exec" where
  "assert b = (if b then Some () else None)"

definition index :: "'a list \<Rightarrow> nat \<Rightarrow> 'a exec" where
  "index xs i = (if i < length xs then Some (xs ! i) else None)"

definition store :: "'a list \<Rightarrow> nat \<Rightarrow> 'a \<Rightarrow> 'a list exec" where
  "store xs i v = (if i < length xs then Some (xs[i := v]) else None)"

definition subslice :: "'a list \<Rightarrow> nat \<Rightarrow> nat \<Rightarrow> 'a list exec" where
  "subslice xs i j = (if i \<le> j \<and> j \<le> length xs then Some (take (j - i) (drop i xs)) else None)"

text \<open>
  The combinators of \<open>core::result\<close> and \<open>core::option\<close>: \<open>map_err\<close>, \<open>ok\<close>, \<open>unwrap\<close>, \<open>ok_or\<close>,
  and the \<open>?\<close> operator.
\<close>

fun map_err :: "('e \<Rightarrow> 'f) \<Rightarrow> 'e + 'a \<Rightarrow> 'f + 'a" where
  "map_err f (Inl e) = Inl (f e)"
| "map_err f (Inr a) = Inr a"

fun ok :: "'e + 'a \<Rightarrow> 'a option" where
  "ok (Inl e) = None"
| "ok (Inr a) = Some a"

fun unwrap :: "'e + 'a \<Rightarrow> 'a exec" where
  "unwrap (Inl e) = None"
| "unwrap (Inr a) = Some a"

fun ok_or :: "'e \<Rightarrow> 'a option \<Rightarrow> 'e + 'a" where
  "ok_or e None = Inl e"
| "ok_or e (Some a) = Inr a"

fun try_with :: "'e + 'a \<Rightarrow> ('a \<Rightarrow> 'e + 'b) \<Rightarrow> 'e + 'b" where
  "try_with (Inl e) f = Inl e"
| "try_with (Inr a) f = f a"

text \<open>A \<open>for\<close> loop whose body may panic.\<close>

fun fold_exec :: "('s \<Rightarrow> 'a \<Rightarrow> 's exec) \<Rightarrow> 'a list \<Rightarrow> 's \<Rightarrow> 's exec" where
  "fold_exec f [] s = Some s"
| "fold_exec f (x # xs) s = do { s' \<leftarrow> f s x; fold_exec f xs s' }"

lemma fold_exec_snoc: "fold_exec f (xs @ [x]) s = do { s' \<leftarrow> fold_exec f xs s; f s' x }"
  by (induction xs arbitrary: s) (auto split: bind_splits)

section \<open>Collections of simplification rules\<close>

text \<open>
  \<open>wire\<close> holds the laws of the wire format and the round trips of the codecs built on it;
  \<open>pack\<close> the bit patterns of the frame header.
\<close>

named_theorems wire
named_theorems pack

section \<open>Generic lemmas\<close>

lemma assert_simps [simp]:
  "assert True = Some ()" "assert False = None" "assert b = Some u \<longleftrightarrow> b" "assert b = None \<longleftrightarrow> \<not> b"
  by (auto simp: assert_def)

lemma index_lt [simp]: "i < length xs \<Longrightarrow> index xs i = Some (xs ! i)"
  by (simp add: index_def)

lemma store_lt [simp]: "i < length xs \<Longrightarrow> store xs i v = Some (xs[i := v])"
  by (simp add: store_def)

lemma subslice_le [simp]: "i \<le> j \<Longrightarrow> j \<le> length xs \<Longrightarrow> subslice xs i j = Some (take (j - i) (drop i xs))"
  by (simp add: subslice_def)

lemma index_ge [simp]: "length xs \<le> i \<Longrightarrow> index xs i = None"
  by (simp add: index_def)

lemma store_ge [simp]: "length xs \<le> i \<Longrightarrow> store xs i v = None"
  by (simp add: store_def)

lemma map_err_eq_Inr [simp]: "map_err f r = Inr a \<longleftrightarrow> r = Inr a"
  by (cases r) auto

lemma map_err_eq_Inl [simp]: "map_err f r = Inl e \<longleftrightarrow> (\<exists>e'. r = Inl e' \<and> e = f e')"
  by (cases r) auto

lemma ok_eq_Some [simp]: "ok r = Some a \<longleftrightarrow> r = Inr a"
  by (cases r) auto

lemma ok_eq_None [simp]: "ok r = None \<longleftrightarrow> (\<exists>e. r = Inl e)"
  by (cases r) auto

lemma ok_or_eq_Inr [simp]: "ok_or e x = Inr a \<longleftrightarrow> x = Some a"
  by (cases x) auto

lemma try_with_eq_Inr [simp]:
  "try_with r f = Inr b \<longleftrightarrow> (\<exists>a. r = Inr a \<and> f a = Inr b)"
  by (cases r) auto

lemma unat_u8_less [simp]: "unat (a :: u8) < 256"
proof -
  have "unat a < 2 ^ LENGTH(8)" by (rule unsigned_less)
  then show ?thesis by simp
qed

lemma u8_of_nat_unat [simp]: "(of_nat (unat a) :: u8) = a"
  by simp

lemma unat_inject [simp]: "unat a = unat b \<longleftrightarrow> a = b"
  by (simp add: word_unat_eq_iff)

lemma unat_of_nat_u8 [simp]: "n < 256 \<Longrightarrow> unat (of_nat n :: u8) = n"
  by (simp add: unat_of_nat)

lemma unat_u32_less: "unat (a :: u32) < 2 ^ 32"
  using unsigned_less [of a, where ?'a = nat] by simp

lemma unat_of_nat_u32: "n < 2 ^ 32 \<Longrightarrow> unat (of_nat n :: u32) = n"
  by (simp add: unat_of_nat)

lemma bind_eq_SomeE:
  "Option.bind x f = Some y \<Longrightarrow> (\<And>a. x = Some a \<Longrightarrow> f a = Some y \<Longrightarrow> P) \<Longrightarrow> P"
  by (cases x) auto

text \<open>Offsets are added without wrapping around below \<open>2 ^ 32\<close>; the successor of the last is \<open>0\<close>.\<close>

lemma unat_plus_u32: "unat a + i < 2 ^ 32 \<Longrightarrow> unat (a + of_nat i :: u32) = unat a + i"
  by (simp add: unat_word_ariths unat_of_nat take_bit_eq_mod)

lemma unat_succ_cases: "unat (n + 1 :: u32) = Suc (unat n) \<or> n + 1 = 0 \<and> Suc (unat n) = 2 ^ 32"
proof (cases "Suc (unat n) < 2 ^ 32")
  case True
  then show ?thesis using unat_plus_u32 [of n 1] by simp
next
  case False
  then have "Suc (unat n) = 2 ^ 32" using unat_u32_less [of n] by simp
  moreover from this have "unat (n + 1) = 0" by (simp add: unat_word_ariths)
  ultimately show ?thesis by (simp add: unat_eq_0)
qed

lemma find_unique:
  assumes "y \<in> set xs" and "P y" and "\<And>x. x \<in> set xs \<Longrightarrow> P x \<Longrightarrow> x = y"
  shows "find P xs = Some y"
proof (cases "find P xs")
  case None
  then show ?thesis using assms(1,2) by (simp add: find_None_iff)
next
  case (Some x)
  then have "x \<in> set xs" "P x" by (auto simp: find_Some_iff)
  then show ?thesis using assms(3) Some by simp
qed

lemma sorted_snoc:
  assumes "sorted_wrt (<) xs" and "xs \<noteq> [] \<Longrightarrow> last xs < (m :: nat)"
  shows "sorted_wrt (<) (xs @ [m])"
  using assms by (cases xs rule: rev_cases) (auto simp: sorted_wrt_append)

text \<open>A word has no bits beyond its width.\<close>

lemma bit_u8_bound: "bit (a :: u8) n \<Longrightarrow> n < 8"
  using bit_imp_le_length [of a n] by simp

lemma bit_u16_bound: "bit (a :: u16) n \<Longrightarrow> n < 16"
  using bit_imp_le_length [of a n] by simp

lemma bit_u8_high [simp]: "8 \<le> n \<Longrightarrow> \<not> bit (a :: u8) n"
  using bit_imp_le_length [of a n] by auto

end
