(* ===== verification/Wire_Format.thy ===== *)
theory Wire_Format
  imports Prelude
begin

text \<open>
  The interface to the serialisation libraries. The sources never write wire bytes themselves: they
  derive \<open>serde::Serialize\<close>/\<open>Deserialize\<close> and call \<open>postcard::to_slice\<close>, \<open>to_vec\<close> and \<open>from_bytes\<close>.
  Neither library is part of the repository, so what they do with each primitive of the serde data
  model is a parameter, the record \<open>postcard\<close>, and the documented wire format is the locale
  \<open>postcard_format\<close>: a byte is itself, an \<open>Option\<close> a one-byte tag and the value, a unit nothing, an
  integer, a sequence length and an enum variant a variable-length integer of seven bits a byte.
  What is derived for a type of the repository is written out, field by field and variant by variant,
  in the theory of that type.

  The locale \<open>codec\<close> is what every such pair of functions promises: decoding what was encoded gives the
  value back and leaves the bytes behind it. The section at the end gives the wire format of the
  documentation as functions and interprets \<open>postcard_format\<close> on it.
\<close>

section \<open>The serialisation library\<close>

text \<open>
  A serialiser method returns the bytes it appends; a deserialiser method takes the bytes not yet
  read and returns the value and the bytes after it. \<open>write_slice v buf\<close> is the effect of
  \<open>to_slice\<close> on the buffer (the used part, and the buffer), \<open>write_vec n v\<close> that of
  \<open>to_vec::<_, n>\<close>. \<open>err_custom\<close> is the error a derived \<open>Deserialize\<close> raises for a value the wire
  format admits and the type does not (an unknown variant, a sequence beyond its capacity).
\<close>

record 'pe postcard =
  ser_u8 :: "u8 \<Rightarrow> bytes"
  ser_u32 :: "u32 \<Rightarrow> bytes"
  ser_u64 :: "u64 \<Rightarrow> bytes"
  ser_bool :: "bool \<Rightarrow> bytes"
  ser_none :: bytes
  ser_some :: bytes
  ser_unit :: bytes
  ser_variant :: "nat \<Rightarrow> bytes"
  ser_len :: "nat \<Rightarrow> bytes"
  de_u8 :: "bytes \<Rightarrow> 'pe + u8 \<times> bytes"
  de_u32 :: "bytes \<Rightarrow> 'pe + u32 \<times> bytes"
  de_u64 :: "bytes \<Rightarrow> 'pe + u64 \<times> bytes"
  de_bool :: "bytes \<Rightarrow> 'pe + bool \<times> bytes"
  de_option :: "bytes \<Rightarrow> 'pe + bool \<times> bytes"
  de_variant :: "bytes \<Rightarrow> 'pe + nat \<times> bytes"
  de_len :: "bytes \<Rightarrow> 'pe + nat \<times> bytes"
  de_bytes :: "bytes \<Rightarrow> 'pe + bytes \<times> bytes"
  err_custom :: 'pe
  write_slice :: "bytes \<Rightarrow> bytes \<Rightarrow> 'pe + bytes \<times> bytes"
  write_vec :: "nat \<Rightarrow> bytes \<Rightarrow> 'pe + bytes"

type_synonym ('pe, 'a) decoder = "bytes \<Rightarrow> 'pe + 'a \<times> bytes"

text \<open>The number of bytes of a variable-length integer: seven bits a byte.\<close>

fun varint_len :: "nat \<Rightarrow> nat" where
  "varint_len n = (if n < 128 then 1 else Suc (varint_len (n div 128)))"

declare varint_len.simps [simp del]

locale postcard_format =
  fixes pc :: "'pe postcard"
  assumes ser_u8 [wire]: "ser_u8 pc a = [a]"
    and de_u8 [wire]: "de_u8 pc (a # r) = Inr (a, r)"
    and de_u8_end: "\<exists>e. de_u8 pc [] = Inl e"
    and de_u32 [wire]: "de_u32 pc (ser_u32 pc x @ r) = Inr (x, r)"
    and len_u32 [wire]: "length (ser_u32 pc x) = varint_len (unat x)"
    and de_u64 [wire]: "de_u64 pc (ser_u64 pc y @ r) = Inr (y, r)"
    and len_u64 [wire]: "length (ser_u64 pc y) = varint_len (unat y)"
    and de_bool [wire]: "de_bool pc (ser_bool pc b @ r) = Inr (b, r)"
    and len_bool [wire]: "length (ser_bool pc b) = 1"
    and de_none [wire]: "de_option pc (ser_none pc @ r) = Inr (False, r)"
    and len_none [wire]: "length (ser_none pc) = 1"
    and de_some [wire]: "de_option pc (ser_some pc @ r) = Inr (True, r)"
    and len_some [wire]: "length (ser_some pc) = 1"
    and ser_unit [wire]: "ser_unit pc = []"
    and de_variant [wire]: "n < 2 ^ 32 \<Longrightarrow> de_variant pc (ser_variant pc n @ r) = Inr (n, r)"
    and de_variant_end: "\<exists>e. de_variant pc [] = Inl e"
    and len_variant [wire]: "length (ser_variant pc n) = varint_len n"
    and de_len [wire]: "n < 2 ^ 32 \<Longrightarrow> de_len pc (ser_len pc n @ r) = Inr (n, r)"
    and len_len [wire]: "length (ser_len pc n) = varint_len n"
    and de_bytes [wire]:
      "length bs < 2 ^ 32 \<Longrightarrow> de_bytes pc (ser_len pc (length bs) @ bs @ r) = Inr (bs, r)"
    and de_bytes_borrows: "de_bytes pc inp = Inr (bs, r) \<Longrightarrow> \<exists>p. inp = p @ bs @ r"
    and write_slice [wire]:
      "length v \<le> length buf \<Longrightarrow> write_slice pc v buf = Inr (v, v @ drop (length v) buf)"
    and write_slice_full: "length buf < length v \<Longrightarrow> \<exists>e. write_slice pc v buf = Inl e"
    and write_vec [wire]: "length v \<le> n \<Longrightarrow> write_vec pc n v = Inr v"
    and write_vec_full: "n < length v \<Longrightarrow> \<exists>e. write_vec pc n v = Inl e"

section \<open>Derived encodings\<close>

text \<open>Sequencing of decoders, and the encodings of \<open>Option<T>\<close> and of byte arrays \<open>[u8; N]\<close> (a tuple, no length).\<close>

definition de_return :: "'a \<Rightarrow> ('pe, 'a) decoder" where
  "de_return x b = Inr (x, b)"

definition de_then :: "('pe, 'a) decoder \<Rightarrow> ('a \<Rightarrow> ('pe, 'b) decoder) \<Rightarrow> ('pe, 'b) decoder" where
  "de_then d k b = try_with (d b) (\<lambda>(x, r). k x r)"

definition de_error :: "'pe postcard \<Rightarrow> ('pe, 'a) decoder" where
  "de_error pc b = Inl (err_custom pc)"

fun ser_opt :: "'pe postcard \<Rightarrow> ('a \<Rightarrow> bytes) \<Rightarrow> 'a option \<Rightarrow> bytes" where
  "ser_opt pc s None = ser_none pc"
| "ser_opt pc s (Some x) = ser_some pc @ s x"

definition de_opt :: "'pe postcard \<Rightarrow> ('pe, 'a) decoder \<Rightarrow> ('pe, 'a option) decoder" where
  "de_opt pc d =
     de_then (de_option pc) (\<lambda>present.
       if present then de_then d (\<lambda>x. de_return (Some x)) else de_return None)"

definition ser_array :: "'pe postcard \<Rightarrow> bytes \<Rightarrow> bytes" where
  "ser_array pc bs = concat (map (ser_u8 pc) bs)"

fun de_array :: "'pe postcard \<Rightarrow> nat \<Rightarrow> ('pe, bytes) decoder" where
  "de_array pc 0 = de_return []"
| "de_array pc (Suc n) = de_then (de_u8 pc) (\<lambda>a. de_then (de_array pc n) (\<lambda>bs. de_return (a # bs)))"

text \<open>\<open>postcard::from_bytes\<close>: decode from the front; bytes left over are not an error.\<close>

definition from_bytes :: "('pe, 'a) decoder \<Rightarrow> bytes \<Rightarrow> 'pe + 'a" where
  "from_bytes d b = try_with (d b) (\<lambda>(x, r). Inr x)"

lemmas decoder_simps [wire] = de_return_def de_then_def from_bytes_def

lemma varint_len_pos [simp]: "0 < varint_len n"
  by (simp add: varint_len.simps [of n])

lemma varint_len_1 [wire]: "n < 128 \<Longrightarrow> varint_len n = 1"
  by (simp add: varint_len.simps [of n])

lemma varint_len_mono: "m \<le> n \<Longrightarrow> varint_len m \<le> varint_len n"
proof (induction n arbitrary: m rule: varint_len.induct)
  case (1 n)
  show ?case
  proof (cases "m < 128")
    case True
    then show ?thesis using varint_len_pos [of n] by (simp add: varint_len_1 Suc_le_eq)
  next
    case False
    with 1 have "varint_len (m div 128) \<le> varint_len (n div 128)"
      by (simp add: div_le_mono)
    with False "1.prems" show ?thesis
      by (simp add: varint_len.simps [of m] varint_len.simps [of n])
  qed
qed

lemma varint_len_le: "n < 128 ^ Suc k \<Longrightarrow> varint_len n \<le> Suc k"
proof (induction k arbitrary: n)
  case 0
  then show ?case by (simp add: varint_len_1)
next
  case (Suc k)
  then have "n div 128 < 128 ^ Suc k" by (simp add: less_mult_imp_div_less)
  with Suc.IH show ?case by (subst varint_len.simps) simp
qed

lemma varint_len_gt: "128 ^ Suc k \<le> n \<Longrightarrow> Suc k < varint_len n"
proof (induction k arbitrary: n)
  case 0
  then show ?case using varint_len_pos [of "n div 128"] by (subst varint_len.simps) simp
next
  case (Suc k)
  then have le: "128 ^ Suc k \<le> n div 128" by (simp add: less_eq_div_iff_mult_less_eq)
  have "128 \<le> n" using Suc.prems by (simp add: order_trans [rotated])
  with Suc.IH [OF le] show ?case by (subst varint_len.simps) simp
qed

lemma varint_len_u32: "varint_len (unat (x :: u32)) \<le> 5"
proof -
  have "unat x < 2 ^ LENGTH(32)" by (rule unsigned_less)
  then show ?thesis using varint_len_le [of "unat x" 4] by simp
qed

section \<open>Codecs\<close>

locale codec =
  fixes ser :: "'a \<Rightarrow> bytes" and de :: "('pe, 'a) decoder" and valid :: "'a \<Rightarrow> bool"
  assumes decode_encode: "valid x \<Longrightarrow> de (ser x @ r) = Inr (x, r)"
begin

lemma from_bytes_ser: "valid x \<Longrightarrow> from_bytes de (ser x @ r) = Inr x"
  by (simp add: from_bytes_def decode_encode)

lemma ser_prefix_free: "valid x \<Longrightarrow> valid y \<Longrightarrow> ser x @ r = ser y @ s \<Longrightarrow> x = y \<and> r = s"
  by (metis decode_encode Inr_inject prod.inject)

end

text \<open>A codec whose values all take at least one byte: the decoder rejects the empty input.\<close>

locale strict_codec = codec +
  assumes de_end: "\<exists>e. de [] = Inl e"
begin

lemma ser_nonempty: "valid x \<Longrightarrow> ser x \<noteq> []"
  using decode_encode [of x "[]"] de_end by auto

end

context postcard_format
begin

lemma ser_array_id [wire]: "ser_array pc bs = bs"
  by (induction bs) (simp_all add: ser_array_def ser_u8)

lemma de_array_append [wire]: "length bs = n \<Longrightarrow> de_array pc n (bs @ r) = Inr (bs, r)"
  by (induction n arbitrary: bs) (auto simp: length_Suc_conv wire)

lemma de_opt_simps [wire]:
  "de_opt pc d (ser_none pc @ r) = Inr (None, r)"
  "d b = Inr (x, r) \<Longrightarrow> de_opt pc d (ser_some pc @ b) = Inr (Some x, r)"
  by (simp_all add: de_opt_def wire)

lemma len_array_opt [wire]:
  "length (ser_opt pc s None) = 1"
  "length (ser_opt pc s (Some x)) = Suc (length (s x))"
  by (simp_all add: wire)

end

sublocale postcard_format \<subseteq> array: codec "ser_array pc" "de_array pc n" "\<lambda>bs. length bs = n" for n
  by unfold_locales (simp add: wire)

sublocale postcard_format \<subseteq> opt_u32: codec "ser_opt pc (ser_u32 pc)" "de_opt pc (de_u32 pc)" "\<lambda>_. True"
proof unfold_locales
  fix x r
  show "de_opt pc (de_u32 pc) (ser_opt pc (ser_u32 pc) x @ r) = Inr (x, r)"
    by (cases x) (simp_all add: wire)
qed

section \<open>The documented wire format as functions\<close>

text \<open>
  The variable-length integers of the documentation, least significant group of seven bits first
  with the top bit of a byte set when another byte follows, and the record of the whole format.
\<close>

datatype wire_error = UnexpectedEnd | BadVarint | BadBool | BadOption | Custom | BufferFull

fun put_varint :: "nat \<Rightarrow> bytes" where
  "put_varint n = (if n < 128 then [of_nat n] else of_nat (n mod 128 + 128) # put_varint (n div 128))"

declare put_varint.simps [simp del]

fun get_varint :: "bytes \<Rightarrow> (nat \<times> bytes) option" where
  "get_varint [] = None"
| "get_varint (b # r) =
     (if unat b < 128 then Some (unat b, r)
      else (case get_varint r of None \<Rightarrow> None | Some (m, s) \<Rightarrow> Some (unat b - 128 + 128 * m, s)))"

definition get_below :: "nat \<Rightarrow> bytes \<Rightarrow> wire_error + nat \<times> bytes" where
  "get_below m b =
     (case get_varint b of
        None \<Rightarrow> Inl UnexpectedEnd
      | Some (n, r) \<Rightarrow> if n < m then Inr (n, r) else Inl BadVarint)"

definition get_tag :: "wire_error \<Rightarrow> bytes \<Rightarrow> wire_error + bool \<times> bytes" where
  "get_tag e b =
     (case b of
        [] \<Rightarrow> Inl UnexpectedEnd
      | t # r \<Rightarrow> if t = 0 then Inr (False, r) else if t = 1 then Inr (True, r) else Inl e)"

definition get_slice :: "bytes \<Rightarrow> wire_error + bytes \<times> bytes" where
  "get_slice b =
     try_with (get_below (2 ^ 32) b) (\<lambda>(n, r).
       if n \<le> length r then Inr (take n r, drop n r) else Inl UnexpectedEnd)"

definition postcard_v1 :: "wire_error postcard" where
  "postcard_v1 =
     \<lparr>ser_u8 = (\<lambda>a. [a]),
      ser_u32 = (\<lambda>x. put_varint (unat x)),
      ser_u64 = (\<lambda>x. put_varint (unat x)),
      ser_bool = (\<lambda>b. if b then [1] else [0]),
      ser_none = [0],
      ser_some = [1],
      ser_unit = [],
      ser_variant = put_varint,
      ser_len = put_varint,
      de_u8 = (\<lambda>b. case b of [] \<Rightarrow> Inl UnexpectedEnd | a # r \<Rightarrow> Inr (a, r)),
      de_u32 = (\<lambda>b. try_with (get_below (2 ^ 32) b) (\<lambda>(n, r). Inr (of_nat n, r))),
      de_u64 = (\<lambda>b. try_with (get_below (2 ^ 64) b) (\<lambda>(n, r). Inr (of_nat n, r))),
      de_bool = get_tag BadBool,
      de_option = get_tag BadOption,
      de_variant = get_below (2 ^ 32),
      de_len = get_below (2 ^ 32),
      de_bytes = get_slice,
      err_custom = Custom,
      write_slice = (\<lambda>v buf. if length v \<le> length buf then Inr (v, v @ drop (length v) buf) else Inl BufferFull),
      write_vec = (\<lambda>n v. if length v \<le> n then Inr v else Inl BufferFull)\<rparr>"

lemma get_put_varint [simp]: "get_varint (put_varint n @ r) = Some (n, r)"
proof (induction n rule: put_varint.induct)
  case (1 n)
  show ?case
  proof (cases "n < 128")
    case True
    then show ?thesis by (simp add: put_varint.simps [of n])
  next
    case False
    with 1 have "get_varint (put_varint (n div 128) @ r) = Some (n div 128, r)" by simp
    moreover have "n mod 128 + 128 * (n div 128) = n" by simp
    moreover have "unat (of_nat (n mod 128 + 128) :: u8) = n mod 128 + 128"
      by (rule unat_of_nat_u8) simp
    ultimately show ?thesis
      using False by (simp add: put_varint.simps [of n] del: of_nat_add)
  qed
qed

lemma get_below_put [simp]: "n < m \<Longrightarrow> get_below m (put_varint n @ r) = Inr (n, r)"
  by (simp add: get_below_def)

lemma length_put_varint: "length (put_varint n) = varint_len n"
  by (induction n rule: put_varint.induct) (simp add: put_varint.simps varint_len.simps)

lemma get_varint_suffix: "get_varint b = Some (n, r) \<Longrightarrow> \<exists>p. b = p @ r"
proof (induction b arbitrary: n)
  case Nil
  then show ?case by simp
next
  case (Cons a b)
  show ?case
  proof (cases "unat a < 128")
    case True
    with Cons.prems show ?thesis by auto
  next
    case False
    with Cons.prems obtain m where "get_varint b = Some (m, r)" by (auto split: option.splits)
    with Cons.IH obtain p where "b = p @ r" by blast
    then have "a # b = (a # p) @ r" by simp
    then show ?thesis by blast
  qed
qed

lemma get_slice_suffix: "get_slice b = Inr (bs, r) \<Longrightarrow> \<exists>p. b = p @ bs @ r"
  by (fastforce simp: get_slice_def get_below_def dest: get_varint_suffix split: option.splits if_splits)

interpretation v1: postcard_format postcard_v1
proof unfold_locales
  fix x :: u32
  have "unat x < 2 ^ LENGTH(32)" by (rule unsigned_less)
  then show "de_u32 postcard_v1 (ser_u32 postcard_v1 x @ r) = Inr (x, r)" for r
    by (simp add: postcard_v1_def)
next
  fix x :: u64
  have "unat x < 2 ^ LENGTH(64)" by (rule unsigned_less)
  then show "de_u64 postcard_v1 (ser_u64 postcard_v1 x @ r) = Inr (x, r)" for r
    by (simp add: postcard_v1_def)
next
  show "length bs < 2 ^ 32 \<Longrightarrow>
      de_bytes postcard_v1 (ser_len postcard_v1 (length bs) @ bs @ r) = Inr (bs, r)" for bs r
    by (simp add: postcard_v1_def get_slice_def)
  show "de_bytes postcard_v1 b = Inr (bs, r) \<Longrightarrow> \<exists>p. b = p @ bs @ r" for b bs r
    by (rule get_slice_suffix) (simp add: postcard_v1_def)
qed (simp_all add: postcard_v1_def length_put_varint get_tag_def get_below_def)

text \<open>What evaluates the format on concrete values.\<close>

lemmas v1_defs = postcard_v1_def put_varint.simps get_below_def get_tag_def get_slice_def

end
