(* ===== verification/App_Messages.thy ===== *)
theory App_Messages
  imports Wire_Format
begin

text \<open>
  The application layer messages (\<open>app/src/lib.rs\<close>): a client's \<open>CommandRequest\<close>, the events of a
  server and its \<open>EventReply\<close>, the constructor \<open>event_reply\<close>, and the two field functions that leave
  an absent last field out of the message altogether. The command and event types of an application
  are parameters: their derived codecs are the arguments \<open>s\<close> (encode) and \<open>d\<close> (decode).
\<close>

section \<open>Messages\<close>

record 'c CommandRequest =
  last_event_offset :: "u32 option"
  command :: "'c option"

type_synonym NoEE = unit

datatype ('e, 'ee) EventOf = Logged 'e u32 | Ephemeral 'ee | Recovery u32 u32

record 'e EventReply =
  delta_ticks :: u64
  event :: "'e option"

definition event_reply :: "('e \<times> 't) option \<Rightarrow> ('t \<Rightarrow> u64) \<Rightarrow> 'e EventReply" where
  "event_reply maybe_event duration_since =
     (case maybe_event of
        Some (e, t) \<Rightarrow> \<lparr>delta_ticks = duration_since t, event = Some e\<rparr>
      | None \<Rightarrow> \<lparr>delta_ticks = 0, event = None\<rparr>)"

section \<open>The last field of a message\<close>

text \<open>
  A present last field is encoded with no tag, an absent one as a unit, that is, as nothing. On the
  way back every failure to decode the field is an absent field. The bytes after a last field are
  never looked at, so the decoder does not return them.
\<close>

definition deserialise_last_field :: "('pe, 'a) decoder \<Rightarrow> bytes \<Rightarrow> 'pe + 'a option" where
  "deserialise_last_field d b = (case d b of Inl _ \<Rightarrow> Inr None | Inr (v, _) \<Rightarrow> Inr (Some v))"

definition serialise_last_field :: "'pe postcard \<Rightarrow> ('a \<Rightarrow> bytes) \<Rightarrow> 'a option \<Rightarrow> bytes" where
  "serialise_last_field pc s x = (case x of Some v \<Rightarrow> s v | None \<Rightarrow> ser_unit pc)"

section \<open>Derived codecs\<close>

definition ser_CommandRequest :: "'pe postcard \<Rightarrow> ('c \<Rightarrow> bytes) \<Rightarrow> 'c CommandRequest \<Rightarrow> bytes" where
  "ser_CommandRequest pc s r =
     ser_opt pc (ser_u32 pc) (last_event_offset r) @ serialise_last_field pc s (command r)"

definition de_CommandRequest :: "'pe postcard \<Rightarrow> ('pe, 'c) decoder \<Rightarrow> bytes \<Rightarrow> 'pe + 'c CommandRequest" where
  "de_CommandRequest pc d b =
     try_with (de_opt pc (de_u32 pc) b) (\<lambda>(offset, rest).
     try_with (deserialise_last_field d rest) (\<lambda>c.
       Inr \<lparr>last_event_offset = offset, command = c\<rparr>))"

fun ser_EventOf :: "'pe postcard \<Rightarrow> ('e \<Rightarrow> bytes) \<Rightarrow> ('ee \<Rightarrow> bytes) \<Rightarrow> ('e, 'ee) EventOf \<Rightarrow> bytes" where
  "ser_EventOf pc s ss (Logged e offset) = ser_variant pc 0 @ s e @ ser_u32 pc offset"
| "ser_EventOf pc s ss (Ephemeral ee) = ser_variant pc 1 @ ss ee"
| "ser_EventOf pc s ss (Recovery from to) = ser_variant pc 2 @ ser_u32 pc from @ ser_u32 pc to"

definition de_EventOf ::
    "'pe postcard \<Rightarrow> ('pe, 'e) decoder \<Rightarrow> ('pe, 'ee) decoder \<Rightarrow> ('pe, ('e, 'ee) EventOf) decoder" where
  "de_EventOf pc d dd =
     de_then (de_variant pc) (\<lambda>n.
       if n = 0 then de_then d (\<lambda>e. de_then (de_u32 pc) (\<lambda>offset. de_return (Logged e offset)))
       else if n = 1 then de_then dd (\<lambda>ee. de_return (Ephemeral ee))
       else if n = 2 then
         de_then (de_u32 pc) (\<lambda>from. de_then (de_u32 pc) (\<lambda>to. de_return (Recovery from to)))
       else de_error pc)"

definition ser_EventReply :: "'pe postcard \<Rightarrow> ('e \<Rightarrow> bytes) \<Rightarrow> 'e EventReply \<Rightarrow> bytes" where
  "ser_EventReply pc s r = ser_u64 pc (delta_ticks r) @ serialise_last_field pc s (event r)"

definition de_EventReply :: "'pe postcard \<Rightarrow> ('pe, 'e) decoder \<Rightarrow> bytes \<Rightarrow> 'pe + 'e EventReply" where
  "de_EventReply pc d b =
     try_with (de_u64 pc b) (\<lambda>(ticks, rest).
     try_with (deserialise_last_field d rest) (\<lambda>e.
       Inr \<lparr>delta_ticks = ticks, event = e\<rparr>))"

text \<open>The codec of \<open>NoEE\<close>, the type with no ephemeral events: a unit takes no bytes.\<close>

definition ser_NoEE :: "'pe postcard \<Rightarrow> NoEE \<Rightarrow> bytes" where
  "ser_NoEE pc x = ser_unit pc"

definition de_NoEE :: "'pe postcard \<Rightarrow> ('pe, NoEE) decoder" where
  "de_NoEE pc = de_return ()"

fun valid_EventOf :: "('e \<Rightarrow> bool) \<Rightarrow> ('ee \<Rightarrow> bool) \<Rightarrow> ('e, 'ee) EventOf \<Rightarrow> bool" where
  "valid_EventOf v w (Logged e _) = v e"
| "valid_EventOf v w (Ephemeral ee) = w ee"
| "valid_EventOf v w (Recovery _ _) = True"

section \<open>Round trips\<close>

text \<open>A present field survives, whatever follows it; an absent one does when the decoder is strict.\<close>

context codec
begin

lemma last_field_present:
  "valid v \<Longrightarrow> deserialise_last_field de (serialise_last_field pc ser (Some v) @ junk) = Inr (Some v)"
  by (simp add: deserialise_last_field_def serialise_last_field_def decode_encode)

end

context strict_codec
begin

lemma last_field_absent: "deserialise_last_field de [] = Inr None"
  using de_end by (auto simp: deserialise_last_field_def)

end

context postcard_format
begin

lemma last_field_roundtrip:
  assumes "strict_codec s d v" and "pred_option v x"
  shows "deserialise_last_field d (serialise_last_field pc s x) = Inr x"
proof (cases x)
  case None
  then show ?thesis
    using strict_codec.last_field_absent [OF assms(1)] by (simp add: serialise_last_field_def wire)
next
  case (Some y)
  then show ?thesis
    using assms codec.last_field_present [OF strict_codec.axioms(1) [OF assms(1)], of y pc "[]"] by simp
qed

lemma strict_codec_EventOf:
  assumes "codec s d v" and "codec ss dd w"
  shows "strict_codec (ser_EventOf pc s ss) (de_EventOf pc d dd) (valid_EventOf v w)"
proof unfold_locales
  fix x r
  assume "valid_EventOf v w x"
  then show "de_EventOf pc d dd (ser_EventOf pc s ss x @ r) = Inr (x, r)"
    using assms [THEN codec.decode_encode] by (cases x) (simp_all add: de_EventOf_def wire)
next
  show "\<exists>e. de_EventOf pc d dd [] = Inl e"
    using de_variant_end by (auto simp: de_EventOf_def wire)
qed

end

sublocale postcard_format \<subseteq> no_ee: codec "ser_NoEE pc" "de_NoEE pc" "\<lambda>_. True"
  by unfold_locales (simp add: ser_NoEE_def de_NoEE_def wire)

section \<open>The vocabulary of the examples\<close>

text \<open>The one command and the one event of \<open>app/examples/common/lib.rs\<close>.\<close>

datatype Command = SomeCommand

datatype Event = SomeEvent

definition ser_Command :: "'pe postcard \<Rightarrow> Command \<Rightarrow> bytes" where
  "ser_Command pc c = (case c of SomeCommand \<Rightarrow> ser_variant pc 0)"

definition de_Command :: "'pe postcard \<Rightarrow> ('pe, Command) decoder" where
  "de_Command pc = de_then (de_variant pc) (\<lambda>n. if n = 0 then de_return SomeCommand else de_error pc)"

definition ser_Event :: "'pe postcard \<Rightarrow> Event \<Rightarrow> bytes" where
  "ser_Event pc e = (case e of SomeEvent \<Rightarrow> ser_variant pc 0)"

definition de_Event :: "'pe postcard \<Rightarrow> ('pe, Event) decoder" where
  "de_Event pc = de_then (de_variant pc) (\<lambda>n. if n = 0 then de_return SomeEvent else de_error pc)"

sublocale postcard_format \<subseteq> cmd: strict_codec "ser_Command pc" "de_Command pc" "\<lambda>_. True"
proof unfold_locales
  fix x r
  show "de_Command pc (ser_Command pc x @ r) = Inr (x, r)"
    by (cases x) (simp add: ser_Command_def de_Command_def wire)
  show "\<exists>e. de_Command pc [] = Inl e"
    using de_variant_end by (auto simp: de_Command_def wire)
qed

sublocale postcard_format \<subseteq> ev: strict_codec "ser_Event pc" "de_Event pc" "\<lambda>_. True"
proof unfold_locales
  fix x r
  show "de_Event pc (ser_Event pc x @ r) = Inr (x, r)"
    by (cases x) (simp add: ser_Event_def de_Event_def wire)
  show "\<exists>e. de_Event pc [] = Inl e"
    using de_variant_end by (auto simp: de_Event_def wire)
qed

context postcard_format
begin

lemma CommandRequest_roundtrip:
  assumes "strict_codec s d v" and "pred_option v (command r)"
  shows "de_CommandRequest pc d (ser_CommandRequest pc s r) = Inr r"
  using last_field_roundtrip [OF assms]
  by (simp add: de_CommandRequest_def ser_CommandRequest_def opt_u32.decode_encode)

lemma EventReply_roundtrip:
  assumes "strict_codec s d v" and "pred_option v (event r)"
  shows "de_EventReply pc d (ser_EventReply pc s r) = Inr r"
  using last_field_roundtrip [OF assms] by (simp add: de_EventReply_def ser_EventReply_def wire)

lemma CommandRequest_last_field:
  "de_CommandRequest pc d (ser_opt pc (ser_u32 pc) offset @ rest) =
     try_with (deserialise_last_field d rest) (\<lambda>c. Inr \<lparr>last_event_offset = offset, command = c\<rparr>)"
  by (simp add: de_CommandRequest_def opt_u32.decode_encode)

end

section \<open>Properties\<close>

text \<open>
  C29. A command request is decoded to itself, with or without a command, for every command type
  whose encoding is never empty.
\<close>

theorem command_request_roundtrip:
  assumes "postcard_format pc" and "strict_codec s d v" and "pred_option v (command r)"
  shows "de_CommandRequest pc d (ser_CommandRequest pc s r) = Inr r"
  using assms by (rule postcard_format.CommandRequest_roundtrip)

theorem command_request_roundtrip_witness:
  "de_CommandRequest postcard_v1 (de_Command postcard_v1)
     (ser_CommandRequest postcard_v1 (ser_Command postcard_v1)
       \<lparr>last_event_offset = Some 9, command = Some SomeCommand\<rparr>) =
     Inr \<lparr>last_event_offset = Some 9, command = Some SomeCommand\<rparr> \<and>
   ser_CommandRequest postcard_v1 (ser_Command postcard_v1)
     \<lparr>last_event_offset = Some 9, command = Some SomeCommand\<rparr> = [1, 9, 0]"
proof
  show "de_CommandRequest postcard_v1 (de_Command postcard_v1)
     (ser_CommandRequest postcard_v1 (ser_Command postcard_v1)
       \<lparr>last_event_offset = Some 9, command = Some SomeCommand\<rparr>) =
     Inr \<lparr>last_event_offset = Some 9, command = Some SomeCommand\<rparr>"
    by (rule command_request_roundtrip [OF v1.postcard_format_axioms v1.cmd.strict_codec_axioms]) simp
  show "ser_CommandRequest postcard_v1 (ser_Command postcard_v1)
     \<lparr>last_event_offset = Some 9, command = Some SomeCommand\<rparr> = [1, 9, 0]"
    by (simp add: v1_defs ser_CommandRequest_def serialise_last_field_def ser_Command_def)
qed

text \<open>
  C30. The reply event_reply makes of an optional event and its time is decoded to itself, for
  logged, ephemeral and recovery events and for no event at all.
\<close>

theorem event_reply_roundtrip:
  assumes "postcard_format pc" and "codec s d v" and "codec ss dd w"
    and "pred_option (\<lambda>(e, t). valid_EventOf v w e) maybe_event"
  shows "de_EventReply pc (de_EventOf pc d dd)
      (ser_EventReply pc (ser_EventOf pc s ss) (event_reply maybe_event duration_since)) =
    Inr (event_reply maybe_event duration_since)"
proof (rule postcard_format.EventReply_roundtrip [OF assms(1)])
  show "strict_codec (ser_EventOf pc s ss) (de_EventOf pc d dd) (valid_EventOf v w)"
    by (rule postcard_format.strict_codec_EventOf [OF assms(1-3)])
  show "pred_option (valid_EventOf v w) (event (event_reply maybe_event duration_since))"
    using assms(4) by (auto simp: event_reply_def split: option.splits)
qed

theorem event_reply_roundtrip_witness:
  "de_EventReply postcard_v1 (de_EventOf postcard_v1 (de_Event postcard_v1) (de_NoEE postcard_v1))
     (ser_EventReply postcard_v1 (ser_EventOf postcard_v1 (ser_Event postcard_v1) (ser_NoEE postcard_v1))
       (event_reply (Some (Logged SomeEvent 9, 0 :: nat)) (\<lambda>_. 10))) =
     Inr (event_reply (Some (Logged SomeEvent 9, 0 :: nat)) (\<lambda>_. 10)) \<and>
   ser_EventReply postcard_v1 (ser_EventOf postcard_v1 (ser_Event postcard_v1) (ser_NoEE postcard_v1))
     (event_reply (Some (Logged SomeEvent 9, 0 :: nat)) (\<lambda>_. 10)) = [10, 0, 0, 9]"
proof
  show "de_EventReply postcard_v1 (de_EventOf postcard_v1 (de_Event postcard_v1) (de_NoEE postcard_v1))
     (ser_EventReply postcard_v1 (ser_EventOf postcard_v1 (ser_Event postcard_v1) (ser_NoEE postcard_v1))
       (event_reply (Some (Logged SomeEvent 9, 0 :: nat)) (\<lambda>_. 10))) =
     Inr (event_reply (Some (Logged SomeEvent 9, 0 :: nat)) (\<lambda>_. 10))"
    by (rule event_reply_roundtrip
          [OF v1.postcard_format_axioms v1.ev.codec_axioms v1.no_ee.codec_axioms]) (simp add: v1_defs)
  show "ser_EventReply postcard_v1 (ser_EventOf postcard_v1 (ser_Event postcard_v1) (ser_NoEE postcard_v1))
     (event_reply (Some (Logged SomeEvent 9, 0 :: nat)) (\<lambda>_. 10)) = [10, 0, 0, 9]"
    by (simp add: v1_defs ser_EventReply_def event_reply_def serialise_last_field_def ser_Event_def)
qed

text \<open>
  A command that cannot be decoded does not make the request fail: it is read as a request without
  a command, a poll.
\<close>

lemma unreadable_command_is_poll:
  assumes "postcard_format pc" and "d rest = Inl err"
  shows "de_CommandRequest pc d (ser_opt pc (ser_u32 pc) offset @ rest) =
    Inr \<lparr>last_event_offset = offset, command = None\<rparr>"
  using assms by (simp add: postcard_format.CommandRequest_last_field deserialise_last_field_def)

lemma unreadable_command_is_poll_witness:
  "de_CommandRequest postcard_v1 (de_Command postcard_v1)
     (ser_opt postcard_v1 (ser_u32 postcard_v1) (Some 9) @ [7]) =
     Inr \<lparr>last_event_offset = Some 9, command = None\<rparr>"
proof (rule unreadable_command_is_poll [OF v1.postcard_format_axioms])
  show "de_Command postcard_v1 [7] = Inl Custom"
    by (simp add: v1_defs wire de_Command_def de_error_def)
qed

text \<open>
  For a command type that decodes from no bytes, a request without a command is read as one with a
  command.
\<close>

lemma empty_command_not_preserved:
  assumes "postcard_format pc" and "d [] = Inr (c, rest)"
  shows "de_CommandRequest pc d (ser_CommandRequest pc s \<lparr>last_event_offset = offset, command = None\<rparr>) =
    Inr \<lparr>last_event_offset = offset, command = Some c\<rparr>"
  using assms(2) postcard_format.CommandRequest_last_field [OF assms(1), of d offset "[]"]
  by (simp add: ser_CommandRequest_def serialise_last_field_def deserialise_last_field_def
        postcard_format.ser_unit [OF assms(1)])

lemma empty_command_not_preserved_witness:
  "de_CommandRequest postcard_v1 (de_NoEE postcard_v1)
     (ser_CommandRequest postcard_v1 (ser_NoEE postcard_v1) \<lparr>last_event_offset = Some 9, command = None\<rparr>) =
     Inr \<lparr>last_event_offset = Some 9, command = Some ()\<rparr>"
  by (rule empty_command_not_preserved [OF v1.postcard_format_axioms, where rest = "[]"])
     (simp add: de_NoEE_def de_return_def)

end
