(* ===== verification/App_Server.thy ===== *)
theory App_Server
  imports App_Messages
begin

text \<open>
  The example server of the application layer (\<open>app/examples/server/main.rs\<close>): the bounded history
  of logged events with its start and end offsets, the two arms of the server's loop (an event of the
  background task, a datagram from a client) and the search for the event to reply with. The circular
  queue is the third-party crate \<open>circular-queue\<close>, a parameter whose documented behaviour is
  \<open>circular_queue\<close>. Times are of an arbitrary type; the clock and the random numbers are arguments.
\<close>

section \<open>The history\<close>

record ('q, 'a) queue_ops =
  with_capacity :: "nat \<Rightarrow> 'q"
  push :: "'q \<Rightarrow> 'a \<Rightarrow> 'q"
  clear :: "'q \<Rightarrow> 'q"
  items :: "'q \<Rightarrow> 'a list"
  capacity :: "'q \<Rightarrow> nat"

text \<open>
  \<open>items q\<close> is what \<open>q.iter()\<close> yields: the elements from the one pushed last to the oldest kept.
\<close>

definition circular_queue :: "('q, 'a) queue_ops \<Rightarrow> bool" where
  "circular_queue ops \<longleftrightarrow>
     (\<forall>n. items ops (with_capacity ops n) = [] \<and> capacity ops (with_capacity ops n) = n) \<and>
     (\<forall>q x. items ops (push ops q x) = take (capacity ops q) (x # items ops q)
            \<and> capacity ops (push ops q x) = capacity ops q) \<and>
     (\<forall>q. items ops (clear ops q) = [] \<and> capacity ops (clear ops q) = capacity ops q)"

text \<open>A queue as the list of its elements, newest first, and its capacity.\<close>

definition list_queue :: "('a list \<times> nat, 'a) queue_ops" where
  "list_queue =
     \<lparr>with_capacity = (\<lambda>n. ([], n)), push = (\<lambda>(xs, n) x. (take n (x # xs), n)),
      clear = (\<lambda>(xs, n). ([], n)), items = fst, capacity = snd\<rparr>"

lemma circular_list_queue: "circular_queue list_queue"
  by (auto simp: circular_queue_def list_queue_def)

type_synonym 't entry = "Event \<times> u32 \<times> 't"

abbreviation entry_offset :: "'t entry \<Rightarrow> u32" where
  "entry_offset x \<equiv> fst (snd x)"

record 'q ServerState =
  events :: 'q
  start :: "u32 option"
  end_offset :: "u32 option"
  event_offset :: u32

definition MAX_DATAGRAM_SIZE :: nat where "MAX_DATAGRAM_SIZE = 32"

definition MAX_EVENTS :: nat where "MAX_EVENTS = 10"

text \<open>The state before the loop; \<open>r\<close> is the random number of \<open>gen_range(0..MAX_EVENTS)\<close>.\<close>

definition server_init :: "('q, 't entry) queue_ops \<Rightarrow> nat \<Rightarrow> 'q ServerState" where
  "server_init ops r =
     \<lparr>events = with_capacity ops MAX_EVENTS, start = None, end_offset = None, event_offset = of_nat r\<rparr>"

section \<open>An event of the background task\<close>

text \<open>
  \<open>roll\<close> and \<open>r\<close> are the random numbers of \<open>gen_range(0..40)\<close> and \<open>gen_range(0..MAX_EVENTS)\<close>.
\<close>

definition server_event ::
    "('q, 't entry) queue_ops \<Rightarrow> nat \<Rightarrow> nat \<Rightarrow> 't \<Rightarrow> 'q ServerState \<Rightarrow> 'q ServerState" where
  "server_event ops roll r event_instant st =
     (if roll = 0 then
        st\<lparr>events := clear ops (events st), event_offset := of_nat r,
           start := Some (of_nat r), end_offset := Some (of_nat r)\<rparr>
      else
        st\<lparr>events := push ops (events st) (SomeEvent, event_offset st, event_instant),
           start := (if start st = None then Some (event_offset st) else start st),
           end_offset := Some (event_offset st),
           event_offset := event_offset st + 1\<rparr>)"

section \<open>A datagram from a client\<close>

text \<open>
  The search: from the newest event back to the first whose offset is the client's or its successor,
  that event and the one behind it, and the four arms of the match.
\<close>

definition find_event :: "'t entry list \<Rightarrow> u32 option \<Rightarrow> 't entry option" where
  "find_event es last_offset =
     (let next_event_offset = map_option (\<lambda>n. n + 1) last_offset;
          events_iter = dropWhile (\<lambda>x. Some (entry_offset x) \<noteq> next_event_offset
                                     \<and> Some (entry_offset x) \<noteq> last_offset) es;
          next_e = (case events_iter of [] \<Rightarrow> None | x # _ \<Rightarrow> Some x);
          last_e = (case events_iter of _ # y # _ \<Rightarrow> Some y | _ \<Rightarrow> None)
      in if (case next_e of Some x \<Rightarrow> Some (entry_offset x) = next_event_offset | None \<Rightarrow> False) then next_e
         else if (case last_e of Some y \<Rightarrow> Some (entry_offset y) = last_offset | None \<Rightarrow> False) then None
         else if (case next_e of Some x \<Rightarrow> Some (entry_offset x) = last_offset | None \<Rightarrow> False) then None
         else (if es = [] then None else Some (last es)))"

definition maybe_event ::
    "('q, 't entry) queue_ops \<Rightarrow> 't \<Rightarrow> 'q ServerState \<Rightarrow> u32 option \<Rightarrow> ((Event, NoEE) EventOf \<times> 't) option" where
  "maybe_event ops now st last_offset =
     (case (start st, end_offset st) of
        (Some from, Some to) \<Rightarrow>
          if (case last_offset of None \<Rightarrow> True | Some n \<Rightarrow> from \<le> n \<and> n \<le> to) then
            map_option (\<lambda>(e, n, t). (Logged e n, t)) (find_event (items ops (events st)) last_offset)
          else Some (Recovery from to, now)
      | _ \<Rightarrow> None)"

text \<open>
  The whole arm: the datagram as received (cut to the buffer), and what is sent back, if anything.
  \<open>secs t\<close> is the time elapsed since \<open>t\<close>.
\<close>

definition server_datagram ::
    "'pe postcard \<Rightarrow> ('q, 't entry) queue_ops \<Rightarrow> 't \<Rightarrow> ('t \<Rightarrow> u64) \<Rightarrow> 'q ServerState \<Rightarrow> bytes \<Rightarrow> bytes option" where
  "server_datagram pc ops now secs st datagram =
     (case de_CommandRequest pc (de_Command pc) (take MAX_DATAGRAM_SIZE datagram) of
        Inl _ \<Rightarrow> None
      | Inr request \<Rightarrow>
          let reply = event_reply (maybe_event ops now st (last_event_offset request)) secs
          in case write_slice pc (ser_EventReply pc (ser_EventOf pc (ser_Event pc) (ser_NoEE pc)) reply)
                  (replicate MAX_DATAGRAM_SIZE 0) of
               Inl _ \<Rightarrow> None
             | Inr (encoded_buf, _) \<Rightarrow> Some encoded_buf)"

section \<open>The log of all events\<close>

text \<open>
  The specification of the history: the list of all events stored since the server started or was
  last reset, the first with offset \<open>a\<close> and each with the successor of the one before. The server
  represents it when its queue holds the last \<open>MAX_EVENTS\<close> of them and its offsets delimit the log.
\<close>

definition log_entry :: "u32 \<Rightarrow> (Event \<times> 't) list \<Rightarrow> nat \<Rightarrow> 't entry" where
  "log_entry a log i = (fst (log ! i), a + of_nat i, snd (log ! i))"

definition log_entries :: "u32 \<Rightarrow> (Event \<times> 't) list \<Rightarrow> 't entry list" where
  "log_entries a log = map (log_entry a log) [0..<length log]"

definition represents ::
    "('q, 't entry) queue_ops \<Rightarrow> 'q ServerState \<Rightarrow> u32 \<Rightarrow> (Event \<times> 't) list \<Rightarrow> bool" where
  "represents ops st a log \<longleftrightarrow>
     items ops (events st) = take MAX_EVENTS (rev (log_entries a log)) \<and>
     capacity ops (events st) = MAX_EVENTS \<and>
     event_offset st = a + of_nat (length log) \<and>
     (if log = [] then start st = end_offset st \<and> start st \<in> {None, Some a}
      else start st = Some a \<and> end_offset st = Some (a + of_nat (length log - 1)))"

text \<open>The offsets have not wrapped around since the log began.\<close>

definition no_wrap :: "u32 \<Rightarrow> 'x list \<Rightarrow> bool" where
  "no_wrap a log \<longleftrightarrow> unat a + length log \<le> 2 ^ 32"

text \<open>
  The answer to a client that has seen the event with offset \<open>n\<close>: the bounds of the log when \<open>n\<close> is
  outside of it; nothing when \<open>n\<close> is the newest; otherwise the oldest event kept that is newer
  than \<open>n\<close>. A client that has seen nothing gets the oldest event kept.
\<close>

definition log_answer ::
    "'t \<Rightarrow> u32 \<Rightarrow> (Event \<times> 't) list \<Rightarrow> u32 option \<Rightarrow> ((Event, NoEE) EventOf \<times> 't) option" where
  "log_answer now a log last_offset =
     (let logged = (\<lambda>i. Some (Logged (fst (log ! i)) (a + of_nat i), snd (log ! i))) in
      case last_offset of
        None \<Rightarrow> logged (length log - MAX_EVENTS)
      | Some n \<Rightarrow>
          if n < a \<or> unat a + length log \<le> unat n then Some (Recovery a (a + of_nat (length log - 1)), now)
          else if unat n = unat a + length log - 1 then None
          else logged (max (Suc (unat n - unat a)) (length log - MAX_EVENTS)))"

lemma log_entries_Nil [simp]: "log_entries a [] = []"
  by (simp add: log_entries_def)

lemma length_log_entries [simp]: "length (log_entries a log) = length log"
  by (simp add: log_entries_def)

lemma nth_log_entries [simp]: "i < length log \<Longrightarrow> log_entries a log ! i = log_entry a log i"
  by (simp add: log_entries_def)

lemma log_entries_snoc: "log_entries a (log @ [x]) = log_entries a log @ [(fst x, a + of_nat (length log), snd x)]"
  by (rule nth_equalityI) (auto simp: nth_append log_entry_def less_Suc_eq)

lemma MAX_EVENTS_pos [simp]: "0 < MAX_EVENTS"
  by (simp add: MAX_EVENTS_def)

lemma log_entry_offset:
  "no_wrap a log \<Longrightarrow> i < length log \<Longrightarrow> unat (entry_offset (log_entry a log i)) = unat a + i"
  by (simp add: log_entry_def no_wrap_def unat_plus_u32)

lemma represents_nth:
  assumes "represents ops st a log" and "i < length (items ops (events st))"
  shows "items ops (events st) ! i = log_entry a log (length log - Suc i)" "i < length log"
  using assms by (auto simp: represents_def rev_nth)

section \<open>The search finds the oldest newer event\<close>

lemma dropWhile_nth:
  assumes "k < length xs" and "\<And>i. i < k \<Longrightarrow> P (xs ! i)" and "\<not> P (xs ! k)"
  shows "dropWhile P xs = drop k xs"
proof -
  have "takeWhile P xs = take k xs"
    using assms by (intro takeWhile_eq_take_P_nth) auto
  then show ?thesis
    by (metis append_take_drop_id same_append_eq takeWhile_dropWhile_id)
qed

text \<open>
  A list with the offsets from \<open>hi\<close> downwards. The search stops at the successor of \<open>n\<close> where it is
  there, at \<open>n\<close> itself where that is the newest, and runs off the end when both are too old.
\<close>

definition descending :: "'t entry list \<Rightarrow> nat \<Rightarrow> bool" where
  "descending es hi \<longleftrightarrow> es \<noteq> [] \<and> (\<forall>i < length es. unat (entry_offset (es ! i)) + i = hi)"

lemma descendingD: "descending es hi \<Longrightarrow> i < length es \<Longrightarrow> unat (entry_offset (es ! i)) + i = hi"
  by (simp add: descending_def)

lemma descending_top: "descending es hi \<Longrightarrow> unat (entry_offset (es ! 0)) = hi"
  by (auto simp: descending_def)

lemma descending_succ:
  assumes "descending es hi" and "unat n < hi"
  shows "unat (n + 1 :: u32) = Suc (unat n)"
proof -
  have "unat (entry_offset (es ! 0)) < 2 ^ LENGTH(32)" by (rule unsigned_less)
  then show ?thesis using descending_top [OF assms(1)] assms(2) unat_plus_u32 [of n 1] by simp
qed

lemma find_none: "descending es hi \<Longrightarrow> find_event es None = Some (last es)"
  by (simp add: find_event_def descending_def Let_def dropWhile_eq_Nil_conv [THEN iffD2])

lemma find_top:
  assumes "descending es hi" and "unat n = hi"
  shows "find_event es (Some n) = None"
proof -
  obtain x xs where es: "es = x # xs" using assms(1) by (cases es) (auto simp: descending_def)
  then have "entry_offset x = n"
    using descending_top [OF assms(1)] assms(2) unat_inject [of "entry_offset x" n] by simp
  then show ?thesis by (auto simp: find_event_def es Let_def split: list.splits)
qed

lemma find_successor:
  assumes "descending es hi" and "Suc (unat n) + k = hi" and "k < length es"
  shows "find_event es (Some n) = Some (es ! k)"
proof -
  have n1: "unat (n + 1) = Suc (unat n)" using assms by (intro descending_succ) auto
  have at_k: "entry_offset (es ! k) = n + 1"
    using descendingD [OF assms(1,3)] assms(2) n1 by (simp flip: unat_inject)
  moreover have "entry_offset (es ! i) \<noteq> n + 1 \<and> entry_offset (es ! i) \<noteq> n" if "i < k" for i
    using descendingD [OF assms(1), of i] assms n1 that by (auto simp flip: unat_inject)
  ultimately have "dropWhile (\<lambda>x. Some (entry_offset x) \<noteq> Some (n + 1) \<and> Some (entry_offset x) \<noteq> Some n) es
      = es ! k # drop (Suc k) es"
    using assms(3) by (simp add: dropWhile_nth [of k] Cons_nth_drop_Suc)
  then show ?thesis using at_k by (simp add: find_event_def)
qed

lemma find_overrun:
  assumes "descending es hi" and "Suc (unat n) + length es \<le> hi"
  shows "find_event es (Some n) = Some (last es)"
proof -
  have n1: "unat (n + 1) = Suc (unat n)" using assms by (intro descending_succ) auto
  have "entry_offset (es ! i) \<noteq> n + 1 \<and> entry_offset (es ! i) \<noteq> n" if "i < length es" for i
    using descendingD [OF assms(1) that] n1 assms(2) that by (auto simp flip: unat_inject)
  then have "\<forall>x \<in> set es. Some (entry_offset x) \<noteq> Some (n + 1) \<and> Some (entry_offset x) \<noteq> Some n"
    by (metis in_set_conv_nth option.inject)
  then show ?thesis
    using assms(1) by (simp add: find_event_def descending_def Let_def dropWhile_eq_Nil_conv [THEN iffD2])
qed

section \<open>The server keeps the last events of the log\<close>

lemma represents_descending:
  assumes "represents ops st a log" and "no_wrap a log" and "log \<noteq> []"
  shows "descending (items ops (events st)) (unat a + length log - 1)"
proof -
  have "length (items ops (events st)) = min MAX_EVENTS (length log)"
    using assms(1) by (simp add: represents_def)
  then have "items ops (events st) \<noteq> []" using assms(3) MAX_EVENTS_pos by (metis length_0_conv min_def not_less0)
  moreover have "unat (entry_offset (items ops (events st) ! i)) + i = unat a + length log - 1"
    if "i < length (items ops (events st))" for i
    using represents_nth [OF assms(1) that] log_entry_offset [OF assms(2), of "length log - Suc i"] by simp
  ultimately show ?thesis by (simp add: descending_def)
qed

lemma represents_last:
  assumes "represents ops st a log" and "log \<noteq> []"
  shows "last (items ops (events st)) = log_entry a log (length log - MAX_EVENTS)"
proof -
  have len: "length (items ops (events st)) = min MAX_EVENTS (length log)"
    using assms(1) by (simp add: represents_def)
  then have "0 < length (items ops (events st))" using assms(2) by simp
  moreover from this have "items ops (events st) \<noteq> []" by auto
  ultimately show ?thesis
    using represents_nth(1) [OF assms(1), of "length (items ops (events st)) - 1"] assms(2)
    by (simp add: last_conv_nth len min_def MAX_EVENTS_def split: if_splits)
qed

lemma represents_init:
  assumes "circular_queue ops"
  shows "represents ops (server_init ops r) (of_nat r) []"
  using assms by (simp add: represents_def server_init_def circular_queue_def log_entries_def)

lemma represents_event:
  assumes "circular_queue ops" and "represents ops st a log"
  shows "represents ops (server_event ops roll r t st)
    (if roll = 0 then of_nat r else a) (if roll = 0 then [] else log @ [(SomeEvent, t)])"
proof (cases "roll = 0")
  case True
  then show ?thesis
    using assms by (simp add: represents_def server_event_def circular_queue_def log_entries_def)
next
  case False
  have "items ops (push ops (events st) (SomeEvent, event_offset st, t)) =
      take MAX_EVENTS ((SomeEvent, event_offset st, t) # rev (log_entries a log))"
    using assms by (simp add: circular_queue_def represents_def take_Cons' MAX_EVENTS_def)
  with False show ?thesis
    using assms
    by (cases "log = []")
       (auto simp: represents_def server_event_def circular_queue_def log_entries_snoc
          log_entries_snoc [where log = "[]", simplified])
qed

lemma represents_events:
  assumes "circular_queue ops" and "represents ops st a log"
  shows "represents ops (fold (server_event ops 1 0) ts st) a (log @ map (Pair SomeEvent) ts)"
  using assms(2)
proof (induction ts arbitrary: st log)
  case (Cons t ts)
  then show ?case
    using Cons.IH [of "server_event ops 1 0 t st" "log @ [(SomeEvent, t)]"] represents_event [OF assms(1) Cons.prems, of 1 0 t]
    by simp
qed simp

text \<open>The search at the offset of the log's event \<open>j\<close>.\<close>

lemma represents_find:
  assumes "represents ops st a log" and "no_wrap a log" and "unat n = unat a + j" and "Suc j < length log"
  shows "find_event (items ops (events st)) (Some n) =
    Some (log_entry a log (max (Suc j) (length log - MAX_EVENTS)))"
proof -
  let ?es = "items ops (events st)" and ?k = "length log - Suc (Suc j)"
  have d: "descending ?es (unat a + length log - 1)"
    using assms by (intro represents_descending) auto
  have len: "length ?es = min MAX_EVENTS (length log)"
    using assms(1) by (simp add: represents_def)
  show ?thesis
  proof (cases "?k < length ?es")
    case True
    have "find_event ?es (Some n) = Some (?es ! ?k)"
      by (rule find_successor [OF d _ True]) (use assms(3,4) in simp)
    also have "?es ! ?k = log_entry a log (Suc j)"
      using represents_nth(1) [OF assms(1) True] assms(4) by simp
    moreover have "length log - MAX_EVENTS \<le> Suc j" using True len by auto
    ultimately show ?thesis by (simp add: max_def)
  next
    case False
    have "find_event ?es (Some n) = Some (last ?es)"
      by (rule find_overrun [OF d]) (use assms(3,4) False len in auto)
    then show ?thesis
      using represents_last [OF assms(1)] False len assms(4) by (cases "log = []") (auto simp: max_def)
  qed
qed

text \<open>The two sides of the range check, for a log that is not empty.\<close>

lemma represents_range:
  assumes "represents ops st a log" and "no_wrap a log" and "log \<noteq> []"
  shows "maybe_event ops now st (Some n) =
    (if a \<le> n \<and> unat n < unat a + length log then
       map_option (\<lambda>(e, n, t). (Logged e n, t)) (find_event (items ops (events st)) (Some n))
     else Some (Recovery a (a + of_nat (length log - 1)), now))"
proof -
  have bounds: "start st = Some a" "end_offset st = Some (a + of_nat (length log - 1))"
    using assms by (auto simp: represents_def)
  have hi: "unat (a + of_nat (length log - 1)) = unat a + (length log - 1)"
    using assms(2,3) by (intro unat_plus_u32) (cases log, auto simp: no_wrap_def)
  have "n \<le> a + of_nat (length log - 1) \<longleftrightarrow> unat n < unat a + length log"
    unfolding word_le_nat_alt hi using assms(3) by (cases log) auto
  then show ?thesis by (simp add: maybe_event_def bounds)
qed

lemma no_wrap_index:
  assumes "a \<le> n" and "unat n < unat a + length log"
  obtains j where "unat n = unat a + j" "j < length log"
  using assms by (metis add_diff_inverse_nat add_less_cancel_left not_less word_le_nat_alt)

text \<open>The refinement, for the components that use the server.\<close>

lemma maybe_event_log:
  assumes "represents ops st a log" and "no_wrap a log" and "log \<noteq> []"
  shows "maybe_event ops now st last_offset = log_answer now a log last_offset"
proof (cases last_offset)
  case None
  then show ?thesis
    using assms represents_last [OF assms(1,3)] find_none [OF represents_descending [OF assms]]
    by (auto simp: maybe_event_def log_answer_def represents_def log_entry_def)
next
  case (Some n)
  show ?thesis
  proof (cases "a \<le> n \<and> unat n < unat a + length log")
    case True
    then obtain j where j: "unat n = unat a + j" "j < length log" using no_wrap_index by blast
    show ?thesis
    proof (cases "Suc j < length log")
      case True
      then show ?thesis
        using j represents_find [OF assms(1,2) j(1) True]
        by (simp add: Some log_answer_def represents_range [OF assms] log_entry_def word_le_nat_alt word_less_nat_alt)
    next
      case False
      then have n: "unat n = unat a + length log - 1" using j by simp
      with j show ?thesis
        using find_top [OF represents_descending [OF assms] n]
        by (simp add: Some log_answer_def represents_range [OF assms] word_le_nat_alt word_less_nat_alt)
    qed
  next
    case False
    then show ?thesis
      by (auto simp: Some log_answer_def represents_range [OF assms] word_le_nat_alt word_less_nat_alt)
  qed
qed

text \<open>Once the end offset has wrapped around below the start offset, every offset is out of range.\<close>

lemma maybe_event_wrapped:
  assumes "start st = Some from" and "end_offset st = Some to" and "to < from"
  shows "maybe_event ops now st (Some n) = Some (Recovery from to, now)"
  using assms by (auto simp: maybe_event_def)

section \<open>The rules of the protocol\<close>

text \<open>
  The table of \<open>offset-rules.md\<close>: what a server that retains the events \<open>es\<close> (newest first) must answer
  to a client at offset \<open>n\<close>.
\<close>

definition rules_answer :: "'t \<Rightarrow> 't entry list \<Rightarrow> u32 \<Rightarrow> ((Event, NoEE) EventOf \<times> 't) option" where
  "rules_answer now es n =
     (case find (\<lambda>x. entry_offset x = n + 1) es of
        Some (e, offset, t) \<Rightarrow> Some (Logged e offset, t)
      | None \<Rightarrow>
          if n \<in> entry_offset ` set es then None
          else Some (Recovery (entry_offset (last es)) (entry_offset (hd es)), now))"

lemma represents_set:
  assumes "represents ops st a log"
  shows "set (items ops (events st)) = log_entry a log ` {length log - MAX_EVENTS..<length log}"
proof -
  have "set (items ops (events st)) = set (drop (length log - MAX_EVENTS) (log_entries a log))"
    using assms by (simp add: represents_def take_rev)
  then show ?thesis by (simp add: log_entries_def drop_map)
qed

lemma represents_hd:
  assumes "represents ops st a log" and "log \<noteq> []"
  shows "hd (items ops (events st)) = log_entry a log (length log - 1)"
proof -
  have "items ops (events st) \<noteq> []" using represents_set [OF assms(1)] assms(2) by auto
  then show ?thesis using represents_nth(1) [OF assms(1), of 0] by (simp add: hd_conv_nth)
qed

text \<open>An offset is in the history exactly when it is that of one of the last events of the log.\<close>

lemma represents_lookup:
  assumes "represents ops st a log" and "no_wrap a log"
  shows "find (\<lambda>x. entry_offset x = m) (items ops (events st)) =
    (if unat a + (length log - MAX_EVENTS) \<le> unat m \<and> unat m < unat a + length log
     then Some (log_entry a log (unat m - unat a)) else None)"
proof -
  have eq: "entry_offset (log_entry a log i) = m \<longleftrightarrow> unat a + i = unat m" if "i < length log" for i
    using log_entry_offset [OF assms(2) that] by (metis unat_inject)
  show ?thesis
  proof (cases "unat a + (length log - MAX_EVENTS) \<le> unat m \<and> unat m < unat a + length log")
    case True
    define i where "i = unat m - unat a"
    have i: "unat m = unat a + i" "length log - MAX_EVENTS \<le> i" "i < length log"
      using True by (auto simp: i_def)
    then have "find (\<lambda>x. entry_offset x = m) (items ops (events st)) = Some (log_entry a log i)"
      by (intro find_unique) (auto simp: represents_set [OF assms(1)] log_entry_offset [OF assms(2)] eq)
    with True i show ?thesis by simp
  next
    case False
    then have "find (\<lambda>x. entry_offset x = m) (items ops (events st)) = None"
      by (auto simp: find_None_iff represents_set [OF assms(1)] eq)
    with False show ?thesis by simp
  qed
qed

lemma represents_member:
  assumes "represents ops st a log" and "no_wrap a log"
  shows "m \<in> entry_offset ` set (items ops (events st)) \<longleftrightarrow>
    unat a + (length log - MAX_EVENTS) \<le> unat m \<and> unat m < unat a + length log"
proof -
  have "m \<in> entry_offset ` set (items ops (events st)) \<longleftrightarrow>
      find (\<lambda>x. entry_offset x = m) (items ops (events st)) \<noteq> None"
    unfolding find_None_iff by blast
  then show ?thesis by (simp add: represents_lookup [OF assms] del: not_None_eq)
qed

lemma represents_rules:
  assumes "represents ops st a log" and "no_wrap a log" and "log \<noteq> []"
  defines "lo \<equiv> unat a + (length log - MAX_EVENTS)" and "hi \<equiv> unat a + length log"
  shows "rules_answer now (items ops (events st)) n =
    (if lo \<le> unat (n + 1) \<and> unat (n + 1) < hi
     then Some (Logged (fst (log ! (unat (n + 1) - unat a))) (n + 1), snd (log ! (unat (n + 1) - unat a)))
     else if lo \<le> unat n \<and> unat n < hi then None
     else Some (Recovery (a + of_nat (length log - MAX_EVENTS)) (a + of_nat (length log - 1)), now))"
  unfolding rules_answer_def represents_lookup [OF assms(1,2)] represents_member [OF assms(1,2)]
    represents_last [OF assms(1,3)] represents_hd [OF assms(1,3)] lo_def hi_def
  by (auto simp: log_entry_def word_less_nat_alt of_nat_diff)

text \<open>Where the server follows the table: by whether the client's offset is in the range of the log.\<close>

lemma rules_in_range:
  assumes "represents ops st a log" and "no_wrap a log" and "unat n = unat a + j" and "j < length log"
  shows "log_answer now a log (Some n) = rules_answer now (items ops (events st)) n \<longleftrightarrow>
    length log - MAX_EVENTS \<le> Suc j"
proof -
  have ne: "log \<noteq> []" using assms(4) by auto
  have nw: "unat a + length log \<le> 2 ^ 32" using assms(2) by (simp add: no_wrap_def)
  show ?thesis
  proof (cases "Suc j < length log")
    case True
    then have n1: "unat (n + 1) = Suc (unat n)" using nw assms(3) unat_plus_u32 [of n 1] by simp
    then have "n + 1 = a + of_nat (Suc j)"
      using True nw assms(3) unat_plus_u32 [of a "Suc j"] by (simp flip: unat_inject)
    then show ?thesis
      using True n1 assms(3) by (auto simp: log_answer_def represents_rules [OF assms(1,2) ne] word_less_nat_alt)
  next
    case False
    then have "unat n = unat a + length log - 1" using assms(3,4) by simp
    moreover have "\<not> (unat a + (length log - MAX_EVENTS) \<le> unat (n + 1) \<and> unat (n + 1) < unat a + length log)"
      using unat_succ_cases [of n] assms(3,4) False nw by (auto simp: MAX_EVENTS_def)
    ultimately show ?thesis
      using False assms(3,4) by (auto simp: log_answer_def represents_rules [OF assms(1,2) ne] word_less_nat_alt MAX_EVENTS_def)
  qed
qed

lemma rules_out_of_range:
  assumes "represents ops st a log" and "no_wrap a log" and "log \<noteq> []"
    and "\<not> (a \<le> n \<and> unat n < unat a + length log)"
  shows "log_answer now a log (Some n) = rules_answer now (items ops (events st)) n \<longleftrightarrow>
    length log \<le> MAX_EVENTS \<and> n + 1 \<noteq> a"
proof -
  have nw: "unat a + length log \<le> 2 ^ 32" using assms(2) by (simp add: no_wrap_def)
  have answer: "log_answer now a log (Some n) = Some (Recovery a (a + of_nat (length log - 1)), now)"
    using assms(4) by (auto simp: log_answer_def word_le_nat_alt word_less_nat_alt)
  have "unat a + (length log - MAX_EVENTS) < 2 ^ 32"
    using nw unat_u32_less [of a] by (auto simp: MAX_EVENTS_def)
  then have "a + of_nat (length log - MAX_EVENTS) = a \<longleftrightarrow> length log \<le> MAX_EVENTS"
    unfolding unat_inject [symmetric] by (simp add: unat_plus_u32)
  moreover have "unat a \<le> unat (n + 1) \<and> unat (n + 1) < unat a + length log \<longleftrightarrow> n + 1 = a"
    using unat_succ_cases [of n] assms(3,4) unat_u32_less [of n] nw
    by (auto simp: word_le_nat_alt simp flip: unat_inject)
  ultimately show ?thesis
    using assms(4) unfolding answer
    by (auto simp: represents_rules [OF assms(1-3)] word_le_nat_alt)
qed

section \<open>The datagram\<close>

text \<open>
  A reply always fits: at most ten bytes for the time, one for the variant and ten for two offsets.
\<close>

context postcard_format
begin

lemma EventOf_length:
  "length (ser_EventOf pc (ser_Event pc) (ser_NoEE pc) e) \<le> 11"
proof (cases e)
  case (Logged x n)
  then show ?thesis using varint_len_u32 [of n] by (cases x) (simp add: wire ser_Event_def)
next
  case (Ephemeral x)
  then show ?thesis by (simp add: wire ser_NoEE_def)
next
  case (Recovery m n)
  then show ?thesis using varint_len_u32 [of m] varint_len_u32 [of n] by (simp add: wire)
qed

lemma EventReply_fits:
  "length (ser_EventReply pc (ser_EventOf pc (ser_Event pc) (ser_NoEE pc)) r) \<le> MAX_DATAGRAM_SIZE"
proof -
  have "unat (delta_ticks r) < 2 ^ LENGTH(64)" by (rule unsigned_less)
  then have "varint_len (unat (delta_ticks r)) \<le> 10"
    using varint_len_le [of "unat (delta_ticks r)" 9] by simp
  then show ?thesis
    using EventOf_length [of "the (event r)"]
    by (cases "event r") (simp_all add: ser_EventReply_def serialise_last_field_def MAX_DATAGRAM_SIZE_def wire)
qed

lemma server_datagram_eq:
  "server_datagram pc ops now secs st datagram =
     map_option (\<lambda>request. ser_EventReply pc (ser_EventOf pc (ser_Event pc) (ser_NoEE pc))
         (event_reply (maybe_event ops now st (last_event_offset request)) secs))
       (ok (de_CommandRequest pc (de_Command pc) (take MAX_DATAGRAM_SIZE datagram)))"
proof (cases "de_CommandRequest pc (de_Command pc) (take MAX_DATAGRAM_SIZE datagram)")
  case (Inl e)
  then show ?thesis by (simp add: server_datagram_def)
next
  case (Inr request)
  let ?v = "ser_EventReply pc (ser_EventOf pc (ser_Event pc) (ser_NoEE pc))
      (event_reply (maybe_event ops now st (last_event_offset request)) secs)"
  have "length ?v \<le> length (replicate MAX_DATAGRAM_SIZE (0 :: u8))"
    using EventReply_fits by simp
  then show ?thesis by (simp add: server_datagram_def Inr write_slice)
qed

lemma server_reply_decodes:
  "de_EventReply pc (de_EventOf pc (de_Event pc) (de_NoEE pc))
     (ser_EventReply pc (ser_EventOf pc (ser_Event pc) (ser_NoEE pc)) r) = Inr r"
proof (rule EventReply_roundtrip)
  show "strict_codec (ser_EventOf pc (ser_Event pc) (ser_NoEE pc)) (de_EventOf pc (de_Event pc) (de_NoEE pc))
      (valid_EventOf (\<lambda>_. True) (\<lambda>_. True))"
    by (rule strict_codec_EventOf) (rule ev.codec_axioms no_ee.codec_axioms)+
  have "valid_EventOf (\<lambda>_. True) (\<lambda>_. True) e" for e :: "(Event, NoEE) EventOf"
    by (cases e) auto
  then show "pred_option (valid_EventOf (\<lambda>_. True) (\<lambda>_. True)) (event r)"
    by (cases "event r") auto
qed

end

section \<open>Properties\<close>

text \<open>A server that started at offset 3 and stored two events, at times 10 and 20.\<close>

definition example_server :: "(nat entry list \<times> nat) ServerState" where
  "example_server =
     server_event list_queue 1 0 20 (server_event list_queue 1 0 10 (server_init list_queue 3))"

lemma example_represents: "represents list_queue example_server 3 [(SomeEvent, 10), (SomeEvent, 20)]"
proof -
  have "represents list_queue (server_init list_queue 3 :: (nat entry list \<times> nat) ServerState) 3 []"
    using represents_init [OF circular_list_queue, where r = 3] by simp
  from represents_event [OF circular_list_queue
      represents_event [OF circular_list_queue this, where roll = 1 and r = 0 and t = 10],
      where roll = 1 and r = 0 and t = 20]
  show ?thesis by (simp add: example_server_def)
qed

text \<open>
  C5. Before a wrap-around of the offsets, the server's search through its circular queue
  implements the specification of an unbounded log. With events in the log a client whose offset
  is outside of it is told its bounds, one at the newest event gets nothing, and any other gets
  the oldest event still kept that is newer than its offset, a client without an offset the oldest
  event kept. With an empty log a server that has just been reset tells its first offset as both
  bounds to a client with any other offset, and all other requests are answered with nothing.
\<close>

theorem server_refines_log:
  assumes "represents ops st a log" and "no_wrap a log"
  shows "maybe_event ops now st last_offset =
    (if log \<noteq> [] then log_answer now a log last_offset
     else (case (start st, last_offset) of
             (Some _, Some n) \<Rightarrow> if n = a then None else Some (Recovery a a, now)
           | _ \<Rightarrow> None))"
proof (cases "log = []")
  case True
  then show ?thesis
    using assms(1) by (auto simp: represents_def maybe_event_def find_event_def Let_def split: option.splits)
next
  case False
  with maybe_event_log [OF assms] show ?thesis by simp
qed

theorem server_refines_log_witness:
  "maybe_event list_queue 99 example_server (Some 3) = Some (Logged SomeEvent 4, 20) \<and>
   maybe_event list_queue 99 example_server (Some 5) = Some (Recovery 3 4, 99) \<and>
   maybe_event list_queue (99 :: nat) (server_init list_queue 3) (Some 5) = None"
  using server_refines_log [OF represents_init [OF circular_list_queue, of 3], of "99 :: nat" "Some 5"]
  by (simp add: server_refines_log [OF example_represents] server_init_def no_wrap_def log_answer_def MAX_EVENTS_def)

text \<open>
  C25. When exactly the server answers as the table of offset-rules.md demands, before a
  wrap-around: as long as no event was overwritten, to every offset but the predecessor of the
  first; after that, to the offsets of the events kept and the predecessor of the oldest one only.
\<close>

theorem server_offset_rules:
  assumes "represents ops st a log" and "no_wrap a log" and "log \<noteq> []"
  shows "maybe_event ops now st (Some n) = rules_answer now (items ops (events st)) n \<longleftrightarrow>
    (if length log \<le> MAX_EVENTS then n + 1 \<noteq> a
     else unat a + (length log - MAX_EVENTS) \<le> Suc (unat n) \<and> unat n < unat a + length log)"
proof (cases "a \<le> n \<and> unat n < unat a + length log")
  case True
  then obtain j where j: "unat n = unat a + j" "j < length log" using no_wrap_index by blast
  moreover have "n + 1 \<noteq> a" if "length log \<le> MAX_EVENTS"
    using unat_succ_cases [of n] j that by (auto simp: MAX_EVENTS_def)
  ultimately show ?thesis
    unfolding maybe_event_log [OF assms] using rules_in_range [OF assms(1,2) j] by auto
next
  case False
  then show ?thesis
    unfolding maybe_event_log [OF assms] rules_out_of_range [OF assms False] 
    using assms(2) by (auto simp: word_le_nat_alt MAX_EVENTS_def)
qed

theorem server_offset_rules_witness:
  "maybe_event list_queue 99 example_server (Some 3) =
     rules_answer 99 (items list_queue (events example_server)) 3 \<and>
   maybe_event list_queue 99 example_server (Some 2) \<noteq>
     rules_answer 99 (items list_queue (events example_server)) 2"
  by (simp add: server_offset_rules [OF example_represents] no_wrap_def MAX_EVENTS_def)

text \<open>
  The server answers every datagram it can decode, the answer fits its buffer, and a client
  decodes it to the reply the server meant.
\<close>

lemma server_answers_every_request:
  assumes "postcard_format pc" 
    and "de_CommandRequest pc (de_Command pc) (take MAX_DATAGRAM_SIZE datagram) = Inr request"
  shows "\<exists>encoded_buf. server_datagram pc ops now secs st datagram = Some encoded_buf
    \<and> length encoded_buf \<le> MAX_DATAGRAM_SIZE
    \<and> de_EventReply pc (de_EventOf pc (de_Event pc) (de_NoEE pc)) encoded_buf =
        Inr (event_reply (maybe_event ops now st (last_event_offset request)) secs)"
  using assms(2)
  by (simp add: postcard_format.server_datagram_eq [OF assms(1)] postcard_format.EventReply_fits [OF assms(1)]
        postcard_format.server_reply_decodes [OF assms(1)])

lemma server_answers_every_request_example:
  "\<exists>encoded_buf. server_datagram postcard_v1 list_queue 99 (\<lambda>t. of_nat (99 - t)) example_server [1, 3] =
       Some encoded_buf
    \<and> length encoded_buf \<le> MAX_DATAGRAM_SIZE
    \<and> de_EventReply postcard_v1 (de_EventOf postcard_v1 (de_Event postcard_v1) (de_NoEE postcard_v1)) encoded_buf =
        Inr (event_reply (maybe_event list_queue 99 example_server (Some 3)) (\<lambda>t. of_nat (99 - t)))"
proof -
  have "de_CommandRequest postcard_v1 (de_Command postcard_v1) (take MAX_DATAGRAM_SIZE [1, 3]) =
      Inr \<lparr>last_event_offset = Some 3, command = None\<rparr>"
    by (simp add: v1_defs MAX_DATAGRAM_SIZE_def de_CommandRequest_def de_opt_def wire
          deserialise_last_field_def de_Command_def)
  from server_answers_every_request [OF v1.postcard_format_axioms this]
  show ?thesis by simp
qed

text \<open>
  C26. What a client learns of a restart: a server that resets its events with the random first
  offset r and then stores k events, with r + k at most 2^32, answers the last offset n of a
  client with a recovery event from r to r + k - 1 (to r for k = 0), so that the restart is
  noticed, exactly when n is below r or at least r + max 1 k. Otherwise the answer does not tell:
  nothing when n is the newest offset (or k = 0), else the event of the new run with the offset
  after n, or the oldest one kept if that is later.
\<close>

theorem restart_answer:
  assumes "circular_queue ops" and "represents ops st a log" and "r < MAX_EVENTS" and "r + length ts \<le> 2 ^ 32"
  shows "maybe_event ops now (fold (server_event ops 1 0) ts (server_event ops 0 r t0 st)) (Some n) =
    (if unat n < r \<or> r + max 1 (length ts) \<le> unat n
     then Some (Recovery (of_nat r) (of_nat (r + (length ts - 1))), now)
     else if r + length ts \<le> Suc (unat n) then None
     else (let i = max (Suc (unat n) - r) (length ts - MAX_EVENTS)
           in Some (Logged SomeEvent (of_nat (r + i)), ts ! i)))"
proof -
  let ?st = "server_event ops 0 r t0 st"
  have r: "unat (of_nat r :: u32) = r" using assms(3) by (simp add: unat_of_nat MAX_EVENTS_def)
  show ?thesis
  proof (cases "ts = []")
    case True
    have "n = of_nat r \<longleftrightarrow> unat n = r" using r by (metis unat_inject)
    moreover have "items ops (events ?st) = []"
      using represents_event [OF assms(1,2), of 0 r t0] by (simp add: represents_def)
    ultimately show ?thesis using True by (auto simp: maybe_event_def server_event_def find_event_def Let_def)
  next
    case False
    let ?log = "map (Pair SomeEvent) ts"
    have "represents ops ?st (of_nat r) []"
      using represents_event [OF assms(1,2), of 0 r t0] by simp
    then have "represents ops (fold (server_event ops 1 0) ts ?st) (of_nat r) ?log"
      using represents_events [OF assms(1)] by fastforce
    moreover have "no_wrap (of_nat r) ?log" using assms(4) r by (simp add: no_wrap_def)
    ultimately have "maybe_event ops now (fold (server_event ops 1 0) ts ?st) (Some n) =
        log_answer now (of_nat r) ?log (Some n)"
      using False by (intro maybe_event_log) simp_all
    moreover have "n < of_nat r \<longleftrightarrow> unat n < r" using r by (simp add: word_less_nat_alt)
    moreover obtain k where "length ts = Suc k" using False by (cases ts) auto
    moreover from this have "map (Pair SomeEvent) ts ! max (Suc (unat n - r)) (k - 9) =
        (SomeEvent, ts ! max (Suc (unat n - r)) (k - 9))" if "\<not> r + k \<le> unat n" "r \<le> unat n"
      using that by (intro nth_map) auto
    ultimately show ?thesis
      using r by (auto simp: log_answer_def Let_def Suc_diff_le not_less MAX_EVENTS_def)
  qed
qed

theorem restart_answer_witness:
  "maybe_event list_queue 99 (fold (server_event list_queue 1 0) [50, 60, 70] (server_event list_queue 0 4 40 example_server))
     (Some 4) = Some (Logged SomeEvent 5, 60) \<and>
   maybe_event list_queue 99 (fold (server_event list_queue 1 0) [50, 60, 70] (server_event list_queue 0 4 40 example_server))
     (Some 6) = None \<and>
   maybe_event list_queue 99 (fold (server_event list_queue 1 0) [50, 60, 70] (server_event list_queue 0 4 40 example_server))
     (Some 7) = Some (Recovery 4 6, 99)"
  using restart_answer [OF circular_list_queue example_represents, of 4 "[50, 60, 70]" 99 40 4]
    restart_answer [OF circular_list_queue example_represents, of 4 "[50, 60, 70]" 99 40 6]
    restart_answer [OF circular_list_queue example_represents, of 4 "[50, 60, 70]" 99 40 7]
  by (simp add: MAX_EVENTS_def Let_def)

end
