(* ===== verification/App_Client.thy ===== *)
theory App_Client
  imports App_Server
begin

text \<open>
  The example client of the application layer (\<open>app/examples/client/main.rs\<close>): the state it keeps
  across the turns of its loop, the request it sends at the start of a turn and what it does with the
  reply it reads at the end. Time and printing are left out: a turn in which no datagram arrives
  before the timeout changes nothing.
\<close>

section \<open>State and operations\<close>

record ClientState =
  last_offset :: "u32 option"
  event_count :: u32
  init_mode :: bool
  recovery_event_offset :: "u32 option"

definition client_init :: ClientState where
  "client_init = \<lparr>last_offset = None, event_count = 0, init_mode = True, recovery_event_offset = None\<rparr>"

definition client_request :: "ClientState \<Rightarrow> Command CommandRequest" where
  "client_request c =
     \<lparr>last_event_offset = last_offset c, command = (if init_mode c then None else Some SomeCommand)\<rparr>"

text \<open>The datagram sent, if the request fits the buffer.\<close>

definition client_send :: "'pe postcard \<Rightarrow> ClientState \<Rightarrow> bytes option" where
  "client_send pc c =
     (case write_slice pc (ser_CommandRequest pc (ser_Command pc) (client_request c))
             (replicate MAX_DATAGRAM_SIZE 0) of
        Inl _ \<Rightarrow> None
      | Inr (encoded_buf, _) \<Rightarrow> Some encoded_buf)"

text \<open>The reply read from a datagram, as much of it as the buffer holds.\<close>

definition client_read :: "'pe postcard \<Rightarrow> bytes \<Rightarrow> (Event, NoEE) EventOf EventReply option" where
  "client_read pc datagram =
     ok (de_EventReply pc (de_EventOf pc (de_Event pc) (de_NoEE pc)) (take MAX_DATAGRAM_SIZE datagram))"

definition client_reply :: "(Event, NoEE) EventOf EventReply \<Rightarrow> ClientState \<Rightarrow> ClientState" where
  "client_reply reply c =
     (case event reply of
        Some (Recovery from to) \<Rightarrow>
          c\<lparr>init_mode := True, event_count := 0, last_offset := Some from,
            recovery_event_offset := (if from \<noteq> to then Some to else None)\<rparr>
      | Some (Logged _ offset) \<Rightarrow>
          (let c' = c\<lparr>event_count := event_count c + 1, last_offset := Some offset\<rparr>
           in if last_offset c' = recovery_event_offset c' then c'\<lparr>init_mode := True\<rparr> else c')
      | _ \<Rightarrow> c)"

definition client_datagram :: "'pe postcard \<Rightarrow> bytes \<Rightarrow> ClientState \<Rightarrow> ClientState" where
  "client_datagram pc datagram c =
     (case client_read pc datagram of Some reply \<Rightarrow> client_reply reply c | None \<Rightarrow> c)"

section \<open>The effect of a reply\<close>

text \<open>The constructors of the reply alone decide what happens to the offset and the count.\<close>

lemma client_reply_simps [simp]:
  "event r = Some (Recovery from to) \<Longrightarrow> last_offset (client_reply r c) = Some from"
  "event r = Some (Recovery from to) \<Longrightarrow> event_count (client_reply r c) = 0"
  "event r = Some (Logged e n) \<Longrightarrow> last_offset (client_reply r c) = Some n"
  "event r = Some (Logged e n) \<Longrightarrow> event_count (client_reply r c) = event_count c + 1"
  "event r = Some (Ephemeral ee) \<Longrightarrow> client_reply r c = c"
  "event r = None \<Longrightarrow> client_reply r c = c"
  by (simp_all add: client_reply_def Let_def)

lemma client_reply_init_mode: "init_mode c \<Longrightarrow> init_mode (client_reply r c)"
  by (auto simp: client_reply_def Let_def split: option.splits EventOf.splits)

lemma client_datagram_init_mode: "init_mode c \<Longrightarrow> init_mode (client_datagram pc b c)"
  by (simp add: client_datagram_def client_reply_init_mode split: option.splits)

lemma clients_init_mode: "init_mode c \<Longrightarrow> init_mode (fold (client_datagram pc) datagrams c)"
  by (induction datagrams arbitrary: c) (simp_all add: client_datagram_init_mode)

context postcard_format
begin

text \<open>A request always fits its buffer and the server reads it back.\<close>

lemma CommandRequest_fits:
  "length (ser_CommandRequest pc (ser_Command pc) r) \<le> 7"
proof -
  have "length (ser_opt pc (ser_u32 pc) (last_event_offset r)) \<le> 6"
    using varint_len_u32 by (cases "last_event_offset r") (simp_all add: wire)
  moreover have "length (serialise_last_field pc (ser_Command pc) (command r)) \<le> 1"
    by (auto simp: serialise_last_field_def ser_Command_def wire split: option.splits Command.splits)
  ultimately show ?thesis by (simp add: ser_CommandRequest_def)
qed

lemma client_send_eq: "client_send pc c = Some (ser_CommandRequest pc (ser_Command pc) (client_request c))"
  using CommandRequest_fits [of "client_request c"]
  by (simp add: client_send_def write_slice MAX_DATAGRAM_SIZE_def)

lemma server_reads_request:
  "de_CommandRequest pc (de_Command pc)
     (take MAX_DATAGRAM_SIZE (ser_CommandRequest pc (ser_Command pc) r)) = Inr r"
  using CommandRequest_fits [of r] CommandRequest_roundtrip [OF cmd.strict_codec_axioms, of r]
  by (simp add: MAX_DATAGRAM_SIZE_def pred_option_def)

lemma client_reads_reply:
  "client_read pc (ser_EventReply pc (ser_EventOf pc (ser_Event pc) (ser_NoEE pc)) r) = Some r"
  using EventReply_fits [of r] server_reply_decodes [of r] by (simp add: client_read_def)

end

section \<open>Properties\<close>

text \<open>
  Whatever datagrams it has received, the example client never sends a command.
\<close>

lemma client_never_commands:
  "command (client_request (fold (client_datagram pc) datagrams client_init)) = None"
  using clients_init_mode [of client_init pc datagrams] by (simp add: client_request_def client_init_def)

end
