(* ===== verification/Transition.thy ===== *)
theory Transition
  imports Main
begin

text \<open>
  State machines: the states reachable from an initial one by a step relation, and the locale
  \<open>inductive_invariant\<close>, the proof obligation of an invariant. The protocols of the examples are
  state machines of this kind, and their invariants interpretations of the locale.
\<close>

inductive reachable :: "('s \<Rightarrow> bool) \<Rightarrow> ('s \<Rightarrow> 's \<Rightarrow> bool) \<Rightarrow> 's \<Rightarrow> bool"
  for init :: "'s \<Rightarrow> bool" and step :: "'s \<Rightarrow> 's \<Rightarrow> bool" where
  reachable_init: "init s \<Longrightarrow> reachable init step s"
| reachable_step: "reachable init step s \<Longrightarrow> step s s' \<Longrightarrow> reachable init step s'"

lemma reachable_mono:
  assumes "reachable init step s" and "\<And>s s'. step s s' \<Longrightarrow> step' s s'"
  shows "reachable init step' s"
  using assms(1) by (induction) (auto intro: reachable.intros assms(2))

locale inductive_invariant =
  fixes init :: "'s \<Rightarrow> bool" and step :: "'s \<Rightarrow> 's \<Rightarrow> bool" and inv :: "'s \<Rightarrow> bool"
  assumes initially: "init s \<Longrightarrow> inv s"
    and preserved: "inv s \<Longrightarrow> step s s' \<Longrightarrow> inv s'"
begin

lemma invariant: "reachable init step s \<Longrightarrow> inv s"
  by (induction rule: reachable.induct) (auto intro: initially preserved)

end

end
