(* ===== verification/App_Exchange.thy ===== *)
theory App_Exchange
  imports App_Client Transition
begin

text \<open>
  The client and the server of the application layer together: the server stores events on its own
  account or is reset, and the client polls it with datagrams that both sides encode and decode. The
  poll of this theory is a prompt one: both datagrams arrive within the turn that sent the request.
  App_Link builds on it the runs in which datagrams wait, are late or are lost, App_Network those in
  which they are reordered and repeated too. Beside the two states a configuration carries what the
  properties speak of: the log of all events since the server started or was reset, with the offset of
  its first, and the events the client was given since it last forgot its state.
\<close>

section \<open>Configurations and prompt polls\<close>

record ('q, 't) Exchange =
  ex_server :: "'q ServerState"
  ex_client :: ClientState
  ex_first :: u32
  ex_log :: "(Event \<times> 't) list"
  ex_got :: "(Event \<times> u32) list"

text \<open>One turn of the client's loop in which both datagrams arrive: the reply the client reads.\<close>

definition poll_reply ::
    "'pe postcard \<Rightarrow> ('q, 't entry) queue_ops \<Rightarrow> 't \<Rightarrow> ('t \<Rightarrow> u64) \<Rightarrow> 'q ServerState \<Rightarrow> ClientState
      \<Rightarrow> (Event, NoEE) EventOf EventReply option" where
  "poll_reply pc ops now secs st c =
     Option.bind (client_send pc c) (\<lambda>request.
     Option.bind (server_datagram pc ops now secs st request) (\<lambda>reply. client_read pc reply))"

fun given :: "(Event, NoEE) EventOf option \<Rightarrow> (Event \<times> u32) list \<Rightarrow> (Event \<times> u32) list" where
  "given (Some (Logged e n)) got = got @ [(e, n)]"
| "given (Some (Recovery _ _)) got = []"
| "given (Some (Ephemeral _)) got = got"
| "given None got = got"

text \<open>
  A prompt turn: the reply the client reads is the server's answer to the request of this turn. It is
  the turn of \<open>App_Link\<close> on an idle link (lemma \<open>link_poll_idle\<close>).
\<close>

definition exchange_poll ::
    "'pe postcard \<Rightarrow> ('q, 't entry) queue_ops \<Rightarrow> 't \<Rightarrow> ('t \<Rightarrow> u64) \<Rightarrow> ('q, 't) Exchange \<Rightarrow> ('q, 't) Exchange" where
  "exchange_poll pc ops now secs s =
     (case poll_reply pc ops now secs (ex_server s) (ex_client s) of
        None \<Rightarrow> s
      | Some reply \<Rightarrow>
          s\<lparr>ex_client := client_reply reply (ex_client s), ex_got := given (event reply) (ex_got s)\<rparr>)"

definition exchange_store ::
    "('q, 't entry) queue_ops \<Rightarrow> nat \<Rightarrow> nat \<Rightarrow> 't \<Rightarrow> ('q, 't) Exchange \<Rightarrow> ('q, 't) Exchange" where
  "exchange_store ops roll r t s =
     s\<lparr>ex_server := server_event ops roll r t (ex_server s),
       ex_first := (if roll = 0 then of_nat r else ex_first s),
       ex_log := (if roll = 0 then [] else ex_log s @ [(SomeEvent, t)])\<rparr>"

section \<open>One poll\<close>

context postcard_format
begin

lemma poll_reply_eq:
  "poll_reply pc ops now secs st c = Some (event_reply (maybe_event ops now st (last_offset c)) secs)"
  by (simp add: poll_reply_def client_send_eq server_datagram_eq server_reads_request client_reads_reply
        client_request_def)

end

text \<open>
  A client that is done with the first \<open>seen\<close> events of the log: it asks with the offset of the last
  of them.
\<close>

definition done_with :: "u32 \<Rightarrow> nat \<Rightarrow> ClientState \<Rightarrow> bool" where
  "done_with a seen c \<longleftrightarrow> last_offset c = (if seen = 0 then None else Some (a + of_nat (seen - 1)))"

definition log_event :: "u32 \<Rightarrow> (Event \<times> 't) list \<Rightarrow> nat \<Rightarrow> Event \<times> u32" where
  "log_event a log i = (fst (log ! i), a + of_nat i)"

text \<open>It is given the next event of the log or, where that is overwritten already, the oldest one left.\<close>

lemma maybe_event_next:
  assumes "represents ops st a log" and "no_wrap a log" and "done_with a seen c" and "seen \<le> length log"
  shows "maybe_event ops now st (last_offset c) =
    (if seen < length log
     then (let m = max seen (length log - MAX_EVENTS)
           in Some (Logged (fst (log ! m)) (a + of_nat m), snd (log ! m)))
     else None)"
proof (cases "log = []")
  case True
  then show ?thesis
    using assms
    by (auto simp: represents_def maybe_event_def done_with_def find_event_def Let_def split: option.splits)
next
  case False
  show ?thesis
  proof (cases seen)
    case 0
    then show ?thesis
      using assms(3) False by (simp add: maybe_event_log [OF assms(1,2) False] done_with_def log_answer_def Let_def)
  next
    case (Suc j)
    then have "unat (a + of_nat j) = unat a + j"
      using assms(2,4) by (intro unat_plus_u32) (auto simp: no_wrap_def)
    then show ?thesis
      using Suc assms(3,4)
      by (auto simp: maybe_event_log [OF assms(1,2) False] done_with_def log_answer_def word_less_nat_alt Let_def)
  qed
qed

lemma exchange_poll_next:
  assumes "postcard_format pc" and "represents ops (ex_server s) (ex_first s) (ex_log s)"
    and "no_wrap (ex_first s) (ex_log s)" and "done_with (ex_first s) seen (ex_client s)"
    and "seen \<le> length (ex_log s)"
  defines "m \<equiv> max seen (length (ex_log s) - MAX_EVENTS)"
  shows "seen < length (ex_log s) \<Longrightarrow>
      (\<exists>c. exchange_poll pc ops now secs s = s\<lparr>ex_client := c, ex_got := ex_got s @ [log_event (ex_first s) (ex_log s) m]\<rparr>
        \<and> done_with (ex_first s) (Suc m) c \<and> event_count c = event_count (ex_client s) + 1)"
    and "seen = length (ex_log s) \<Longrightarrow> exchange_poll pc ops now secs s = s"
  using maybe_event_next [OF assms(2-5), of now]
  by (auto simp: exchange_poll_def postcard_format.poll_reply_eq [OF assms(1)] event_reply_def m_def
        Let_def log_event_def done_with_def)

text \<open>A client outside of the log is told its bounds, and is then done with the first event.\<close>

lemma exchange_poll_recovers:
  assumes "postcard_format pc" and "represents ops (ex_server s) (ex_first s) (ex_log s)"
    and "no_wrap (ex_first s) (ex_log s)" and "ex_log s \<noteq> []" and "last_offset (ex_client s) = Some n"
    and "n < ex_first s \<or> unat (ex_first s) + length (ex_log s) \<le> unat n"
  shows "\<exists>c. exchange_poll pc ops now secs s = s\<lparr>ex_client := c, ex_got := []\<rparr> \<and> done_with (ex_first s) 1 c"
proof -
  have "maybe_event ops now (ex_server s) (last_offset (ex_client s)) =
      Some (Recovery (ex_first s) (ex_first s + of_nat (length (ex_log s) - 1)), now)"
    using assms(5,6) by (simp add: maybe_event_log [OF assms(2-4)] log_answer_def)
  then show ?thesis
    by (auto simp: exchange_poll_def postcard_format.poll_reply_eq [OF assms(1)] event_reply_def done_with_def)
qed

text \<open>A run of polls gives the client the rest of the log, when the queue still holds it.\<close>

lemma exchange_polls:
  assumes "postcard_format pc" and "represents ops (ex_server s) (ex_first s) (ex_log s)"
    and "no_wrap (ex_first s) (ex_log s)" and "done_with (ex_first s) seen (ex_client s)"
    and "seen \<le> length (ex_log s)" and "length (ex_log s) \<le> seen + MAX_EVENTS"
  shows "\<exists>c. (exchange_poll pc ops now secs ^^ k) s =
      s\<lparr>ex_client := c, ex_got := ex_got s @
          map (log_event (ex_first s) (ex_log s)) [seen..<min (seen + k) (length (ex_log s))]\<rparr>
    \<and> done_with (ex_first s) (min (seen + k) (length (ex_log s))) c"
proof (induction k)
  case 0
  have "s = s\<lparr>ex_client := ex_client s, ex_got := ex_got s\<rparr>" by simp
  then show ?case using assms(4,5) by (intro exI [of _ "ex_client s"]) simp
next
  case (Suc k)
  let ?a = "ex_first s" and ?log = "ex_log s" and ?n = "min (seen + k) (length (ex_log s))"
  obtain c where run: "(exchange_poll pc ops now secs ^^ k) s =
      s\<lparr>ex_client := c, ex_got := ex_got s @ map (log_event ?a ?log) [seen..<?n]\<rparr>" (is "_ = ?s'")
    and c: "done_with ?a ?n c"
    using Suc.IH by blast
  have hyps: "represents ops (ex_server ?s') (ex_first ?s') (ex_log ?s')" "no_wrap (ex_first ?s') (ex_log ?s')"
    "done_with (ex_first ?s') ?n (ex_client ?s')" "?n \<le> length (ex_log ?s')"
    using assms c by simp_all
  note poll = exchange_poll_next [OF assms(1) hyps, of now secs]
  show ?case
  proof (cases "?n < length ?log")
    case True
    then have "?n = seen + k" "max ?n (length ?log - MAX_EVENTS) = ?n" using assms(6) by auto
    with True poll(1) show ?thesis by (auto simp: run)
  next
    case False
    then have "?n = length ?log" "min (seen + Suc k) (length ?log) = length ?log" by auto
    with poll(2) c show ?thesis by (auto simp: run)
  qed
qed

text \<open>How many events of the log a client is done with that was given those at positions \<open>idx\<close>.\<close>

definition seen_of :: "nat list \<Rightarrow> nat" where
  "seen_of idx = (if idx = [] then 0 else Suc (last idx))"

lemma seen_of_upt [simp]: "seen_of [0..<n] = n"
  by (cases n) (auto simp: seen_of_def)

lemma exchange_poll_keeps [simp]:
  "ex_server (exchange_poll pc ops now secs s) = ex_server s"
  "ex_first (exchange_poll pc ops now secs s) = ex_first s"
  "ex_log (exchange_poll pc ops now secs s) = ex_log s"
  by (simp_all add: exchange_poll_def split: option.splits)

section \<open>Properties\<close>

text \<open>A server that starts at offset 3 and stores two events before the client's first poll.\<close>

definition example_start :: "(nat entry list \<times> nat, nat) Exchange" where
  "example_start = \<lparr>ex_server = server_init list_queue 3, ex_client = client_init,
                    ex_first = of_nat 3, ex_log = [], ex_got = []\<rparr>"

definition example_stored :: "(nat entry list \<times> nat, nat) Exchange" where
  "example_stored = exchange_store list_queue 1 0 20 (exchange_store list_queue 1 0 10 example_start)"

definition example_polled :: "(nat entry list \<times> nat, nat) Exchange" where
  "example_polled = exchange_poll postcard_v1 list_queue 99 (\<lambda>t. of_nat (99 - t)) example_stored"

lemma example_stored_simps [simp]:
  "ex_server example_stored = example_server" "ex_client example_stored = client_init"
  "ex_first example_stored = 3" "ex_log example_stored = [(SomeEvent, 10), (SomeEvent, 20)]"
  "ex_got example_stored = []"
  by (simp_all add: example_stored_def example_start_def exchange_store_def example_server_def)

lemma example_polled_simps [simp]:
  "ex_first example_polled = 3" "ex_log example_polled = [(SomeEvent, 10), (SomeEvent, 20)]"
  "ex_got example_polled = [(SomeEvent, 3)]" "last_offset (ex_client example_polled) = Some 3"
  using maybe_event_log [OF example_represents, of 99 None]
  by (auto simp: example_polled_def exchange_poll_def v1.poll_reply_eq client_init_def event_reply_def
        no_wrap_def log_answer_def MAX_EVENTS_def)

text \<open>
  C33. Recovery, with all events of the log still kept: a client whose offset is outside of the
  log is then given all its events in order except the first, which it is never given.
\<close>

theorem recovery_skips_first:
  assumes "postcard_format pc" and "represents ops (ex_server s) (ex_first s) (ex_log s)"
    and "no_wrap (ex_first s) (ex_log s)" and "ex_log s \<noteq> []" and "length (ex_log s) \<le> MAX_EVENTS"
    and "last_offset (ex_client s) = Some n" 
    and "n < ex_first s \<or> unat (ex_first s) + length (ex_log s) \<le> unat n" and "length (ex_log s) \<le> k"
  shows "ex_got ((exchange_poll pc ops now secs ^^ k) s) =
    map (log_event (ex_first s) (ex_log s)) [1..<length (ex_log s)]"
proof -
  obtain k' where k: "k = Suc k'" "length (ex_log s) \<le> Suc k'" using assms(4,8) by (cases k) auto
  obtain c where poll: "exchange_poll pc ops now secs s = s\<lparr>ex_client := c, ex_got := []\<rparr>"
    and c: "done_with (ex_first s) 1 c"
    using exchange_poll_recovers [OF assms(1-4,6,7)] by blast
  let ?s = "s\<lparr>ex_client := c, ex_got := []\<rparr>"
  have "ex_got ((exchange_poll pc ops now secs ^^ k') ?s) =
      map (log_event (ex_first s) (ex_log s)) [1..<min (1 + k') (length (ex_log s))]"
    using exchange_polls [of pc ops ?s 1 k' now secs] c assms(1-5) by (cases "ex_log s") auto
  then show ?thesis using k by (simp add: poll funpow_Suc_right del: funpow.simps)
qed

theorem recovery_skips_first_witness:
  "ex_got ((exchange_poll postcard_v1 list_queue 99 (\<lambda>t. of_nat (99 - t)) ^^ 2)
     (example_stored\<lparr>ex_client := client_init\<lparr>last_offset := Some 9\<rparr>\<rparr>)) = [(SomeEvent, 4)]"
proof -
  let ?s = "example_stored\<lparr>ex_client := client_init\<lparr>last_offset := Some 9\<rparr>\<rparr>"
  have "ex_got ((exchange_poll postcard_v1 list_queue 99 (\<lambda>t. of_nat (99 - t)) ^^ 2) ?s) =
      map (log_event (ex_first ?s) (ex_log ?s)) [1..<length (ex_log ?s)]"
    by (rule recovery_skips_first [OF v1.postcard_format_axioms, where n = 9])
       (simp_all add: example_represents no_wrap_def MAX_EVENTS_def)
  then show ?thesis by (simp add: log_event_def upt_rec)
qed

text \<open>
  A client that times out, repeats its request and then reads both replies, the late and the
  new one, counts the same event twice: the second reply leaves its offset unchanged.
\<close>

lemma late_reply_counts_twice:
  assumes "postcard_format pc" and "represents ops st a log" and "no_wrap a log"
    and "done_with a seen c" and "seen < length log"
    and "client_send pc c = Some request"
    and "server_datagram pc ops now secs st request = Some reply"
    and "server_datagram pc ops now' secs' st request = Some reply'"
  shows "last_offset (client_datagram pc reply' (client_datagram pc reply c)) =
      last_offset (client_datagram pc reply c)
    \<and> event_count (client_datagram pc reply' (client_datagram pc reply c)) = event_count c + 2"
proof -
  have le: "seen \<le> length log" using assms(5) by simp
  show ?thesis
    using assms(5-8) maybe_event_next [OF assms(2-4) le]
    by (auto simp: postcard_format.client_send_eq [OF assms(1)] postcard_format.server_datagram_eq [OF assms(1)]
          postcard_format.server_reads_request [OF assms(1)] client_datagram_def
          postcard_format.client_reads_reply [OF assms(1)] client_request_def event_reply_def Let_def)
qed

lemma late_reply_counts_twice_example:
  "\<exists>reply. server_datagram postcard_v1 list_queue 99 (\<lambda>t. of_nat (99 - t)) example_server [0] = Some reply
    \<and> event_count (client_datagram postcard_v1 reply (client_datagram postcard_v1 reply client_init)) = 2"
proof -
  have request: "client_send postcard_v1 client_init = Some [0]"
    unfolding v1.client_send_eq
    by (simp add: client_request_def client_init_def ser_CommandRequest_def serialise_last_field_def v1_defs)
  have reads: "de_CommandRequest postcard_v1 (de_Command postcard_v1) (take MAX_DATAGRAM_SIZE [0]) =
      Inr (client_request client_init)"
    using v1.server_reads_request [of "client_request client_init"] request by (simp add: v1.client_send_eq)
  obtain reply where reply:
      "server_datagram postcard_v1 list_queue 99 (\<lambda>t. of_nat (99 - t)) example_server [0] = Some reply"
    by (simp add: v1.server_datagram_eq reads)
  have "event_count (client_datagram postcard_v1 reply (client_datagram postcard_v1 reply client_init)) =
      event_count client_init + 2"
    using late_reply_counts_twice [OF v1.postcard_format_axioms example_represents _ _ _ request reply reply, where seen = 0]
    by (simp add: no_wrap_def done_with_def client_init_def)
  with reply show ?thesis by (simp add: client_init_def)
qed

text \<open>
  C34. Once the end offset of a server has wrapped around below its start offset, a client with an
  offset is sent to the start by every poll and is given no event, for any number of polls.
\<close>

theorem wrapped_server_starves_client:
  assumes "postcard_format pc" and "start (ex_server s) = Some from" and "end_offset (ex_server s) = Some to"
    and "to < from" and "last_offset (ex_client s) = Some n"
  shows "ex_got ((exchange_poll pc ops now secs ^^ Suc k) s) = []
    \<and> last_offset (ex_client ((exchange_poll pc ops now secs ^^ Suc k) s)) = Some from"
proof -
  have poll: "exchange_poll pc ops now secs u =
      u\<lparr>ex_client := client_reply (event_reply (Some (Recovery from to, now)) secs) (ex_client u), ex_got := []\<rparr>"
    if "ex_server u = ex_server s" "last_offset (ex_client u) = Some m" for u m
    using assms(1) that
    by (simp add: exchange_poll_def postcard_format.poll_reply_eq event_reply_def maybe_event_wrapped [OF assms(2-4)])
  show ?thesis
  proof (induction k)
    case 0
    then show ?case using poll [OF refl assms(5)] by (simp add: event_reply_def)
  next
    case (Suc k)
    have "ex_server ((exchange_poll pc ops now secs ^^ j) s) = ex_server s" for j by (induction j) auto
    with Suc show ?case using poll [of "(exchange_poll pc ops now secs ^^ Suc k) s" "from"]
      by (simp add: event_reply_def)
  qed
qed

theorem wrapped_server_starves_client_witness:
  "ex_got ((exchange_poll postcard_v1 list_queue 99 (\<lambda>t. of_nat (99 - t)) ^^ Suc 7)
     \<lparr>ex_server = \<lparr>events = ([(SomeEvent, 0, 20), (SomeEvent, 4294967295, 10)], MAX_EVENTS),
                   start = Some 4294967295, end_offset = Some 0, event_offset = 1\<rparr>,
      ex_client = client_init\<lparr>last_offset := Some 4294967295\<rparr>,
      ex_first = 4294967295, ex_log = [(SomeEvent, 10), (SomeEvent, 20)], ex_got = [(SomeEvent, 4294967295)]\<rparr>) = []"
  by (rule wrapped_server_starves_client [OF v1.postcard_format_axioms, THEN conjunct1], simp, simp, simp, simp)

end
