(* ===== verification/App_Link.thy ===== *)
theory App_Link
  imports App_Exchange
begin

text \<open>
  The client and the server of the application layer over a link that keeps the order of the datagrams
  and may lose or delay them. Requests wait to be served and replies wait in the client's socket, so
  that a reply that arrives after the client's timeout is still there, and is read in place of the reply
  to the next request. The server may be reset at any time. All of both loops is a step here; what a
  property needs of a run (no reset so far, no overlap of a request with an earlier one) is a
  hypothesis on the state.
\<close>

section \<open>Configurations and steps\<close>

text \<open>
  Beside the datagrams under way a configuration counts the resets, and notes whether the client ever
  sent a request while an earlier one or a reply to it was still under way.
\<close>

record ('q, 't) Link = "('q, 't) Exchange" +
  ln_requests :: "bytes list"
  ln_socket :: "bytes list"
  ln_resets :: nat
  ln_overlap :: bool

definition link_init :: "'pe postcard \<Rightarrow> ('q, 't entry) queue_ops \<Rightarrow> ('q, 't) Link \<Rightarrow> bool" where
  "link_init pc ops s \<longleftrightarrow> postcard_format pc \<and> circular_queue ops \<and>
     (\<exists>r < MAX_EVENTS. s = \<lparr>ex_server = server_init ops r, ex_client = client_init, ex_first = of_nat r, ex_log = [],
                            ex_got = [], ln_requests = [], ln_socket = [], ln_resets = 0, ln_overlap = False\<rparr>)"

definition link_send :: "'pe postcard \<Rightarrow> ('q, 't) Link \<Rightarrow> ('q, 't) Link" where
  "link_send pc s =
     (case client_send pc (ex_client s) of
        None \<Rightarrow> s
      | Some d \<Rightarrow> s\<lparr>ln_requests := ln_requests s @ [d],
                    ln_overlap := (ln_overlap s \<or> ln_requests s \<noteq> [] \<or> ln_socket s \<noteq> [])\<rparr>)"

definition link_serve ::
    "'pe postcard \<Rightarrow> ('q, 't entry) queue_ops \<Rightarrow> 't \<Rightarrow> ('t \<Rightarrow> u64) \<Rightarrow> ('q, 't) Link \<Rightarrow> ('q, 't) Link" where
  "link_serve pc ops now secs s =
     (case ln_requests s of
        [] \<Rightarrow> s
      | d # ds \<Rightarrow> s\<lparr>ln_requests := ds,
          ln_socket := ln_socket s @ (case server_datagram pc ops now secs (ex_server s) d of Some b \<Rightarrow> [b] | None \<Rightarrow> [])\<rparr>)"

definition link_read :: "'pe postcard \<Rightarrow> ('q, 't) Link \<Rightarrow> ('q, 't) Link" where
  "link_read pc s =
     (case ln_socket s of
        [] \<Rightarrow> s
      | d # ds \<Rightarrow> s\<lparr>ln_socket := ds, ex_client := client_datagram pc d (ex_client s),
          ex_got := (case client_read pc d of None \<Rightarrow> ex_got s | Some reply \<Rightarrow> given (event reply) (ex_got s))\<rparr>)"

definition link_store ::
    "('q, 't entry) queue_ops \<Rightarrow> nat \<Rightarrow> nat \<Rightarrow> 't \<Rightarrow> ('q, 't) Link \<Rightarrow> ('q, 't) Link" where
  "link_store ops roll r t s =
     s\<lparr>ex_server := server_event ops roll r t (ex_server s),
       ex_first := (if roll = 0 then of_nat r else ex_first s),
       ex_log := (if roll = 0 then [] else ex_log s @ [(SomeEvent, t)]),
       ln_resets := (if roll = 0 then Suc (ln_resets s) else ln_resets s)\<rparr>"

inductive link_step ::
    "'pe postcard \<Rightarrow> ('q, 't entry) queue_ops \<Rightarrow> ('q, 't) Link \<Rightarrow> ('q, 't) Link \<Rightarrow> bool"
  for pc :: "'pe postcard" and ops :: "('q, 't entry) queue_ops" where
  link_step_send: "link_step pc ops s (link_send pc s)"
| link_step_serve: "link_step pc ops s (link_serve pc ops now secs s)"
| link_step_read: "link_step pc ops s (link_read pc s)"
| link_step_store: "link_step pc ops s (link_store ops roll r t s)"
| link_step_lose_request: "ln_requests s = xs @ d # ys \<Longrightarrow> link_step pc ops s (s\<lparr>ln_requests := xs @ ys\<rparr>)"
| link_step_lose_reply: "ln_socket s = xs @ d # ys \<Longrightarrow> link_step pc ops s (s\<lparr>ln_socket := xs @ ys\<rparr>)"

text \<open>
  Paced steps: the server never gets further ahead of the client than its queue holds, so that it
  overwrites no event the client has not been given.
\<close>

definition paced_link ::
    "'pe postcard \<Rightarrow> ('q, 't entry) queue_ops \<Rightarrow> ('q, 't) Link \<Rightarrow> ('q, 't) Link \<Rightarrow> bool" where
  "paced_link pc ops s s' \<longleftrightarrow>
     link_step pc ops s s' \<and> length (ex_log s') \<le> length (remdups_adj (ex_got s')) + MAX_EVENTS"

section \<open>Positions under way\<close>

text \<open>
  A client that is done with \<open>k\<close> of the \<open>len\<close> events of the log asks at position \<open>k\<close>; asked at
  position \<open>q\<close> the server gives the event at \<open>next_index len q\<close>. With requests \<open>qs\<close> and given events
  \<open>ms\<close> under way, none of them falls behind what the client was given already.
\<close>

definition next_index :: "nat \<Rightarrow> nat \<Rightarrow> nat" where
  "next_index len q = max q (len - MAX_EVENTS)"

definition pending :: "nat \<Rightarrow> nat \<Rightarrow> nat list \<Rightarrow> nat list \<Rightarrow> bool" where
  "pending k len qs ms \<longleftrightarrow> k \<le> len \<and> sorted qs \<and> sorted ms \<and>
     (\<forall>q \<in> set qs. q \<le> k \<and> k \<le> Suc (next_index len q)) \<and>
     (\<forall>m \<in> set ms. m < len \<and> k \<le> Suc m \<and> m \<le> next_index len k \<and> (\<forall>q \<in> set qs. m \<le> next_index len q))"

text \<open>With pacing nothing is skipped; without overlap nothing is given again.\<close>

definition tight :: "nat \<Rightarrow> nat list \<Rightarrow> bool" where
  "tight k ms \<longleftrightarrow> (\<forall>m \<in> set ms. m \<le> k)"

definition prompt :: "nat \<Rightarrow> nat list \<Rightarrow> nat option list \<Rightarrow> bool" where
  "prompt k qs xs \<longleftrightarrow> length qs + length xs \<le> 1 \<and> (\<forall>q \<in> set qs. q = k) \<and> (\<forall>m. Some m \<in> set xs \<longrightarrow> k \<le> m)"

lemma next_index_mono: "q \<le> q' \<Longrightarrow> len \<le> len' \<Longrightarrow> next_index len q \<le> next_index len' q'"
  by (auto simp: next_index_def)

lemma next_index_ge [simp]: "q \<le> next_index len q"
  by (simp add: next_index_def)

lemma next_index_less [simp]: "q < len \<Longrightarrow> next_index len q < len"
  by (auto simp: next_index_def MAX_EVENTS_def)

lemma pending_init: "pending 0 len [] []"
  by (simp add: pending_def)

lemma pending_send: "pending k len qs ms \<Longrightarrow> pending k len (qs @ [k]) ms"
  using next_index_ge [of k len] by (auto simp: pending_def sorted_append intro: le_SucI)

lemma pending_serve:
  assumes "pending k len (q # qs) ms"
  shows "pending k len qs ms" and "q < len \<Longrightarrow> pending k len qs (ms @ [next_index len q])"
  using assms by (auto simp: pending_def sorted_append intro: next_index_mono)

lemma pending_read:
  assumes "pending k len qs (m # ms)"
  shows "pending (Suc m) len qs ms"
proof -
  have "k \<le> Suc m" using assms by (simp add: pending_def)
  then have "next_index len k \<le> next_index len (Suc m)" by (simp add: next_index_mono)
  with assms show ?thesis by (auto simp: pending_def)
qed

lemma pending_store:
  assumes "pending k len qs ms"
  shows "pending k (Suc len) qs ms"
proof -
  have grow: "m \<le> next_index (Suc len) q" if "m \<le> next_index len q" for m q
    using that next_index_mono [of q q len "Suc len"] by simp
  have "k \<le> Suc (next_index (Suc len) q)" if "k \<le> Suc (next_index len q)" for q
    using that next_index_mono [of q q len "Suc len"] by simp
  with grow show ?thesis using assms by (simp add: pending_def less_SucI)
qed

lemma pending_lose:
  "pending k len (qs @ q # qs') ms \<Longrightarrow> pending k len (qs @ qs') ms"
  "pending k len qs (ms @ m # ms') \<Longrightarrow> pending k len qs (ms @ ms')"
  by (auto simp: pending_def sorted_append)

lemma remdups_adj_snoc:
  "remdups_adj (xs @ [x]) = (if xs \<noteq> [] \<and> last xs = x then remdups_adj xs else remdups_adj xs @ [x])"
  by (induction xs rule: remdups_adj.induct) auto

lemma remdups_adj_map_inj_on:
  "inj_on f (set xs) \<Longrightarrow> remdups_adj (map f xs) = map f (remdups_adj xs)"
  by (induction xs rule: remdups_adj.induct) (auto simp: inj_on_def)

lemma remdups_adj_sorted: "sorted_wrt (<) (xs :: nat list) \<Longrightarrow> remdups_adj xs = xs"
  by (induction xs rule: remdups_adj.induct) auto

section \<open>What the datagrams under way say\<close>

definition asks :: "'pe postcard \<Rightarrow> u32 \<Rightarrow> bytes \<Rightarrow> nat \<Rightarrow> bool" where
  "asks pc a d q \<longleftrightarrow> (\<exists>c. client_send pc c = Some d \<and> done_with a q c)"

definition answers :: "'pe postcard \<Rightarrow> u32 \<Rightarrow> (Event \<times> 't) list \<Rightarrow> bytes \<Rightarrow> nat option \<Rightarrow> bool" where
  "answers pc a log d x \<longleftrightarrow>
     (\<exists>reply. client_read pc d = Some reply \<and>
        event reply = map_option (\<lambda>m. Logged (fst (log ! m)) (a + of_nat m)) x)"

definition events_of :: "nat option list \<Rightarrow> nat list" where
  "events_of xs = List.map_filter id xs"

lemma events_of_simps [simp]:
  "events_of [] = []" "events_of (None # xs) = events_of xs" "events_of (Some m # xs) = m # events_of xs"
  "events_of (xs @ ys) = events_of xs @ events_of ys"
  by (simp_all add: events_of_def map_filter_def)

lemma set_events_of [simp]: "m \<in> set (events_of xs) \<longleftrightarrow> Some m \<in> set xs"
  by (force simp: events_of_def map_filter_def)

text \<open>A request is answered by the event next to its position, or by none at the end of the log.\<close>

lemma asks_answered:
  assumes "postcard_format pc" and "represents ops st a log" and "no_wrap a log"
    and "asks pc a d q" and "q \<le> length log"
  obtains b where "server_datagram pc ops now secs st d = Some b"
    "answers pc a log b (if q < length log then Some (next_index (length log) q) else None)"
proof -
  obtain c where c: "client_send pc c = Some d" "done_with a q c" using assms(4) by (auto simp: asks_def)
  let ?reply = "event_reply (maybe_event ops now st (last_offset c)) secs"
  have "server_datagram pc ops now secs st d = Some (ser_EventReply pc (ser_EventOf pc (ser_Event pc) (ser_NoEE pc)) ?reply)"
    using c(1) by (auto simp: postcard_format.client_send_eq [OF assms(1)] postcard_format.server_datagram_eq [OF assms(1)]
        postcard_format.server_reads_request [OF assms(1)] client_request_def)
  then show ?thesis
    using that maybe_event_next [OF assms(2,3) c(2) assms(5), of now]
    by (auto simp: answers_def postcard_format.client_reads_reply [OF assms(1)] event_reply_def next_index_def Let_def)
qed

section \<open>The invariant\<close>

text \<open>
  What holds between the two sides and the datagrams under way: the client was given the events at the
  positions \<open>idx\<close>, the requests ask at \<open>qs\<close>, the replies answer \<open>xs\<close>. With \<open>paced\<close>, no event was
  skipped.
\<close>

definition link_at ::
    "bool \<Rightarrow> 'pe postcard \<Rightarrow> ('q, 't) Link \<Rightarrow> nat list \<Rightarrow> nat list \<Rightarrow> nat option list \<Rightarrow> bool" where
  "link_at paced pc s idx qs xs \<longleftrightarrow>
     ex_got s = map (log_event (ex_first s) (ex_log s)) idx \<and> sorted idx \<and> (\<forall>i \<in> set idx. i < length (ex_log s)) \<and>
     done_with (ex_first s) (seen_of idx) (ex_client s) \<and> event_count (ex_client s) = of_nat (length idx) \<and>
     list_all2 (asks pc (ex_first s)) (ln_requests s) qs \<and>
     list_all2 (answers pc (ex_first s) (ex_log s)) (ln_socket s) xs \<and>
     pending (seen_of idx) (length (ex_log s)) qs (events_of xs) \<and>
     (paced \<longrightarrow> tight (seen_of idx) (events_of xs) \<and> remdups_adj idx = [0..<seen_of idx]) \<and>
     (\<not> ln_overlap s \<longrightarrow> prompt (seen_of idx) qs xs \<and> sorted_wrt (<) idx)"

lemma link_at_init:
  assumes "link_init pc ops s"
  shows "link_at paced pc s [] [] []"
  using assms by (auto simp: link_init_def link_at_def client_init_def done_with_def seen_of_def pending_init tight_def prompt_def)

lemma link_at_send:
  assumes "postcard_format pc" and "link_at paced pc s idx qs xs"
  shows "link_at paced pc (link_send pc s) idx (qs @ [seen_of idx]) xs"
proof -
  let ?d = "ser_CommandRequest pc (ser_Command pc) (client_request (ex_client s))"
  have send: "client_send pc (ex_client s) = Some ?d" by (rule postcard_format.client_send_eq [OF assms(1)])
  then have "asks pc (ex_first s) ?d (seen_of idx)"
    using assms(2) by (auto simp: asks_def link_at_def)
  then show ?thesis
    using assms(2) send by (auto simp: link_at_def link_send_def pending_send prompt_def intro: list_all2_appendI)
qed

definition answer_at :: "nat \<Rightarrow> nat \<Rightarrow> nat option" where
  "answer_at len q = (if q < len then Some (next_index len q) else None)"

lemma link_at_serve:
  assumes "postcard_format pc" and "represents ops (ex_server s) (ex_first s) (ex_log s)" and "no_wrap (ex_first s) (ex_log s)"
    and at: "link_at paced pc s idx (q # qs) xs" and "paced \<Longrightarrow> length (ex_log s) \<le> seen_of idx + MAX_EVENTS"
  shows "link_at paced pc (link_serve pc ops now secs s) idx qs (xs @ [answer_at (length (ex_log s)) q])"
proof -
  let ?len = "length (ex_log s)"
  obtain d ds where d: "ln_requests s = d # ds" "asks pc (ex_first s) d q" "list_all2 (asks pc (ex_first s)) ds qs"
    using at by (auto simp: link_at_def list_all2_Cons2)
  have pend: "pending (seen_of idx) ?len (q # qs) (events_of xs)" using at by (simp add: link_at_def)
  then have q: "q \<le> seen_of idx" "q \<le> ?len" by (auto simp: pending_def)
  obtain b where b: "server_datagram pc ops now secs (ex_server s) d = Some b"
    "answers pc (ex_first s) (ex_log s) b (answer_at ?len q)"
    using asks_answered [OF assms(1-3) d(2) q(2)] unfolding answer_at_def by blast
  have "next_index ?len q \<le> seen_of idx" if paced
    using assms(5) [OF that] q(1) by (auto simp: next_index_def)
  then show ?thesis
    using at b d pending_serve [OF pend]
    by (auto simp: link_at_def link_serve_def prompt_def tight_def answer_at_def intro!: list_all2_appendI split: if_splits)
qed

lemma link_serve_idle: "link_at paced pc s idx [] xs \<Longrightarrow> link_serve pc ops now secs s = s"
  by (simp add: link_at_def link_serve_def)

lemma seen_of_snoc [simp]: "seen_of (idx @ [m]) = Suc m"
  by (simp add: seen_of_def)

lemma sorted_seen:
  assumes "sorted idx" and "seen_of idx \<le> Suc m"
  shows "sorted (idx @ [m])"
proof (cases idx rule: rev_cases)
  case (snoc ys y)
  then show ?thesis using assms by (auto simp: seen_of_def sorted_append)
qed simp

text \<open>The client is given the next event, or the last one again.\<close>

lemma remdups_adj_seen:
  assumes "remdups_adj idx = [0..<seen_of idx]" and "m \<le> seen_of idx" and "seen_of idx \<le> Suc m"
  shows "remdups_adj (idx @ [m]) = [0..<Suc m]"
proof (cases "m = seen_of idx")
  case True
  then have "idx = [] \<or> last idx \<noteq> m" by (auto simp: seen_of_def)
  then show ?thesis using assms(1) True by (auto simp: remdups_adj_snoc)
next
  case False
  then have "seen_of idx = Suc m" using assms(2,3) by simp
  then have "idx \<noteq> []" "last idx = m" by (auto simp: seen_of_def split: if_splits)
  then show ?thesis using assms(1) \<open>seen_of idx = Suc m\<close> by (simp add: remdups_adj_snoc)
qed

lemma link_at_read:
  assumes at: "link_at paced pc s idx qs (x # xs)"
  shows "link_at paced pc (link_read pc s) (idx @ (case x of Some m \<Rightarrow> [m] | None \<Rightarrow> [])) qs xs"
proof -
  obtain d ds reply where d: "ln_socket s = d # ds" "list_all2 (answers pc (ex_first s) (ex_log s)) ds xs"
    "client_read pc d = Some reply" "event reply = map_option (\<lambda>m. Logged (fst (ex_log s ! m)) (ex_first s + of_nat m)) x"
    using at by (auto simp: link_at_def list_all2_Cons2 answers_def)
  show ?thesis
  proof (cases x)
    case None
    then show ?thesis
      using at d by (auto simp: link_at_def link_read_def client_datagram_def prompt_def tight_def)
  next
    case (Some m)
    have pend: "pending (seen_of idx) (length (ex_log s)) qs (m # events_of xs)"
      using at Some by (simp add: link_at_def)
    then have m: "m < length (ex_log s)" "seen_of idx \<le> Suc m" by (auto simp: pending_def)
    have tight: "tight (Suc m) (events_of xs)" "remdups_adj (idx @ [m]) = [0..<Suc m]" if paced
    proof -
      have "tight (seen_of idx) (m # events_of xs)" "remdups_adj idx = [0..<seen_of idx]"
        using at that Some by (auto simp: link_at_def)
      then show "tight (Suc m) (events_of xs)" "remdups_adj (idx @ [m]) = [0..<Suc m]"
        using m(2) remdups_adj_seen by (auto simp: tight_def)
    qed
    have prompt: "prompt (Suc m) qs xs" "sorted_wrt (<) (idx @ [m])" if "\<not> ln_overlap s"
    proof -
      have "prompt (seen_of idx) qs (Some m # xs)" and idx: "sorted_wrt (<) idx"
        using at that Some by (auto simp: link_at_def)
      then have "seen_of idx \<le> m" "qs = []" "xs = []" by (auto simp: prompt_def)
      then show "prompt (Suc m) qs xs" "sorted_wrt (<) (idx @ [m])"
        using idx by (auto simp: prompt_def intro!: sorted_snoc simp: seen_of_def)
    qed
    show ?thesis
      using at d Some m pending_read [OF pend] tight prompt sorted_seen [of idx m]
      by (auto simp: link_at_def link_read_def client_datagram_def log_event_def done_with_def)
  qed
qed

lemma link_read_idle: "link_at paced pc s idx qs [] \<Longrightarrow> link_read pc s = s"
  by (simp add: link_at_def link_read_def)

lemma answers_store:
  "answers pc a log d x \<Longrightarrow> pred_option (\<lambda>m. m < length log) x \<Longrightarrow> answers pc a (log @ [y]) d x"
  by (cases x) (auto simp: answers_def nth_append)

lemma link_at_store:
  assumes "link_at paced pc s idx qs xs" and "0 < roll"
  shows "link_at paced pc (link_store ops roll r t s) idx qs xs"
proof -
  have "\<forall>x \<in> set xs. pred_option (\<lambda>m. m < length (ex_log s)) x"
    using assms(1) by (auto simp: link_at_def pending_def pred_option_def)
  moreover have "list_all2 (answers pc (ex_first s) (ex_log s)) (ln_socket s) xs" using assms(1) by (simp add: link_at_def)
  ultimately have "list_all2 (answers pc (ex_first s) (ex_log s @ [(SomeEvent, t)])) (ln_socket s) xs"
    by (elim list.rel_mono_strong) (simp add: answers_store)
  then show ?thesis
    using assms pending_store
    by (auto simp: link_at_def link_store_def log_event_def nth_append)
qed

lemma link_at_lose:
  assumes "link_at paced pc s idx qs xs"
  shows "ln_requests s = ds @ d # es \<Longrightarrow> \<exists>qs'. link_at paced pc (s\<lparr>ln_requests := ds @ es\<rparr>) idx qs' xs"
    and "ln_socket s = ds @ d # es \<Longrightarrow> \<exists>xs'. link_at paced pc (s\<lparr>ln_socket := ds @ es\<rparr>) idx qs xs'"
proof -
  assume "ln_requests s = ds @ d # es"
  then obtain qs1 q qs2 where qs: "qs = qs1 @ q # qs2" "list_all2 (asks pc (ex_first s)) ds qs1"
    "list_all2 (asks pc (ex_first s)) es qs2"
    using assms by (auto simp: link_at_def list_all2_append1 list_all2_Cons1)
  moreover have "pending (seen_of idx) (length (ex_log s)) (qs1 @ qs2) (events_of xs)"
    using assms qs(1) pending_lose(1) by (auto simp: link_at_def)
  ultimately have "link_at paced pc (s\<lparr>ln_requests := ds @ es\<rparr>) idx (qs1 @ qs2) xs"
    using assms by (auto simp: link_at_def prompt_def intro: list_all2_appendI)
  then show "\<exists>qs'. link_at paced pc (s\<lparr>ln_requests := ds @ es\<rparr>) idx qs' xs" by blast
next
  assume "ln_socket s = ds @ d # es"
  then obtain xs1 x xs2 where xs: "xs = xs1 @ x # xs2" "list_all2 (answers pc (ex_first s) (ex_log s)) ds xs1"
    "list_all2 (answers pc (ex_first s) (ex_log s)) es xs2"
    using assms by (auto simp: link_at_def list_all2_append1 list_all2_Cons1)
  have "pending (seen_of idx) (length (ex_log s)) qs (events_of (xs1 @ xs2))"
    using assms xs(1) pending_lose(2) by (cases x) (auto simp: link_at_def)
  then have "link_at paced pc (s\<lparr>ln_socket := ds @ es\<rparr>) idx qs (xs1 @ xs2)"
    using assms xs by (auto simp: link_at_def prompt_def tight_def intro: list_all2_appendI)
  then show "\<exists>xs'. link_at paced pc (s\<lparr>ln_socket := ds @ es\<rparr>) idx qs xs'" by blast
qed

text \<open>Before the first reset and before a wrap-around the two sides stay linked, with or without pacing.\<close>

definition linked :: "bool \<Rightarrow> 'pe postcard \<Rightarrow> ('q, 't entry) queue_ops \<Rightarrow> ('q, 't) Link \<Rightarrow> bool" where
  "linked paced pc ops s \<longleftrightarrow> postcard_format pc \<and> circular_queue ops \<and>
     represents ops (ex_server s) (ex_first s) (ex_log s) \<and>
     (ln_resets s = 0 \<and> no_wrap (ex_first s) (ex_log s) \<longrightarrow>
        (\<exists>idx qs xs. link_at paced pc s idx qs xs) \<and>
        (paced \<longrightarrow> length (ex_log s) \<le> length (remdups_adj (ex_got s)) + MAX_EVENTS))"

lemma log_event_inj:
  assumes "no_wrap a log"
  shows "inj_on (log_event a log) {..<length log}"
proof (rule inj_onI)
  fix i j assume ij: "i \<in> {..<length log}" "j \<in> {..<length log}" "log_event a log i = log_event a log j"
  have at: "unat (a + of_nat i) = unat a + i" if "i < length log" for i
    using that assms by (intro unat_plus_u32) (simp add: no_wrap_def)
  have "unat a + i = unat (a + of_nat i)" using at [of i] ij(1) by simp
  also have "\<dots> = unat (a + of_nat j)" using ij(3) by (simp only: log_event_def prod.inject)
  also have "\<dots> = unat a + j" using at [of j] ij(2) by simp
  finally show "i = j" by simp
qed

lemma remdups_adj_got:
  assumes "link_at paced pc s idx qs xs" and "no_wrap (ex_first s) (ex_log s)"
  shows "remdups_adj (ex_got s) = map (log_event (ex_first s) (ex_log s)) (remdups_adj idx)"
proof -
  have "set idx \<subseteq> {..<length (ex_log s)}" and got: "ex_got s = map (log_event (ex_first s) (ex_log s)) idx"
    using assms(1) by (auto simp: link_at_def)
  then have "inj_on (log_event (ex_first s) (ex_log s)) (set idx)"
    using inj_on_subset [OF log_event_inj [OF assms(2)]] by blast
  then show ?thesis by (simp add: got remdups_adj_map_inj_on)
qed

lemma link_keeps [simp]:
  "ex_server (link_send pc s) = ex_server s" "ex_first (link_send pc s) = ex_first s" "ex_log (link_send pc s) = ex_log s"
  "ex_server (link_serve pc ops now secs s) = ex_server s" "ex_first (link_serve pc ops now secs s) = ex_first s"
  "ex_log (link_serve pc ops now secs s) = ex_log s"
  "ex_server (link_read pc s) = ex_server s" "ex_first (link_read pc s) = ex_first s" "ex_log (link_read pc s) = ex_log s"
  "ln_resets (link_send pc s) = ln_resets s" "ln_resets (link_serve pc ops now secs s) = ln_resets s"
  "ln_resets (link_read pc s) = ln_resets s"
  by (simp_all add: link_send_def link_serve_def link_read_def split: option.split list.split)

lemma represents_link_store:
  "circular_queue ops \<Longrightarrow> represents ops (ex_server s) (ex_first s) (ex_log s) \<Longrightarrow>
    represents ops (ex_server (link_store ops roll r t s)) (ex_first (link_store ops roll r t s)) (ex_log (link_store ops roll r t s))"
  using represents_event [of ops "ex_server s" "ex_first s" "ex_log s" roll r t] by (simp add: link_store_def)

text \<open>The part of the invariant that a step has to reestablish.\<close>

lemma link_at_step:
  assumes "linked paced pc ops s" and "link_step pc ops s s'"
    and "ln_resets s' = 0" and "no_wrap (ex_first s') (ex_log s')"
  shows "\<exists>idx qs xs. link_at paced pc s' idx qs xs"
proof -
  have laws: "postcard_format pc" "represents ops (ex_server s) (ex_first s) (ex_log s)"
    using assms(1) by (auto simp: linked_def)
  have "ln_resets s = 0 \<and> no_wrap (ex_first s) (ex_log s)"
    using assms(2-4) by cases (auto simp: link_store_def no_wrap_def split: if_splits)
  then obtain idx qs xs where at: "link_at paced pc s idx qs xs" and nw: "no_wrap (ex_first s) (ex_log s)"
    and pace: "paced \<Longrightarrow> length (ex_log s) \<le> length (remdups_adj (ex_got s)) + MAX_EVENTS"
    using assms(1) by (auto simp: linked_def)
  then have bound: "length (ex_log s) \<le> seen_of idx + MAX_EVENTS" if paced
    using that remdups_adj_got [OF at nw] by (simp add: link_at_def)
  from assms(2) show ?thesis
  proof cases
    case link_step_send
    then show ?thesis using link_at_send [OF laws(1) at] by blast
  next
    case (link_step_serve now secs)
    show ?thesis
    proof (cases qs)
      case Nil
      then show ?thesis using at link_serve_idle [of paced pc s idx xs] by (auto simp: link_step_serve)
    next
      case (Cons q qs')
      then show ?thesis
        using link_at_serve [OF laws nw at [unfolded Cons] bound, of now secs] by (auto simp: link_step_serve)
    qed
  next
    case link_step_read
    show ?thesis
    proof (cases xs)
      case Nil
      then show ?thesis using at link_read_idle [of paced pc s idx qs] by (auto simp: link_step_read)
    next
      case (Cons x xs')
      then show ?thesis using at link_at_read [of paced pc s idx qs x xs'] by (auto simp: link_step_read)
    qed
  next
    case (link_step_store roll r t)
    moreover from this have "0 < roll" using assms(3) by (cases "roll = 0") (simp_all add: link_store_def)
    ultimately show ?thesis using link_at_store [OF at] by blast
  qed (use link_at_lose [OF at] in blast)+
qed

lemma linked_step:
  assumes "linked paced pc ops s" and "link_step pc ops s s'"
    and "paced \<Longrightarrow> length (ex_log s') \<le> length (remdups_adj (ex_got s')) + MAX_EVENTS"
  shows "linked paced pc ops s'"
proof -
  have "represents ops (ex_server s') (ex_first s') (ex_log s')"
    using assms(2,1) by cases (auto simp: linked_def represents_link_store)
  then show ?thesis
    using assms(1,3) link_at_step [OF assms(1,2)] unfolding linked_def by blast
qed

lemma linked_init: "link_init pc ops s \<Longrightarrow> linked paced pc ops s"
  using link_at_init [of pc ops s paced] by (auto simp: linked_def link_init_def represents_init)

interpretation linking: inductive_invariant "link_init pc ops" "link_step pc ops" "linked False pc ops"
  for pc :: "'pe postcard" and ops :: "('q, 't entry) queue_ops"
  by unfold_locales (auto intro: linked_init linked_step)

interpretation link_pacing: inductive_invariant "link_init pc ops" "paced_link pc ops" "linked True pc ops"
  for pc :: "'pe postcard" and ops :: "('q, 't entry) queue_ops"
  by unfold_locales (auto simp: paced_link_def intro: linked_init linked_step)

section \<open>Turns of the client\<close>

text \<open>
  A turn of the client's loop in which no datagram is lost or later than the timeout: it sends a
  request, the server serves the oldest one under way, and the client reads the oldest reply in its
  socket. On an idle link that is the poll of \<open>App_Exchange\<close>.
\<close>

definition link_poll ::
    "'pe postcard \<Rightarrow> ('q, 't entry) queue_ops \<Rightarrow> 't \<Rightarrow> ('t \<Rightarrow> u64) \<Rightarrow> ('q, 't) Link \<Rightarrow> ('q, 't) Link" where
  "link_poll pc ops now secs s = link_read pc (link_serve pc ops now secs (link_send pc s))"

lemma link_poll_idle:
  assumes "postcard_format pc" and "ln_requests s = []" and "ln_socket s = []"
  shows "Exchange.truncate (link_poll pc ops now secs s) = exchange_poll pc ops now secs (Exchange.truncate s)"
  using assms
  by (simp add: link_poll_def link_send_def link_serve_def link_read_def exchange_poll_def Exchange.truncate_def
        postcard_format.poll_reply_eq postcard_format.client_send_eq postcard_format.server_datagram_eq
        postcard_format.server_reads_request postcard_format.client_reads_reply client_datagram_def client_request_def)

lemma link_poll_keeps [simp]:
  "ex_server (link_poll pc ops now secs s) = ex_server s" "ex_first (link_poll pc ops now secs s) = ex_first s"
  "ex_log (link_poll pc ops now secs s) = ex_log s"
  by (simp_all add: link_poll_def)

text \<open>The turn on positions: a new answer behind those in the socket, and the oldest of them read.\<close>

definition poll_positions :: "nat \<Rightarrow> nat list \<times> nat option list \<Rightarrow> nat list \<times> nat option list" where
  "poll_positions len = (\<lambda>(idx, xs).
     let ys = xs @ [answer_at len (seen_of idx)]
     in (idx @ (case hd ys of Some m \<Rightarrow> [m] | None \<Rightarrow> []), tl ys))"

lemma link_at_poll:
  assumes "postcard_format pc" and "represents ops (ex_server s) (ex_first s) (ex_log s)" and "no_wrap (ex_first s) (ex_log s)"
    and at: "link_at paced pc s idx [] xs" and "paced \<Longrightarrow> length (ex_log s) \<le> seen_of idx + MAX_EVENTS"
  shows "case poll_positions (length (ex_log s)) (idx, xs) of (idx', xs') \<Rightarrow>
    link_at paced pc (link_poll pc ops now secs s) idx' [] xs'"
proof -
  let ?len = "length (ex_log s)" and ?ys = "xs @ [answer_at (length (ex_log s)) (seen_of idx)]"
  have "link_at paced pc (link_send pc s) idx [seen_of idx] xs" using link_at_send [OF assms(1) at] by simp
  then have "link_at paced pc (link_serve pc ops now secs (link_send pc s)) idx [] ?ys"
    using link_at_serve [of pc ops "link_send pc s" paced idx "seen_of idx" "[]" xs now secs] assms by simp
  moreover have "?ys = hd ?ys # tl ?ys" by simp
  ultimately have "link_at paced pc (link_serve pc ops now secs (link_send pc s)) idx [] (hd ?ys # tl ?ys)" by metis
  from link_at_read [OF this] show ?thesis by (simp add: poll_positions_def link_poll_def Let_def)
qed

text \<open>The answer that is behind \<open>us\<close> in the socket is read after as many turns.\<close>

lemma poll_positions_reads:
  "\<exists>pre post. (poll_positions len ^^ Suc (length us)) (idx, us @ x # vs) =
     (idx @ pre @ (case x of Some m \<Rightarrow> [m] | None \<Rightarrow> []), post)"
proof (induction us arbitrary: idx vs)
  case Nil
  then show ?case by (auto simp: poll_positions_def Let_def)
next
  case (Cons u us)
  let ?idx = "idx @ (case u of Some m \<Rightarrow> [m] | None \<Rightarrow> [])"
  have "poll_positions len (idx, (u # us) @ x # vs) = (?idx, us @ x # (vs @ [answer_at len (seen_of idx)]))"
    by (simp add: poll_positions_def Let_def)
  then show ?case
    using Cons.IH [of ?idx "vs @ [answer_at len (seen_of idx)]"]
    by (fastforce simp: funpow_Suc_right simp del: funpow.simps)
qed

lemma poll_positions_progress:
  "\<exists>pre post. (poll_positions len ^^ Suc (length xs)) (idx, xs) =
     (idx @ pre @ (case answer_at len (seen_of idx) of Some m \<Rightarrow> [m] | None \<Rightarrow> []), post)"
proof (cases xs)
  case Nil
  then show ?thesis by (simp add: poll_positions_def)
next
  case (Cons u us)
  let ?idx = "idx @ (case u of Some m \<Rightarrow> [m] | None \<Rightarrow> [])"
  have "poll_positions len (idx, xs) = (?idx, us @ answer_at len (seen_of idx) # [])"
    by (simp add: Cons poll_positions_def Let_def)
  then show ?thesis
    using poll_positions_reads [where us = us and len = len and idx = ?idx and x = "answer_at len (seen_of idx)" and vs = "[]"]
    by (fastforce simp: Cons funpow_Suc_right simp del: funpow.simps)
qed

lemma poll_positions_length: "length (snd ((poll_positions len ^^ n) (idx, xs))) = length xs"
proof (induction n)
  case (Suc n)
  then show ?case
    by (cases "(poll_positions len ^^ n) (idx, xs)") (simp add: poll_positions_def Let_def)
qed simp

lemma seen_mono: "sorted (idx @ js) \<Longrightarrow> seen_of idx \<le> seen_of (idx @ js)"
  by (cases js rule: rev_cases; cases idx rule: rev_cases) (auto simp: seen_of_def sorted_append)

lemma link_at_polls:
  assumes "postcard_format pc" and "represents ops (ex_server s) (ex_first s) (ex_log s)" and "no_wrap (ex_first s) (ex_log s)"
    and "link_at paced pc s idx [] xs" and "paced \<Longrightarrow> length (ex_log s) \<le> seen_of idx + MAX_EVENTS"
  shows "case (poll_positions (length (ex_log s)) ^^ n) (idx, xs) of (idx', xs') \<Rightarrow>
    link_at paced pc ((link_poll pc ops now secs ^^ n) s) idx' [] xs' \<and> seen_of idx \<le> seen_of idx' \<and>
    ex_server ((link_poll pc ops now secs ^^ n) s) = ex_server s \<and> ex_first ((link_poll pc ops now secs ^^ n) s) = ex_first s \<and>
    ex_log ((link_poll pc ops now secs ^^ n) s) = ex_log s"
proof (induction n)
  case 0
  then show ?case using assms(4) by simp
next
  case (Suc n)
  let ?s = "(link_poll pc ops now secs ^^ n) s"
  obtain idx1 xs1 idx2 xs2 where pos: "(poll_positions (length (ex_log s)) ^^ n) (idx, xs) = (idx1, xs1)"
    "poll_positions (length (ex_log s)) (idx1, xs1) = (idx2, xs2)" by (meson surj_pair)
  then have IH: "link_at paced pc ?s idx1 [] xs1" "seen_of idx \<le> seen_of idx1"
    "ex_server ?s = ex_server s" "ex_first ?s = ex_first s" "ex_log ?s = ex_log s"
    using Suc.IH by auto
  have "paced \<Longrightarrow> length (ex_log ?s) \<le> seen_of idx1 + MAX_EVENTS" using assms(5) IH(2,5) by auto
  then have at: "link_at paced pc (link_poll pc ops now secs ?s) idx2 [] xs2"
    using link_at_poll [OF assms(1) _ _ IH(1), of ops now secs] assms(2,3) IH(3-5) pos(2) by simp
  moreover obtain js where js: "idx2 = idx1 @ js" using pos(2) by (auto simp: poll_positions_def Let_def)
  moreover have "seen_of idx1 \<le> seen_of idx2" using at by (auto simp: link_at_def js intro: seen_mono)
  ultimately show ?case using IH pos by simp
qed

lemma polls_seen:
  assumes "postcard_format pc" and "represents ops (ex_server s) (ex_first s) (ex_log s)" and "no_wrap (ex_first s) (ex_log s)"
    and "link_at paced pc s idx [] xs" and "paced \<Longrightarrow> length (ex_log s) \<le> seen_of idx + MAX_EVENTS"
  shows "min (seen_of idx + j) (length (ex_log s)) \<le>
    seen_of (fst ((poll_positions (length (ex_log s)) ^^ (j * Suc (length xs))) (idx, xs)))"
proof (induction j)
  case (Suc j)
  let ?len = "length (ex_log s)" and ?n = "j * Suc (length xs)"
  obtain idx1 xs1 where pos: "(poll_positions ?len ^^ ?n) (idx, xs) = (idx1, xs1)" by (meson surj_pair)
  have xs1: "length xs1 = length xs" using poll_positions_length [of ?n ?len idx xs] pos by simp
  obtain pre post where step: "(poll_positions ?len ^^ Suc (length xs1)) (idx1, xs1) =
      (idx1 @ pre @ (case answer_at ?len (seen_of idx1) of Some m \<Rightarrow> [m] | None \<Rightarrow> []), post)" (is "_ = (?idx2, _)")
    using poll_positions_progress by blast
  have total: "(poll_positions ?len ^^ (Suc j * Suc (length xs))) (idx, xs) = (?idx2, post)"
    using step pos by (simp only: mult_Suc funpow_add comp_apply xs1)
  note at = link_at_polls [OF assms, where ?n = "Suc j * Suc (length xs)" and now = undefined and secs = undefined, unfolded total, simplified]
  have "sorted ?idx2" using at by (simp add: link_at_def)
  then have "seen_of idx1 \<le> seen_of ?idx2" by (rule seen_mono)
  moreover have "Suc (seen_of idx1) \<le> seen_of ?idx2" if "seen_of idx1 < ?len"
    using that next_index_ge [of "seen_of idx1" ?len] by (simp add: answer_at_def flip: append_assoc)
  ultimately show ?case using Suc pos unfolding total by (cases "seen_of idx1 < ?len") auto
qed simp

lemma polls_complete:
  assumes "postcard_format pc" and "represents ops (ex_server s) (ex_first s) (ex_log s)" and "no_wrap (ex_first s) (ex_log s)"
    and "link_at paced pc s idx [] xs" and "paced \<Longrightarrow> length (ex_log s) \<le> seen_of idx + MAX_EVENTS"
    and "(length (ex_log s) - seen_of idx) * Suc (length xs) \<le> n"
  shows "seen_of (fst ((poll_positions (length (ex_log s)) ^^ n) (idx, xs))) = length (ex_log s)"
proof -
  let ?len = "length (ex_log s)" and ?polls = "\<lambda>n. (link_poll pc ops undefined undefined ^^ n) s"
  let ?m = "(?len - seen_of idx) * Suc (length xs)"
  obtain r where n: "n = r + ?m" using assms(6) by (metis le_add_diff_inverse2)
  obtain idx1 xs1 where pos1: "(poll_positions ?len ^^ ?m) (idx, xs) = (idx1, xs1)" by (meson surj_pair)
  obtain idx2 xs2 where pos2: "(poll_positions ?len ^^ r) (idx1, xs1) = (idx2, xs2)" by (meson surj_pair)
  have pos: "(poll_positions ?len ^^ n) (idx, xs) = (idx2, xs2)"
    using pos1 pos2 by (simp only: n funpow_add comp_apply)
  note at1 = link_at_polls [OF assms(1-5), where ?n = ?m and now = undefined and secs = undefined, unfolded pos1, simplified]
  note at2 = link_at_polls [OF assms(1-5), where ?n = n and now = undefined and secs = undefined, unfolded pos, simplified]
  have bound: "length (ex_log (?polls ?m)) \<le> seen_of idx1 + MAX_EVENTS" if paced
    using assms(5) [OF that] at1 by simp
  have "seen_of idx1 \<le> seen_of idx2"
    using link_at_polls [of pc ops "?polls ?m" paced idx1 xs1 r] at1 assms(1-3) bound pos2 by simp
  moreover have "?len \<le> seen_of idx1" using polls_seen [OF assms(1-5), of "?len - seen_of idx"] pos1 by simp
  moreover have "seen_of idx2 \<le> ?len" using at2 by (auto simp: link_at_def pending_def)
  ultimately show ?thesis by (simp add: pos)
qed

text \<open>On an idle link no turn overlaps with another.\<close>

lemma link_poll_overlap:
  "postcard_format pc \<Longrightarrow> ln_overlap (link_poll pc ops now secs s) =
    (ln_overlap s \<or> ln_requests s \<noteq> [] \<or> ln_socket s \<noteq> [])"
  by (auto simp: link_poll_def link_send_def link_serve_def link_read_def postcard_format.client_send_eq split: list.splits)

lemma polls_overlap:
  assumes "postcard_format pc" and "represents ops (ex_server s) (ex_first s) (ex_log s)" and "no_wrap (ex_first s) (ex_log s)"
    and "link_at paced pc s idx [] []" and "paced \<Longrightarrow> length (ex_log s) \<le> seen_of idx + MAX_EVENTS"
  shows "ln_overlap ((link_poll pc ops now secs ^^ n) s) = ln_overlap s"
proof (induction n)
  case (Suc n)
  let ?s = "(link_poll pc ops now secs ^^ n) s"
  obtain idx1 xs1 where pos: "(poll_positions (length (ex_log s)) ^^ n) (idx, []) = (idx1, xs1)" by (meson surj_pair)
  have "xs1 = []" using poll_positions_length [of n "length (ex_log s)" idx "[]"] pos by simp
  then have "ln_requests ?s = []" "ln_socket ?s = []"
    using link_at_polls [OF assms, of n now secs] pos by (simp_all add: link_at_def)
  with Suc show ?case by (simp add: link_poll_overlap [OF assms(1)])
qed simp

section \<open>Properties\<close>

text \<open>
  A server that starts at offset 3 and stores two events; the client polls it, times out on its next
  request, and reads the late reply.
\<close>

definition example_link :: "(nat entry list \<times> nat, nat) Link" where
  "example_link = link_store list_queue 1 0 20 (link_store list_queue 1 0 10
     \<lparr>ex_server = server_init list_queue 3, ex_client = client_init, ex_first = of_nat 3, ex_log = [], ex_got = [],
      ln_requests = [], ln_socket = [], ln_resets = 0, ln_overlap = False\<rparr>)"

lemma example_link_simps [simp]:
  "ex_server example_link = example_server" "ex_client example_link = client_init" "ex_first example_link = 3"
  "ex_log example_link = [(SomeEvent, 10), (SomeEvent, 20)]" "ex_got example_link = []" "ln_requests example_link = []"
  "ln_socket example_link = []" "ln_resets example_link = 0" "\<not> ln_overlap example_link"
  by (simp_all add: example_link_def link_store_def example_server_def)

lemma example_link_paced:
  "reachable (link_init postcard_v1 list_queue) (paced_link postcard_v1 list_queue) example_link"
proof -
  let ?s = "\<lparr>ex_server = server_init list_queue 3, ex_client = client_init, ex_first = of_nat 3, ex_log = [], ex_got = [],
      ln_requests = [], ln_socket = [], ln_resets = 0, ln_overlap = False\<rparr> :: (nat entry list \<times> nat, nat) Link"
  have "link_init postcard_v1 list_queue ?s"
    using v1.postcard_format_axioms circular_list_queue by (auto simp: link_init_def MAX_EVENTS_def intro!: exI [of _ 3])
  then have "reachable (link_init postcard_v1 list_queue) (paced_link postcard_v1 list_queue) ?s" by (rule reachable_init)
  moreover have "paced_link postcard_v1 list_queue ?s (link_store list_queue 1 0 10 ?s)"
    "paced_link postcard_v1 list_queue (link_store list_queue 1 0 10 ?s) example_link"
    unfolding example_link_def
    by (auto simp: paced_link_def MAX_EVENTS_def intro: link_step_store) (simp_all add: link_store_def)
  ultimately show ?thesis by (blast intro: reachable_step)
qed

definition example_read :: "(nat entry list \<times> nat, nat) Link" where
  "example_read = link_poll postcard_v1 list_queue 99 (\<lambda>t. of_nat (99 - t)) example_link"

lemma example_read_simps [simp]:
  "ex_first example_read = 3" "ex_log example_read = [(SomeEvent, 10), (SomeEvent, 20)]"
  "ex_got example_read = [(SomeEvent, 3)]" "ln_resets example_read = 0" "\<not> ln_overlap example_read"
proof -
  have "Exchange.truncate example_link = example_stored"
    by (simp add: Exchange.truncate_def example_stored_def example_start_def exchange_store_def example_server_def)
  then have "Exchange.truncate example_read = example_polled"
    using link_poll_idle [OF v1.postcard_format_axioms, of example_link list_queue 99 "\<lambda>t. of_nat (99 - t)"]
    by (simp add: example_read_def example_polled_def)
  then have "ex_got example_read = ex_got example_polled" by (metis Exchange.select_convs(5) Exchange.truncate_def)
  then show "ex_got example_read = [(SomeEvent, 3)]" by simp
qed (simp_all add: example_read_def link_poll_def link_send_def link_serve_def link_read_def split: option.split list.split)

lemma example_read_paced:
  "reachable (link_init postcard_v1 list_queue) (paced_link postcard_v1 list_queue) example_read"
proof -
  let ?s1 = "link_send postcard_v1 example_link"
  let ?s2 = "link_serve postcard_v1 list_queue 99 (\<lambda>t. of_nat (99 - t)) ?s1"
  have "paced_link postcard_v1 list_queue example_link ?s1" "paced_link postcard_v1 list_queue ?s1 ?s2"
    "paced_link postcard_v1 list_queue ?s2 example_read"
    unfolding example_read_def link_poll_def
    by (auto simp: paced_link_def MAX_EVENTS_def intro: link_step.intros)
  then show ?thesis using example_link_paced by (blast intro: reachable_step)
qed

lemma example_read_reachable:
  "reachable (link_init postcard_v1 list_queue) (link_step postcard_v1 list_queue) example_read"
  using example_read_paced by (rule reachable_mono) (simp add: paced_link_def)

text \<open>
  C1. Exactly-once delivery. The client and the server are on a link that keeps the order of the
  datagrams and may lose or delay any of them, so that replies are also read after the client's
  timeout. In every reachable configuration in which the server has not been reset so far, offsets
  have not wrapped around and the server never got more than MAX_EVENTS events ahead of the
  client, the events the client was given are, but for immediate repetitions of the last one,
  exactly the first events the server stored, in order and under their offsets; and each of them
  exactly once if the client never sent a request while an earlier one or a reply to it was still
  under way.
\<close>

theorem events_exactly_once:
  assumes "reachable (link_init pc ops) (paced_link pc ops) s" and "ln_resets s = 0"
    and "no_wrap (ex_first s) (ex_log s)"
  shows "\<exists>k \<le> length (ex_log s). remdups_adj (ex_got s) = map (log_event (ex_first s) (ex_log s)) [0..<k] \<and>
    (\<not> ln_overlap s \<longrightarrow> ex_got s = map (log_event (ex_first s) (ex_log s)) [0..<k])"
proof -
  obtain idx qs xs where at: "link_at True pc s idx qs xs"
    using link_pacing.invariant [OF assms(1)] assms(2,3) by (auto simp: linked_def)
  have "seen_of idx \<le> length (ex_log s)" "remdups_adj idx = [0..<seen_of idx]"
    using at by (auto simp: link_at_def pending_def)
  moreover have "remdups_adj idx = idx" if "\<not> ln_overlap s"
    using at that by (intro remdups_adj_sorted) (simp add: link_at_def)
  moreover have "ex_got s = map (log_event (ex_first s) (ex_log s)) idx" using at by (simp add: link_at_def)
  ultimately show ?thesis
    using remdups_adj_got [OF at assms(3)] by (intro exI [of _ "seen_of idx"]) simp
qed

theorem events_exactly_once_witness:
  "\<exists>k \<le> 2. ex_got example_read = map (log_event 3 [(SomeEvent, 10 :: nat), (SomeEvent, 20)]) [0..<k] \<and> k = 1"
proof -
  obtain k where "k \<le> length (ex_log example_read)"
    "ex_got example_read = map (log_event (ex_first example_read) (ex_log example_read)) [0..<k]"
    using events_exactly_once [OF example_read_paced] by (auto simp: no_wrap_def)
  moreover from arg_cong [OF this(2), of length] have "k = 1" by simp
  ultimately show ?thesis by (intro exI [of _ k]) simp
qed

text \<open>
  C10. Without any pacing, on the same link with losses and late replies, as long as the server
  has not been reset and offsets have not wrapped around: the client is only ever given events the
  server stored, the offsets it is given never decrease, and its event count is the number of
  events it was given (modulo 2^32). If the client never sent a request while an earlier one or a
  reply to it was under way, the offsets strictly increase, so it is given no event twice.
\<close>

theorem events_in_order:
  assumes "reachable (link_init pc ops) (link_step pc ops) s" and "ln_resets s = 0"
    and "no_wrap (ex_first s) (ex_log s)"
  shows "set (ex_got s) \<subseteq> set (map (log_event (ex_first s) (ex_log s)) [0..<length (ex_log s)]) \<and>
    sorted (map snd (ex_got s)) \<and> (\<not> ln_overlap s \<longrightarrow> sorted_wrt (<) (map snd (ex_got s))) \<and>
    event_count (ex_client s) = of_nat (length (ex_got s))"
proof -
  obtain idx qs xs where at: "link_at False pc s idx qs xs"
    using linking.invariant [OF assms(1)] assms(2,3) by (auto simp: linked_def)
  then have idx: "ex_got s = map (log_event (ex_first s) (ex_log s)) idx" "\<forall>i \<in> set idx. i < length (ex_log s)"
    by (auto simp: link_at_def)
  have less: "ex_first s + of_nat i < ex_first s + of_nat j" if "i < j" "j < length (ex_log s)" for i j
    using that assms(3) unat_plus_u32 [of "ex_first s" i] unat_plus_u32 [of "ex_first s" j]
    by (simp add: word_less_nat_alt no_wrap_def)
  have "ex_first s + of_nat i \<le> ex_first s + of_nat j" if "i \<le> j" "j < length (ex_log s)" for i j
    using that less [of i j] by (cases "i = j") auto
  then have "sorted (map snd (ex_got s))"
    using at idx(2) by (auto simp: idx(1) link_at_def log_event_def sorted_map intro: sorted_wrt_mono_rel [of idx "(\<le>)"])
  moreover have "sorted_wrt (<) (map snd (ex_got s))" if "\<not> ln_overlap s"
    using at idx(2) that less by (auto simp: idx(1) link_at_def log_event_def sorted_wrt_map intro: sorted_wrt_mono_rel [of idx "(<)"])
  ultimately show ?thesis using at idx by (auto simp: link_at_def)
qed

theorem events_in_order_witness:
  "set (ex_got example_read) \<subseteq> set (map (log_event 3 (ex_log example_read)) [0..<length (ex_log example_read)]) \<and>
    sorted_wrt (<) (map snd (ex_got example_read)) \<and> event_count (ex_client example_read) = 1"
  using events_in_order [OF example_read_reachable] by (simp add: no_wrap_def)

text \<open>
  C6. Completeness of polling on the same link: from every reachable configuration without a reset
  so far, without a wrap-around, with the server never more than MAX_EVENTS events ahead and with
  no request under way, turns of the client's loop in which request and reply get through give it
  all the rest. After one turn per missing event for each reply that waits in its socket and one
  more, it has every event of the log, in order and with at most immediate repetitions; and each
  once when no late reply was waiting and no request ever overlapped with an earlier one.
\<close>

theorem polls_deliver_all:
  fixes now :: 't and secs :: "'t \<Rightarrow> u64"
  assumes "reachable (link_init pc ops) (paced_link pc ops) s" and "ln_resets s = 0"
    and "no_wrap (ex_first s) (ex_log s)" and "ln_requests s = []"
    and "(length (ex_log s) - length (remdups_adj (ex_got s))) * Suc (length (ln_socket s)) \<le> n"
  defines "all \<equiv> map (log_event (ex_first s) (ex_log s)) [0..<length (ex_log s)]"
    and "s' \<equiv> (link_poll pc ops now secs ^^ n) s"
  shows "remdups_adj (ex_got s') = all \<and> (ln_socket s = [] \<and> \<not> ln_overlap s \<longrightarrow> ex_got s' = all)"
proof -
  have inv: "linked True pc ops s" by (rule link_pacing.invariant [OF assms(1)])
  then obtain idx qs xs where "link_at True pc s idx qs xs" using assms(2,3) by (auto simp: linked_def)
  moreover from this have "qs = []" using assms(4) by (simp add: link_at_def)
  ultimately have at: "link_at True pc s idx [] xs" by simp
  have laws: "postcard_format pc" "represents ops (ex_server s) (ex_first s) (ex_log s)" using inv by (auto simp: linked_def)
  have got: "length (remdups_adj (ex_got s)) = seen_of idx" and len: "length (ln_socket s) = length xs"
    using remdups_adj_got [OF at assms(3)] at by (auto simp: link_at_def dest: list_all2_lengthD)
  have pace: "length (ex_log s) \<le> seen_of idx + MAX_EVENTS"
    using inv assms(2,3) got by (simp add: linked_def)
  note link = laws assms(3) at pace
  obtain idx' xs' where pos: "(poll_positions (length (ex_log s)) ^^ n) (idx, xs) = (idx', xs')" by (meson surj_pair)
  have at': "link_at True pc s' idx' [] xs'" "ex_first s' = ex_first s" "ex_log s' = ex_log s"
    using link_at_polls [OF link, of n now secs] pos by (auto simp: s'_def)
  then have "remdups_adj idx' = [0..<length (ex_log s)]"
    using polls_complete [OF link, of n] assms(5) pos by (simp add: got len link_at_def)
  then have all: "remdups_adj (ex_got s') = all"
    using remdups_adj_got [OF at'(1)] at'(2,3) assms(3) by (simp add: all_def)
  have "remdups_adj (ex_got s') = ex_got s'" if "ln_socket s = []" "\<not> ln_overlap s"
  proof -
    have "\<not> ln_overlap s'" using polls_overlap [of pc ops s True idx n now secs] link that len by (simp add: s'_def)
    then have "remdups_adj idx' = idx'" using at'(1) by (intro remdups_adj_sorted) (simp add: link_at_def)
    then show ?thesis using remdups_adj_got [OF at'(1)] at' assms(3) by (simp add: link_at_def)
  qed
  with all show ?thesis by auto
qed

theorem polls_deliver_all_witness:
  "ex_got ((link_poll postcard_v1 list_queue 99 (\<lambda>t. of_nat (99 - t)) ^^ 2) example_link) = [(SomeEvent, 3), (SomeEvent, 4)]"
  using polls_deliver_all [OF example_link_paced, where n = 2 and now = 99 and secs = "\<lambda>t. of_nat (99 - t)"]
  by (simp add: no_wrap_def log_event_def upt_rec)

end
