(* ===== verification/App_Network.thy ===== *)
theory App_Network
  imports App_Exchange
begin

text \<open>
  The client and the server of the application layer over an asynchronous network, which may lose,
  delay, reorder and repeat the datagrams of both directions, with a server that may be reset at any
  time and offsets that may wrap around: what the client is given is authentic. And, over a network
  that delivers for a while, from whatever state the client has got into: it catches up with the server.
\<close>

section \<open>The asynchronous network\<close>

text \<open>
  The two programs, all requests and replies ever sent, all events ever stored, and the events the
  client was given since it last forgot its state.
\<close>

record ('q, 't) AppNet =
  net_server :: "'q ServerState"
  net_client :: ClientState
  net_requests :: "bytes list"
  net_replies :: "bytes list"
  net_stored :: "'t entry list"
  net_given :: "(Event \<times> u32) list"

definition net_init :: "'pe postcard \<Rightarrow> ('q, 't entry) queue_ops \<Rightarrow> ('q, 't) AppNet \<Rightarrow> bool" where
  "net_init pc ops s \<longleftrightarrow> postcard_format pc \<and> circular_queue ops \<and>
     (\<exists>r < MAX_EVENTS. s = \<lparr>net_server = server_init ops r, net_client = client_init, net_requests = [],
                            net_replies = [], net_stored = [], net_given = []\<rparr>)"

definition net_send :: "'pe postcard \<Rightarrow> ('q, 't) AppNet \<Rightarrow> ('q, 't) AppNet" where
  "net_send pc s =
     (case client_send pc (net_client s) of None \<Rightarrow> s | Some d \<Rightarrow> s\<lparr>net_requests := d # net_requests s\<rparr>)"

definition net_serve ::
    "'pe postcard \<Rightarrow> ('q, 't entry) queue_ops \<Rightarrow> 't \<Rightarrow> ('t \<Rightarrow> u64) \<Rightarrow> bytes \<Rightarrow> ('q, 't) AppNet \<Rightarrow> ('q, 't) AppNet" where
  "net_serve pc ops now secs d s =
     (case server_datagram pc ops now secs (net_server s) d of
        None \<Rightarrow> s
      | Some reply \<Rightarrow> s\<lparr>net_replies := reply # net_replies s\<rparr>)"

definition net_read :: "'pe postcard \<Rightarrow> bytes \<Rightarrow> ('q, 't) AppNet \<Rightarrow> ('q, 't) AppNet" where
  "net_read pc d s =
     s\<lparr>net_client := client_datagram pc d (net_client s),
       net_given := (case client_read pc d of None \<Rightarrow> net_given s | Some reply \<Rightarrow> given (event reply) (net_given s))\<rparr>"

definition net_store ::
    "('q, 't entry) queue_ops \<Rightarrow> nat \<Rightarrow> nat \<Rightarrow> 't \<Rightarrow> ('q, 't) AppNet \<Rightarrow> ('q, 't) AppNet" where
  "net_store ops roll r t s =
     s\<lparr>net_server := server_event ops roll r t (net_server s),
       net_stored := (if roll = 0 then net_stored s
                      else (SomeEvent, event_offset (net_server s), t) # net_stored s)\<rparr>"

text \<open>Datagrams stay in the network, so that they may arrive late, again, out of order or never.\<close>

inductive net_step ::
    "'pe postcard \<Rightarrow> ('q, 't entry) queue_ops \<Rightarrow> ('q, 't) AppNet \<Rightarrow> ('q, 't) AppNet \<Rightarrow> bool"
  for pc :: "'pe postcard" and ops :: "('q, 't entry) queue_ops" where
  net_step_send: "net_step pc ops s (net_send pc s)"
| net_step_serve: "d \<in> set (net_requests s) \<Longrightarrow> net_step pc ops s (net_serve pc ops now secs d s)"
| net_step_read: "d \<in> set (net_replies s) \<Longrightarrow> net_step pc ops s (net_read pc d s)"
| net_step_store: "net_step pc ops s (net_store ops roll r t s)"

inductive_cases net_stepE [elim]: "net_step pc ops s s'"

section \<open>What is given was stored\<close>

lemma find_event_mem: "find_event es n = Some x \<Longrightarrow> x \<in> set es"
proof -
  let ?it = "dropWhile (\<lambda>x. Some (entry_offset x) \<noteq> map_option (\<lambda>n. n + 1) n \<and> Some (entry_offset x) \<noteq> n) es"
  assume "find_event es n = Some x"
  then have "x \<in> set ?it \<or> es \<noteq> [] \<and> x = last es"
    by (auto simp: find_event_def Let_def split: if_splits list.splits option.splits)
  then show ?thesis using last_in_set by (auto dest: set_dropWhileD)
qed

lemma maybe_event_mem:
  assumes "maybe_event ops now st n = Some (Logged e m, t)"
  shows "(e, m, t) \<in> set (items ops (events st))"
  using assms by (auto simp: maybe_event_def dest!: find_event_mem split: option.splits if_splits)

text \<open>A reply that gives an event of a history.\<close>

fun reports :: "'t entry list \<Rightarrow> (Event, NoEE) EventOf option \<Rightarrow> bool" where
  "reports es (Some (Logged e n)) \<longleftrightarrow> (\<exists>t. (e, n, t) \<in> set es)"
| "reports es _ \<longleftrightarrow> True"

lemma reports_mono: "reports es x \<Longrightarrow> set es \<subseteq> set es' \<Longrightarrow> reports es' x"
  by (cases "(es, x)" rule: reports.cases) auto

definition genuine :: "'pe postcard \<Rightarrow> ('q, 't entry) queue_ops \<Rightarrow> ('q, 't) AppNet \<Rightarrow> bool" where
  "genuine pc ops s \<longleftrightarrow> postcard_format pc \<and> circular_queue ops \<and>
     set (items ops (events (net_server s))) \<subseteq> set (net_stored s) \<and>
     (\<forall>d \<in> set (net_replies s). \<exists>reply. client_read pc d = Some reply \<and> reports (net_stored s) (event reply)) \<and>
     (\<forall>(e, n) \<in> set (net_given s). \<exists>t. (e, n, t) \<in> set (net_stored s)) \<and>
     event_count (net_client s) = of_nat (length (net_given s))"

lemma genuine_serve:
  assumes "genuine pc ops s" shows "genuine pc ops (net_serve pc ops now secs d s)"
proof (cases "server_datagram pc ops now secs (net_server s) d")
  case None
  with assms show ?thesis by (simp add: net_serve_def)
next
  case (Some reply)
  have pc: "postcard_format pc" and stored: "set (items ops (events (net_server s))) \<subseteq> set (net_stored s)"
    using assms by (auto simp: genuine_def)
  obtain n where reply: "reply = ser_EventReply pc (ser_EventOf pc (ser_Event pc) (ser_NoEE pc))
      (event_reply (maybe_event ops now (net_server s) n) secs)"
    using Some unfolding postcard_format.server_datagram_eq [OF pc] map_option_eq_Some by blast
  have "reports (net_stored s) (event (event_reply (maybe_event ops now (net_server s) n) secs))" for n
  proof (cases "maybe_event ops now (net_server s) n")
    case (Some x)
    then obtain ev t where x: "maybe_event ops now (net_server s) n = Some (ev, t)" by (cases x) simp
    then show ?thesis using maybe_event_mem [of ops now "net_server s" n] stored
      by (cases ev) (auto simp: event_reply_def)
  qed (simp add: event_reply_def)
  with Some reply assms show ?thesis
    by (simp add: genuine_def net_serve_def postcard_format.client_reads_reply [OF pc])
qed

lemma genuine_read:
  assumes "genuine pc ops s" and "d \<in> set (net_replies s)"
  shows "genuine pc ops (net_read pc d s)"
proof -
  obtain reply where reply: "client_read pc d = Some reply" "reports (net_stored s) (event reply)"
    using assms by (auto simp: genuine_def)
  show ?thesis
    using assms(1) reply
    by (cases "(net_stored s, event reply)" rule: reports.cases)
       (auto simp: genuine_def net_read_def client_datagram_def)
qed

lemma genuine_store:
  assumes "genuine pc ops s" shows "genuine pc ops (net_store ops roll r t s)"
proof -
  have "set (items ops (events (server_event ops roll r t (net_server s)))) \<subseteq> set (net_stored (net_store ops roll r t s))"
    using assms by (auto simp: genuine_def net_store_def server_event_def circular_queue_def dest!: in_set_takeD)
  moreover have "set (net_stored s) \<subseteq> set (net_stored (net_store ops roll r t s))"
    by (auto simp: net_store_def)
  ultimately show ?thesis
    using assms reports_mono [of "net_stored s"] by (fastforce simp: genuine_def net_store_def)
qed

lemma genuine_step:
  assumes "genuine pc ops s" and "net_step pc ops s s'" shows "genuine pc ops s'"
  using assms(2)
proof cases
  case net_step_send
  with assms(1) show ?thesis by (simp add: genuine_def net_send_def split: option.split)
qed (use assms(1) in \<open>simp_all add: genuine_serve genuine_read genuine_store\<close>)

interpretation genuineness: inductive_invariant "net_init pc ops" "net_step pc ops" "genuine pc ops"
  for pc :: "'pe postcard" and ops :: "('q, 't entry) queue_ops"
proof
  fix s :: "('q, 't) AppNet"
  assume "net_init pc ops s"
  then show "genuine pc ops s"
    by (auto simp: net_init_def genuine_def server_init_def client_init_def circular_queue_def)
qed (rule genuine_step)

section \<open>Catching up\<close>

text \<open>
  One poll from any state of the client at all: it is told the bounds of the log, given an event or
  left alone with the newest, and in each case then stands at some event of the log.
\<close>

lemma poll_from_anywhere:
  assumes "postcard_format pc" and "represents ops (ex_server s) (ex_first s) (ex_log s)"
    and "no_wrap (ex_first s) (ex_log s)" and "ex_log s \<noteq> []"
  shows "\<exists>seen. 1 \<le> seen \<and> seen \<le> length (ex_log s) \<and>
    done_with (ex_first s) seen (ex_client (exchange_poll pc ops now secs s))"
proof -
  let ?len = "length (ex_log s)"
  have at_event: ?thesis if "done_with (ex_first s) seen (ex_client s)" "seen \<le> ?len" for seen
  proof (cases "seen < ?len")
    case True
    let ?m = "max seen (?len - MAX_EVENTS)"
    have "Suc ?m \<le> ?len" using True by (auto simp: MAX_EVENTS_def)
    with exchange_poll_next(1) [OF assms(1-3) that True, of now secs] show ?thesis by fastforce
  next
    case False
    with that have "seen = ?len" by simp
    with exchange_poll_next(2) [OF assms(1-3) that, of now secs] that assms(4) show ?thesis
      by (intro exI [of _ seen]) (simp add: Suc_le_eq)
  qed
  show ?thesis
  proof (cases "last_offset (ex_client s)")
    case None
    then show ?thesis using at_event [of 0] by (simp add: done_with_def)
  next
    case (Some n)
    show ?thesis
    proof (cases "n < ex_first s \<or> unat (ex_first s) + ?len \<le> unat n")
      case True
      then show ?thesis
        using exchange_poll_recovers [OF assms Some True, of now secs] assms(4) by (fastforce simp: Suc_le_eq)
    next
      case False
      let ?j = "unat n - unat (ex_first s)"
      have "ex_first s + of_nat ?j = n"
        using False by (simp add: word_less_nat_alt of_nat_diff flip: unat_inject)
      then have "done_with (ex_first s) (Suc ?j) (ex_client s)" using Some by (simp add: done_with_def)
      moreover have "Suc ?j \<le> ?len" using False unfolding word_less_nat_alt by linarith
      ultimately show ?thesis by (rule at_event)
    qed
  qed
qed

lemma poll_progress:
  assumes "postcard_format pc" and "represents ops (ex_server s) (ex_first s) (ex_log s)"
    and "no_wrap (ex_first s) (ex_log s)" and "done_with (ex_first s) seen (ex_client s)" and "seen \<le> length (ex_log s)"
  shows "\<exists>seen'. min (Suc seen) (length (ex_log s)) \<le> seen' \<and> seen' \<le> length (ex_log s) \<and>
    done_with (ex_first s) seen' (ex_client (exchange_poll pc ops now secs s))"
proof (cases "seen < length (ex_log s)")
  case True
  let ?m = "max seen (length (ex_log s) - MAX_EVENTS)"
  have "Suc ?m \<le> length (ex_log s)" using True by (auto simp: MAX_EVENTS_def)
  with exchange_poll_next(1) [OF assms True, of now secs] show ?thesis
    by (intro exI [of _ "Suc ?m"]) auto
next
  case False
  with assms(5) exchange_poll_next(2) [OF assms, of now secs] assms(4) show ?thesis by auto
qed

lemma exchange_polls_keep [simp]:
  "ex_server ((exchange_poll pc ops now secs ^^ k) s) = ex_server s"
  "ex_first ((exchange_poll pc ops now secs ^^ k) s) = ex_first s"
  "ex_log ((exchange_poll pc ops now secs ^^ k) s) = ex_log s"
  by (induction k) simp_all

lemma polls_catch_up:
  assumes "postcard_format pc" and "represents ops (ex_server s) (ex_first s) (ex_log s)"
    and "no_wrap (ex_first s) (ex_log s)" and "ex_log s \<noteq> []"
  shows "\<exists>seen. min (Suc k) (length (ex_log s)) \<le> seen \<and> seen \<le> length (ex_log s) \<and>
    done_with (ex_first s) seen (ex_client ((exchange_poll pc ops now secs ^^ Suc k) s))"
proof (induction k)
  case 0
  then show ?case using poll_from_anywhere [OF assms, of now secs] by auto
next
  case (Suc k)
  let ?s = "(exchange_poll pc ops now secs ^^ Suc k) s"
  obtain seen where seen: "min (Suc k) (length (ex_log s)) \<le> seen" "seen \<le> length (ex_log s)"
      "done_with (ex_first s) seen (ex_client ?s)" using Suc by blast
  obtain seen' where "min (Suc seen) (length (ex_log s)) \<le> seen'" "seen' \<le> length (ex_log s)"
      "done_with (ex_first s) seen' (ex_client (exchange_poll pc ops now secs ?s))"
    using poll_progress [of pc ops ?s seen now secs] seen assms unfolding exchange_polls_keep by blast
  moreover have "exchange_poll pc ops now secs ?s = (exchange_poll pc ops now secs ^^ Suc (Suc k)) s" by simp
  moreover have "min (Suc (Suc k)) (length (ex_log s)) \<le> seen'" using seen(1) calculation(1) by simp
  ultimately show ?case by metis
qed

section \<open>Properties\<close>

text \<open>A server that starts at offset 3 stores an event, and the client reads it.\<close>

lemma example_net:
  "\<exists>s :: (nat entry list \<times> nat, nat) AppNet.
     reachable (net_init postcard_v1 list_queue) (net_step postcard_v1 list_queue) s \<and> net_given s = [(SomeEvent, 3)]"
proof -
  let ?pc = "postcard_v1" and ?secs = "\<lambda>t. of_nat (99 - t)"
  define s0 :: "(nat entry list \<times> nat, nat) AppNet" where
    "s0 = \<lparr>net_server = server_init list_queue 3, net_client = client_init, net_requests = [],
           net_replies = [], net_stored = [], net_given = []\<rparr>"
  define s1 where "s1 = net_send ?pc (net_store list_queue 1 0 10 s0)"
  define request where "request = ser_CommandRequest ?pc (ser_Command ?pc) (client_request client_init)"
  define s2 where "s2 = net_serve ?pc list_queue 99 ?secs request s1"
  have init: "net_init ?pc list_queue s0"
    using v1.postcard_format_axioms circular_list_queue by (auto simp: net_init_def s0_def MAX_EVENTS_def intro!: exI [of _ 3])
  have req: "net_requests s1 = [request]" and srv: "net_server s1 = server_event list_queue 1 0 10 (server_init list_queue 3)"
    and c: "net_client s1 = client_init" "net_given s1 = []"
    by (simp_all add: s1_def s0_def net_send_def net_store_def v1.client_send_eq request_def)
  define reply where "reply = ser_EventReply ?pc (ser_EventOf ?pc (ser_Event ?pc) (ser_NoEE ?pc))
    (event_reply (maybe_event list_queue 99 (net_server s1) None) ?secs)"
  have "server_datagram ?pc list_queue 99 ?secs (net_server s1) request = Some reply"
    by (simp add: v1.server_datagram_eq request_def v1.server_reads_request reply_def client_request_def client_init_def)
  then have s2: "net_replies s2 = reply # net_replies s1" "net_given s2 = []" by (simp_all add: s2_def net_serve_def c)
  have "maybe_event list_queue 99 (net_server s1) None = Some (Logged SomeEvent 3, 10)"
    by (simp add: srv maybe_event_def server_event_def server_init_def find_event_def list_queue_def MAX_EVENTS_def)
  then have "client_read ?pc reply = Some (event_reply (Some (Logged SomeEvent 3, 10)) ?secs)"
    by (simp add: reply_def v1.client_reads_reply)
  then have "net_given (net_read ?pc reply s2) = [(SomeEvent, 3)]" by (simp add: net_read_def s2 event_reply_def)
  moreover have "reachable (net_init ?pc list_queue) (net_step ?pc list_queue) (net_read ?pc reply s2)"
  proof -
    have "reachable (net_init ?pc list_queue) (net_step ?pc list_queue) s1"
      unfolding s1_def by (rule reachable_step [OF reachable_step [where s = s0]], rule reachable_init, rule init)
        (rule net_step_store, rule net_step_send)
    then have "reachable (net_init ?pc list_queue) (net_step ?pc list_queue) s2"
      unfolding s2_def by (rule reachable_step) (rule net_step_serve, simp add: req)
    then show ?thesis by (rule reachable_step) (rule net_step_read, simp add: s2)
  qed
  ultimately show ?thesis by blast
qed

text \<open>
  C11. Over a network that may lose, delay, reorder and repeat the datagrams of both directions,
  with a server that resets its events at any time and offsets that may wrap around, in every
  reachable configuration each event the client was given since it last recovered is one the
  server stored under the very offset it was given with, and the client's event count is their
  number modulo 2^32.
\<close>

theorem given_events_genuine:
  assumes "reachable (net_init pc ops) (net_step pc ops) s"
  shows "(\<forall>(e, n) \<in> set (net_given s). \<exists>t. (e, n, t) \<in> set (net_stored s)) \<and>
    event_count (net_client s) = of_nat (length (net_given s))"
  using genuineness.invariant [OF assms] by (simp add: genuine_def)

theorem given_events_genuine_witness:
  "\<exists>s :: (nat entry list \<times> nat, nat) AppNet. net_given s = [(SomeEvent, 3)] \<and>
    (\<exists>t. (SomeEvent, 3, t) \<in> set (net_stored s)) \<and> event_count (net_client s) = 1"
proof -
  obtain s :: "(nat entry list \<times> nat, nat) AppNet" where
    s: "reachable (net_init postcard_v1 list_queue) (net_step postcard_v1 list_queue) s" "net_given s = [(SomeEvent, 3)]"
    using example_net by blast
  from given_events_genuine [OF s(1)] s(2) show ?thesis by (intro exI [of _ s]) simp
qed

text \<open>
  C12. The client resynchronises from anything: whatever state it is in, with any offset, mode and
  recovery offset, after as many polls as the server's log has events, and at least one, its
  offset is the server's end offset, and further polls change nothing. The log is that of one run
  of the server before a wrap-around.
\<close>

theorem client_resynchronises:
  assumes "postcard_format pc" and "represents ops (ex_server s) (ex_first s) (ex_log s)"
    and "no_wrap (ex_first s) (ex_log s)" and "ex_log s \<noteq> []" and "length (ex_log s) \<le> k"
  shows "last_offset (ex_client ((exchange_poll pc ops now secs ^^ k) s)) = end_offset (ex_server s) \<and>
    (exchange_poll pc ops now secs ^^ Suc k) s = (exchange_poll pc ops now secs ^^ k) s"
proof -
  obtain k' where k: "k = Suc k'" using assms(4,5) by (cases k) auto
  let ?s = "(exchange_poll pc ops now secs ^^ k) s"
  obtain seen where "min (Suc k') (length (ex_log s)) \<le> seen" "seen \<le> length (ex_log s)"
      "done_with (ex_first s) seen (ex_client ?s)"
    using polls_catch_up [OF assms(1-4), of k' now secs] k by blast
  then have *: "done_with (ex_first s) (length (ex_log s)) (ex_client ?s)" using assms(5) k by simp
  then have "last_offset (ex_client ?s) = end_offset (ex_server s)"
    using assms(2,4) by (simp add: done_with_def represents_def)
  moreover have "exchange_poll pc ops now secs ?s = ?s"
    by (rule exchange_poll_next(2) [of pc ops ?s "length (ex_log s)"]) (simp_all add: assms *)
  ultimately show ?thesis by simp
qed

theorem client_resynchronises_witness:
  "last_offset (ex_client ((exchange_poll postcard_v1 list_queue 99 (\<lambda>t. of_nat (99 - t)) ^^ 2)
      (example_stored\<lparr>ex_client := client_init\<lparr>last_offset := Some 77, recovery_event_offset := Some 5\<rparr>\<rparr>))) = Some 4"
proof -
  let ?s = "example_stored\<lparr>ex_client := client_init\<lparr>last_offset := Some 77, recovery_event_offset := Some 5\<rparr>\<rparr>"
  have "last_offset (ex_client ((exchange_poll postcard_v1 list_queue 99 (\<lambda>t. of_nat (99 - t)) ^^ 2) ?s)) =
      end_offset (ex_server ?s)"
    by (rule client_resynchronises [THEN conjunct1, OF v1.postcard_format_axioms])
       (simp_all add: example_represents no_wrap_def)
  then show ?thesis by (simp add: example_server_def server_event_def server_init_def)
qed

end
