(* ===== verification/Rust_Std.thy ===== *)
theory Rust_Std
  imports Prelude
begin

text \<open>
  The parts of the Rust standard library that the sources call on strings and orderings:
  \<open>core::cmp::Ordering\<close> with \<open>then\<close>, \<open>Ord::cmp\<close> on the unsigned integers, \<open>str::split_once\<close>,
  \<open>u8::from_str\<close> and \<open>Display\<close> for \<open>u8\<close>, and the units of time. A Rust \<open>&str\<close> is a \<open>string\<close>: every pattern the sources
  search for is ASCII, so searching the UTF-8 bytes and searching the characters agree.
\<close>

section \<open>Orderings\<close>

datatype Ordering = Less | Equal | Greater

fun then_cmp :: "Ordering \<Rightarrow> Ordering \<Rightarrow> Ordering" where
  "then_cmp Equal o2 = o2"
| "then_cmp o1 o2 = o1"

definition cmp_int :: "'a::linorder \<Rightarrow> 'a \<Rightarrow> Ordering" where
  "cmp_int a b = (if a < b then Less else if a = b then Equal else Greater)"

fun reverse_cmp :: "Ordering \<Rightarrow> Ordering" where
  "reverse_cmp Less = Greater"
| "reverse_cmp Equal = Equal"
| "reverse_cmp Greater = Less"

lemma cmp_int_simps [simp]:
  "cmp_int a b = Less \<longleftrightarrow> a < b"
  "cmp_int a b = Equal \<longleftrightarrow> a = b"
  "cmp_int a b = Greater \<longleftrightarrow> b < a"
  by (auto simp: cmp_int_def)

lemma cmp_int_refl [simp]: "cmp_int a a = Equal"
  by simp

lemma then_cmp_simps [simp]:
  "then_cmp a b = Less \<longleftrightarrow> a = Less \<or> a = Equal \<and> b = Less"
  "then_cmp a b = Equal \<longleftrightarrow> a = Equal \<and> b = Equal"
  "then_cmp a b = Greater \<longleftrightarrow> a = Greater \<or> a = Equal \<and> b = Greater"
  by (cases a; auto)+

lemma ordering_not_Greater: "x \<noteq> Greater \<longleftrightarrow> x = Less \<or> x = Equal"
  by (cases x) auto

section \<open>Splitting strings\<close>

text \<open>\<open>s.split_once(pat)\<close>: the text before and after the first occurrence of the pattern.\<close>

fun split_once :: "string \<Rightarrow> string \<Rightarrow> (string \<times> string) option" where
  "split_once pat [] = (if pat = [] then Some ([], []) else None)"
| "split_once pat (c # cs) =
     (if take (length pat) (c # cs) = pat then Some ([], drop (length pat) (c # cs))
      else (case split_once pat cs of None \<Rightarrow> None | Some (l, r) \<Rightarrow> Some (c # l, r)))"

lemma split_once_char:
  "c \<notin> set l \<Longrightarrow> split_once [c] (l @ c # r) = Some (l, r)"
  by (induction l) auto

lemma split_once_absent:
  "c \<in> set pat \<Longrightarrow> c \<notin> set s \<Longrightarrow> split_once pat s = None"
proof (induction s)
  case Nil
  then show ?case by auto
next
  case (Cons d s)
  have "take (length pat) (d # s) \<noteq> pat"
    using Cons.prems by (metis in_set_takeD)
  with Cons show ?case by simp
qed

lemma split_once_prefix: "pat \<noteq> [] \<Longrightarrow> split_once pat (pat @ r) = Some ([], r)"
  by (cases pat) auto

lemma split_once_Some:
  "split_once pat s = Some (l, r) \<Longrightarrow> s = l @ pat @ r"
proof (induction s arbitrary: l)
  case Nil
  then show ?case by (auto split: if_splits)
next
  case (Cons c s)
  show ?case
  proof (cases "take (length pat) (c # s) = pat")
    case True
    with Cons.prems show ?thesis
      using append_take_drop_id [of "length pat" "c # s"] by auto
  next
    case False
    with Cons show ?thesis by (auto split: option.splits)
  qed
qed

section \<open>Decimal bytes\<close>

text \<open>
  \<open>u8::from_str\<close>: an optional \<open>+\<close>, then one or more decimal digits whose value fits in a byte.
  Every failure (empty, invalid digit, overflow) is the one \<open>Err\<close>, since the caller maps them all
  to the same error.
\<close>

definition dec_digit :: "char \<Rightarrow> nat option" where
  "dec_digit c = (let k = (of_char c :: nat) in if 48 \<le> k \<and> k \<le> 57 then Some (k - 48) else None)"

fun parse_digits :: "nat \<Rightarrow> string \<Rightarrow> nat option" where
  "parse_digits acc [] = Some acc"
| "parse_digits acc (c # cs) =
     (case dec_digit c of
        None \<Rightarrow> None
      | Some d \<Rightarrow> if acc * 10 + d < 256 then parse_digits (acc * 10 + d) cs else None)"

definition parse_u8 :: "string \<Rightarrow> u8 option" where
  "parse_u8 s =
     (case s of
        [] \<Rightarrow> None
      | c # cs \<Rightarrow>
          map_option of_nat
            (if c = CHR ''+'' then (if cs = [] then None else parse_digits 0 cs)
             else parse_digits 0 s))"

definition digit_char :: "nat \<Rightarrow> char" where
  "digit_char d = char_of (48 + d)"

fun show_nat :: "nat \<Rightarrow> string" where
  "show_nat n = (if n < 10 then [digit_char n] else show_nat (n div 10) @ [digit_char (n mod 10)])"

declare show_nat.simps [simp del]

definition display_u8 :: "u8 \<Rightarrow> string" where
  "display_u8 b = show_nat (unat b)"

lemma dec_digit_char: "d < 10 \<Longrightarrow> dec_digit (digit_char d) = Some d"
  by (simp add: dec_digit_def digit_char_def Let_def)

lemma parse_digits_append:
  "parse_digits acc (xs @ ys) =
     (case parse_digits acc xs of None \<Rightarrow> None | Some a \<Rightarrow> parse_digits a ys)"
  by (induction xs arbitrary: acc) (auto split: option.splits)

lemma parse_digits_show_nat: "n < 256 \<Longrightarrow> parse_digits 0 (show_nat n) = Some n"
proof (induction n rule: show_nat.induct)
  case (1 n)
  show ?case
  proof (cases "n < 10")
    case True
    then show ?thesis by (simp add: show_nat.simps [of n] dec_digit_char)
  next
    case False
    with 1 have "parse_digits 0 (show_nat (n div 10)) = Some (n div 10)" by simp
    moreover have "n div 10 * 10 + n mod 10 = n" by simp
    ultimately show ?thesis
      using False "1.prems" by (simp add: show_nat.simps [of n] parse_digits_append dec_digit_char)
  qed
qed

lemma show_nat_not_Nil [simp]: "show_nat n \<noteq> []"
  by (simp add: show_nat.simps [of n])

lemma show_nat_digits: "c \<in> set (show_nat n) \<Longrightarrow> dec_digit c \<noteq> None"
proof (induction n rule: show_nat.induct)
  case (1 n)
  then show ?case
    using dec_digit_char [of n] dec_digit_char [of "n mod 10"]
    by (auto simp: show_nat.simps [of n] split: if_splits)
qed

lemma display_u8_digits: "dec_digit c = None \<Longrightarrow> c \<notin> set (display_u8 b)"
  using show_nat_digits by (fastforce simp: display_u8_def)

lemma display_u8_chars [simp]:
  "CHR ''.'' \<notin> set (display_u8 b)" "CHR ''-'' \<notin> set (display_u8 b)"
  "CHR ''+'' \<notin> set (display_u8 b)" "CHR ''l'' \<notin> set (display_u8 b)"
  by (rule display_u8_digits, simp add: dec_digit_def)+

lemma display_u8_not_Nil [simp]: "display_u8 b \<noteq> []"
  by (simp add: display_u8_def)

lemma parse_display_u8 [simp]: "parse_u8 (display_u8 b) = Some b"
proof -
  obtain c cs where s: "display_u8 b = c # cs"
    by (meson display_u8_not_Nil neq_Nil_conv)
  have "c \<noteq> CHR ''+''"
    using display_u8_chars(3) [of b] by (auto simp: s)
  moreover have "parse_digits 0 (c # cs) = Some (unat b)"
    using parse_digits_show_nat [of "unat b"] by (simp flip: s add: display_u8_def)
  ultimately show ?thesis by (simp add: parse_u8_def s)
qed

lemma parse_u8_Nil [simp]: "parse_u8 [] = None"
  by (simp add: parse_u8_def)

section \<open>Durations\<close>

text \<open>Durations and instants are counted in nanoseconds.\<close>

definition SECOND :: nat where "SECOND = 10 ^ 9"

definition MILLISECOND :: nat where "MILLISECOND = 10 ^ 6"

end
