(* ===== verification/App_Program.thy ===== *)
theory App_Program
  imports App_Network Rust_Std
begin

text \<open>
  The two programs of the application layer in time (\<open>app/examples/server/main.rs\<close> and
  \<open>app/examples/client/main.rs\<close>). The server's \<open>main\<close>: the background task that produces events, the
  bounded channel it sends them through, and the loop that takes what comes first, an event or a
  datagram. The client's \<open>main\<close>: its turns in intervals of a second, with a timeout for the reply. How
  the tasks take turns and what arrives when are lists of inputs.
\<close>

section \<open>Instants\<close>

text \<open>
  Instants and durations are counted in nanoseconds. An instant has 63 bits for its seconds; adding
  beyond that is \<open>None\<close> for \<open>checked_add\<close> and a panic for \<open>+=\<close>. The duration since a later instant is
  zero.
\<close>

definition INSTANT_END :: nat where "INSTANT_END = 2 ^ 63 * SECOND"

definition checked_add :: "nat \<Rightarrow> nat \<Rightarrow> nat option" where
  "checked_add t d = (if t + d < INSTANT_END then Some (t + d) else None)"

definition duration_since :: "nat \<Rightarrow> nat \<Rightarrow> nat" where
  "duration_since now t = now - t"

definition as_secs :: "nat \<Rightarrow> u64" where
  "as_secs d = of_nat (d div SECOND)"

lemma SECOND_pos [simp]: "0 < SECOND"
  by (simp add: SECOND_def)

text \<open>Whole seconds of a difference of instants fit in 64 bits.\<close>

lemma as_secs_bounds:
  assumes "d < INSTANT_END"
  shows "unat (as_secs d) * SECOND \<le> d" and "d < (unat (as_secs d) + 1) * SECOND"
proof -
  have "d div SECOND < 2 ^ 63" using assms by (simp add: INSTANT_END_def less_mult_imp_div_less)
  then have "unat (as_secs d) = d div SECOND" by (simp add: as_secs_def unat_of_nat)
  then show "unat (as_secs d) * SECOND \<le> d" "d < (unat (as_secs d) + 1) * SECOND"
    using dividend_less_div_times [of SECOND d] by simp_all
qed

section \<open>The server\<close>

text \<open>
  The background task: about to read the clock, asleep with the time it read until the delay is over,
  or sending that time, which waits as long as the channel is full.
\<close>

datatype Producer = Starting | Sleeping nat nat | Sending nat

definition CHANNEL_SIZE :: nat where "CHANNEL_SIZE = 100"

text \<open>
  The bounded channel between the tasks, \<open>tokio\<close>'s \<open>mpsc\<close>: a parameter. \<open>chan_send\<close> is \<open>None\<close> where the sender
  has to wait, \<open>chan_recv\<close> where there is nothing to receive. The contract is the documented one, a queue
  that holds at most as many values as it was created for; what it holds and that bound are observers
  for the statement of the laws.
\<close>

record 'ch mpsc =
  chan_new :: "nat \<Rightarrow> 'ch"
  chan_send :: "'ch \<Rightarrow> nat \<Rightarrow> 'ch option"
  chan_recv :: "'ch \<Rightarrow> (nat \<times> 'ch) option"
  chan_items :: "'ch \<Rightarrow> nat list"
  chan_bound :: "'ch \<Rightarrow> nat"

locale bounded_channel =
  fixes mp :: "'ch mpsc"
  assumes items_new [simp]: "chan_items mp (chan_new mp n) = []"
    and bound_new [simp]: "chan_bound mp (chan_new mp n) = n"
    and send_waits: "chan_send mp c t = None \<longleftrightarrow> chan_bound mp c \<le> length (chan_items mp c)"
    and send_items: "chan_send mp c t = Some c' \<Longrightarrow> chan_items mp c' = chan_items mp c @ [t]"
    and send_bound: "chan_send mp c t = Some c' \<Longrightarrow> chan_bound mp c' = chan_bound mp c"
    and recv_empty: "chan_recv mp c = None \<longleftrightarrow> chan_items mp c = []"
    and recv_items: "chan_recv mp c = Some (t, c') \<Longrightarrow> chan_items mp c = t # chan_items mp c'"
    and recv_bound: "chan_recv mp c = Some (t, c') \<Longrightarrow> chan_bound mp c' = chan_bound mp c"

definition list_channel :: "(nat list \<times> nat) mpsc" where
  "list_channel =
     \<lparr>chan_new = (\<lambda>n. ([], n)),
      chan_send = (\<lambda>(ts, n) t. if length ts < n then Some (ts @ [t], n) else None),
      chan_recv = (\<lambda>(ts, n). case ts of [] \<Rightarrow> None | t # ts' \<Rightarrow> Some (t, ts', n)),
      chan_items = fst, chan_bound = snd\<rparr>"

interpretation list_mpsc: bounded_channel list_channel
  by unfold_locales (auto simp: list_channel_def split: if_splits list.splits)

record ('q, 'ch) ServerProgram =
  sp_clock :: nat
  sp_producer :: Producer
  sp_channel :: 'ch
  sp_state :: "'q ServerState"
  sp_sent :: "bytes list"

text \<open>
  Time passes; the background task goes on, with \<open>delay\<close> the random number it draws; the loop takes an
  event from the channel, with the random numbers of the reset; or it takes a datagram, and reads the
  clock again \<open>w\<close> nanoseconds later for the age of the event.
\<close>

datatype ServerInput = Pass nat | Produce nat | TakeEvent nat nat | TakeDatagram bytes nat

fun produce :: "'ch mpsc \<Rightarrow> nat \<Rightarrow> nat \<Rightarrow> Producer \<Rightarrow> 'ch \<Rightarrow> Producer \<times> 'ch" where
  "produce mp clock delay Starting channel =
     (case checked_add clock (delay * SECOND) of
        Some instant \<Rightarrow> (Sleeping clock instant, channel)
      | None \<Rightarrow> (Starting, channel))"
| "produce mp clock delay (Sleeping event_time instant) channel =
     (if instant \<le> clock then (Sending event_time, channel) else (Sleeping event_time instant, channel))"
| "produce mp clock delay (Sending event_time) channel =
     (case chan_send mp channel event_time of
        Some channel' \<Rightarrow> (Starting, channel')
      | None \<Rightarrow> (Sending event_time, channel))"

fun server_step ::
    "'pe postcard \<Rightarrow> ('q, nat entry) queue_ops \<Rightarrow> 'ch mpsc \<Rightarrow> ServerInput
      \<Rightarrow> ('q, 'ch) ServerProgram \<Rightarrow> ('q, 'ch) ServerProgram" where
  "server_step pc ops mp (Pass d) p = p\<lparr>sp_clock := sp_clock p + d\<rparr>"
| "server_step pc ops mp (Produce delay) p =
     (let (producer, channel) = produce mp (sp_clock p) delay (sp_producer p) (sp_channel p)
      in p\<lparr>sp_producer := producer, sp_channel := channel\<rparr>)"
| "server_step pc ops mp (TakeEvent roll r) p =
     (case chan_recv mp (sp_channel p) of
        None \<Rightarrow> p
      | Some (event_instant, channel) \<Rightarrow>
          p\<lparr>sp_channel := channel, sp_state := server_event ops roll r event_instant (sp_state p)\<rparr>)"
| "server_step pc ops mp (TakeDatagram datagram w) p =
     (let now = sp_clock p + w;
          reply = server_datagram pc ops (sp_clock p) (\<lambda>t. as_secs (duration_since now t)) (sp_state p) datagram
      in p\<lparr>sp_clock := now, sp_sent := sp_sent p @ (case reply of Some b \<Rightarrow> [b] | None \<Rightarrow> [])\<rparr>)"

definition server_main ::
    "'pe postcard \<Rightarrow> ('q, nat entry) queue_ops \<Rightarrow> 'ch mpsc \<Rightarrow> nat \<Rightarrow> nat \<Rightarrow> ServerInput list
      \<Rightarrow> ('q, 'ch) ServerProgram" where
  "server_main pc ops mp t0 r inputs =
     fold (server_step pc ops mp) inputs
       \<lparr>sp_clock = t0, sp_producer = Starting, sp_channel = chan_new mp CHANNEL_SIZE, sp_state = server_init ops r,
        sp_sent = []\<rparr>"

text \<open>The event times on their way: stored, in the channel and held by the background task, in this order.\<close>

fun held :: "Producer \<Rightarrow> nat list" where
  "held Starting = []"
| "held (Sleeping event_time _) = [event_time]"
| "held (Sending event_time) = [event_time]"

definition stored_times :: "('q, nat entry) queue_ops \<Rightarrow> ('q, 'ch) ServerProgram \<Rightarrow> nat list" where
  "stored_times ops p = rev (map (snd \<circ> snd) (items ops (events (sp_state p))))"

definition event_times :: "('q, nat entry) queue_ops \<Rightarrow> 'ch mpsc \<Rightarrow> ('q, 'ch) ServerProgram \<Rightarrow> nat list" where
  "event_times ops mp p = stored_times ops p @ chan_items mp (sp_channel p) @ held (sp_producer p)"

definition timely :: "('q, nat entry) queue_ops \<Rightarrow> 'ch mpsc \<Rightarrow> ('q, 'ch) ServerProgram \<Rightarrow> bool" where
  "timely ops mp p \<longleftrightarrow> sorted (event_times ops mp p) \<and> (\<forall>t \<in> set (event_times ops mp p). t \<le> sp_clock p) \<and>
     chan_bound mp (sp_channel p) = CHANNEL_SIZE \<and> length (chan_items mp (sp_channel p)) \<le> CHANNEL_SIZE"

context bounded_channel
begin

lemma held_produce:
  assumes "produce mp clock delay producer c = (producer', c')"
  shows "chan_items mp c' @ held producer' = chan_items mp c @ held producer \<or>
      chan_items mp c' @ held producer' = chan_items mp c @ [clock] \<and> held producer = []"
    and "chan_bound mp c' = chan_bound mp c"
    and "length (chan_items mp c) \<le> chan_bound mp c \<Longrightarrow> length (chan_items mp c') \<le> chan_bound mp c'"
proof -
  have "length (chan_items mp c) < chan_bound mp c" if "chan_send mp c t = Some c''" for t c''
    using that send_waits [of c t] by simp
  then show "chan_items mp c' @ held producer' = chan_items mp c @ held producer \<or>
      chan_items mp c' @ held producer' = chan_items mp c @ [clock] \<and> held producer = []"
    "chan_bound mp c' = chan_bound mp c"
    "length (chan_items mp c) \<le> chan_bound mp c \<Longrightarrow> length (chan_items mp c') \<le> chan_bound mp c'"
    using assms
    by (cases producer; auto split: if_splits option.splits simp: send_items send_bound Suc_le_eq)+
qed

lemma stored_times_event:
  assumes "circular_queue ops" and "chan_recv mp (sp_channel p) = Some (t, c)"
  obtains zs where "zs @ stored_times ops (server_step pc ops mp (TakeEvent roll r) p) = stored_times ops p @ [t]" "0 < roll"
    | "stored_times ops (server_step pc ops mp (TakeEvent roll r) p) = []"
proof (cases "roll = 0")
  case True
  then show ?thesis using assms that(2) by (simp add: stored_times_def server_event_def circular_queue_def)
next
  case False
  let ?n = "capacity ops (events (sp_state p))" and ?es = "map (snd \<circ> snd) (items ops (events (sp_state p)))"
  have "stored_times ops (server_step pc ops mp (TakeEvent roll r) p) = rev (take ?n (t # ?es))"
    using assms False by (simp add: stored_times_def server_event_def circular_queue_def take_Cons' take_map)
  moreover have "rev (drop ?n (t # ?es)) @ rev (take ?n (t # ?es)) = rev ?es @ [t]"
    by (metis append_take_drop_id rev.simps(2) rev_append)
  ultimately show ?thesis using that(1) False by (simp add: stored_times_def)
qed

lemma timely_step:
  assumes "circular_queue ops" and "timely ops mp p"
  shows "timely ops mp (server_step pc ops mp i p)"
proof (cases i)
  case (Pass d)
  with assms(2) show ?thesis by (force simp: timely_def event_times_def stored_times_def)
next
  case (Produce delay)
  obtain producer c where prod: "produce mp (sp_clock p) delay (sp_producer p) (sp_channel p) = (producer, c)"
    by fastforce
  let ?p = "server_step pc ops mp i p"
  have "event_times ops mp ?p = event_times ops mp p \<or> event_times ops mp ?p = event_times ops mp p @ [sp_clock p]"
    using held_produce(1) [OF prod] by (auto simp: Produce prod event_times_def stored_times_def)
  moreover have "sp_clock ?p = sp_clock p" "sp_channel ?p = c" by (simp_all add: Produce prod)
  ultimately show ?thesis using held_produce(2,3) [OF prod] assms(2) by (auto simp: timely_def sorted_append)
next
  case (TakeEvent roll r)
  show ?thesis
  proof (cases "chan_recv mp (sp_channel p)")
    case None
    with assms(2) show ?thesis by (simp add: TakeEvent)
  next
    case (Some tc)
    then obtain t c where recv: "chan_recv mp (sp_channel p) = Some (t, c)" by (cases tc) simp
    let ?p = "server_step pc ops mp (TakeEvent roll r) p"
    have p: "sp_clock ?p = sp_clock p" "sp_channel ?p = c" "sp_producer ?p = sp_producer p" by (simp_all add: recv)
    then have chan: "chan_bound mp (sp_channel ?p) = CHANNEL_SIZE" "length (chan_items mp (sp_channel ?p)) \<le> CHANNEL_SIZE"
      using recv_items [OF recv] recv_bound [OF recv] assms(2) by (simp_all add: timely_def)
    consider zs where "zs @ stored_times ops ?p = stored_times ops p @ [t]" "0 < roll" | "stored_times ops ?p = []"
      by (rule stored_times_event [OF assms(1) recv, where pc = pc and roll = roll and r = r])
    then show ?thesis
    proof cases
      case (1 zs)
      have "zs @ event_times ops mp ?p = event_times ops mp p"
        using 1(1) recv_items [OF recv] p by (simp add: event_times_def)
      then have "sorted (zs @ event_times ops mp ?p)" "\<forall>t \<in> set (zs @ event_times ops mp ?p). t \<le> sp_clock p"
        using assms(2) unfolding timely_def by metis+
      then show ?thesis using p(1) chan unfolding TakeEvent timely_def sorted_append by simp
    next
      case 2
      then show ?thesis
        using assms(2) chan p recv_items [OF recv] unfolding TakeEvent
        by (auto simp: timely_def event_times_def sorted_append simp del: server_step.simps)
    qed
  qed
next
  case (TakeDatagram d w)
  with assms(2) show ?thesis by (force simp: timely_def event_times_def stored_times_def Let_def)
qed

lemma timely_main:
  assumes "circular_queue ops"
  shows "timely ops mp (server_main pc ops mp t0 r inputs)"
proof -
  have "timely ops mp (fold (server_step pc ops mp) inputs p)" if "timely ops mp p" for p
    using that by (induction inputs arbitrary: p) (simp_all add: timely_step [OF assms])
  then show ?thesis
    using assms by (simp add: server_main_def timely_def event_times_def stored_times_def server_init_def circular_queue_def)
qed

end

text \<open>And at all times it holds a log as \<open>App_Server\<close> specifies it, so that what is shown there applies.\<close>

lemma represents_main:
  assumes "circular_queue ops"
  shows "\<exists>a log. represents ops (sp_state (server_main pc ops mp t0 r inputs)) a log"
proof -
  have step: "\<exists>a log. represents ops (sp_state (server_step pc ops mp i p)) a log" if "represents ops (sp_state p) a log" for i p a log
  proof -
    have "\<exists>a log. represents ops (server_event ops roll r t (sp_state p)) a log" for roll r t
      using represents_event [OF assms that, of roll r t] by blast
    then show ?thesis using that by (cases i) (auto simp: Let_def split: prod.splits option.splits)
  qed
  have "\<exists>a log. represents ops (sp_state (fold (server_step pc ops mp) inputs p)) a log" if "\<exists>a log. represents ops (sp_state p) a log" for p
    using that
  proof (induction inputs arbitrary: p)
    case (Cons i inputs)
    then have "\<exists>a log. represents ops (sp_state (server_step pc ops mp i p)) a log" using step by blast
    then show ?case using Cons.IH by simp
  qed simp
  then show ?thesis using represents_init [OF assms, of r] unfolding server_main_def by force
qed

section \<open>The client\<close>

record ClientProgram =
  cp_clock :: nat
  cp_next_send_time :: nat
  cp_state :: ClientState
  cp_sent :: "(nat \<times> bytes) list"

definition RECEIVE_TIMEOUT :: nat where "RECEIVE_TIMEOUT = 100 * MILLISECOND"

text \<open>
  A turn of the loop: sleep until the next time to send, send, and wait for a datagram. \<open>arrival\<close> is the
  first one and how long after sending it is there (at once, when it is left from the turn before); when
  that is too long or there is none, the timeout ends the turn. The addition at the end may panic.
\<close>

definition client_turn ::
    "'pe postcard \<Rightarrow> (nat \<times> bytes) option \<Rightarrow> ClientProgram \<Rightarrow> ClientProgram exec" where
  "client_turn pc arrival p =
     (let now = max (cp_clock p) (cp_next_send_time p);
          sent = (case client_send pc (cp_state p) of Some b \<Rightarrow> [(now, b)] | None \<Rightarrow> []);
          (now, state) = (case arrival of
             Some (d, b) \<Rightarrow> if d < RECEIVE_TIMEOUT then (now + d, client_datagram pc b (cp_state p))
                            else (now + RECEIVE_TIMEOUT, cp_state p)
           | None \<Rightarrow> (now + RECEIVE_TIMEOUT, cp_state p))
      in do {
        next_send_time \<leftarrow> checked_add (cp_next_send_time p) SECOND;
        Some \<lparr>cp_clock = now, cp_next_send_time = next_send_time, cp_state = state, cp_sent = cp_sent p @ sent\<rparr>
      })"

fun client_turns ::
    "'pe postcard \<Rightarrow> (nat \<times> bytes) option list \<Rightarrow> ClientProgram \<Rightarrow> ClientProgram exec" where
  "client_turns pc [] p = Some p"
| "client_turns pc (a # as) p = do { p \<leftarrow> client_turn pc a p; client_turns pc as p }"

definition client_main :: "'pe postcard \<Rightarrow> nat \<Rightarrow> (nat \<times> bytes) option list \<Rightarrow> ClientProgram exec" where
  "client_main pc t0 arrivals =
     client_turns pc arrivals \<lparr>cp_clock = t0, cp_next_send_time = t0, cp_state = client_init, cp_sent = []\<rparr>"

text \<open>No turn takes as long as the interval, so each starts when it is due.\<close>

lemma client_turn_time:
  assumes "postcard_format pc" and "cp_clock p \<le> cp_next_send_time p"
  shows "if cp_next_send_time p + SECOND < INSTANT_END
    then \<exists>c clock. client_turn pc arrival p = Some \<lparr>cp_clock = clock, cp_next_send_time = cp_next_send_time p + SECOND,
        cp_state = c, cp_sent = cp_sent p @ [(cp_next_send_time p,
          ser_CommandRequest pc (ser_Command pc) (client_request (cp_state p)))]\<rparr> \<and> clock \<le> cp_next_send_time p + SECOND
    else client_turn pc arrival p = None"
  using assms(2)
  by (auto simp: client_turn_def postcard_format.client_send_eq [OF assms(1)] checked_add_def Let_def max_def
        RECEIVE_TIMEOUT_def MILLISECOND_def SECOND_def split: option.splits)

lemma client_turns_times:
  assumes "postcard_format pc" and "cp_clock p \<le> cp_next_send_time p" and "cp_next_send_time p < INSTANT_END"
  shows "if cp_next_send_time p + length as * SECOND < INSTANT_END
    then \<exists>p'. client_turns pc as p = Some p' \<and>
      map fst (cp_sent p') = map fst (cp_sent p) @ map (\<lambda>i. cp_next_send_time p + i * SECOND) [0..<length as]
    else client_turns pc as p = None"
  using assms(2,3)
proof (induction as arbitrary: p)
  case (Cons a as)
  show ?case
  proof (cases "cp_next_send_time p + SECOND < INSTANT_END")
    case True
    then obtain c clock where turn: "client_turn pc a p =
        Some \<lparr>cp_clock = clock, cp_next_send_time = cp_next_send_time p + SECOND, cp_state = c,
          cp_sent = cp_sent p @ [(cp_next_send_time p, ser_CommandRequest pc (ser_Command pc) (client_request (cp_state p)))]\<rparr>"
        (is "_ = Some ?p") and "clock \<le> cp_next_send_time p + SECOND"
      using client_turn_time [OF assms(1) Cons.prems(1), of a] by auto
    then show ?thesis
      using Cons.IH [of ?p] True
      by (simp add: upt_conv_Cons map_Suc_upt [symmetric] algebra_simps comp_def del: upt_Suc split: if_splits)
  next
    case False
    then show ?thesis using client_turn_time [OF assms(1) Cons.prems(1), of a] by simp
  qed
qed simp

section \<open>The time of an event\<close>

text \<open>
  The library for calendar time, \<open>chrono\<close>: durations and local times stand for numbers of nanoseconds;
  \<open>from_std\<close> takes a duration of whole seconds whose milliseconds fit in 63 bits; subtraction is exact
  and succeeds as long as the result is within the range of years.
\<close>

record ('lt, 'd) chrono =
  from_std :: "u64 \<Rightarrow> 'd option"
  zero_duration :: 'd
  checked_sub_signed :: "'lt \<Rightarrow> 'd \<Rightarrow> 'lt option"
  duration_nanos :: "'d \<Rightarrow> int"
  local_nanos :: "'lt \<Rightarrow> int"

definition calendar :: "int \<Rightarrow> int \<Rightarrow> ('lt, 'd) chrono \<Rightarrow> bool" where
  "calendar lo hi ch \<longleftrightarrow>
     (\<forall>s. if unat s * 1000 < 2 ^ 63 then \<exists>d. from_std ch s = Some d \<and> duration_nanos ch d = int (unat s * SECOND)
          else from_std ch s = None) \<and>
     duration_nanos ch (zero_duration ch) = 0 \<and>
     (\<forall>t d. let t' = local_nanos ch t - duration_nanos ch d in
        if lo \<le> t' \<and> t' \<le> hi then \<exists>u. checked_sub_signed ch t d = Some u \<and> local_nanos ch u = t'
        else checked_sub_signed ch t d = None)"

definition int_calendar :: "int \<Rightarrow> int \<Rightarrow> (int, int) chrono" where
  "int_calendar lo hi =
     \<lparr>from_std = (\<lambda>s. if unat s * 1000 < 2 ^ 63 then Some (int (unat s * SECOND)) else None), zero_duration = 0,
      checked_sub_signed = (\<lambda>t d. if lo \<le> t - d \<and> t - d \<le> hi then Some (t - d) else None),
      duration_nanos = id, local_nanos = id\<rparr>"

lemma calendar_int [simp]: "calendar lo hi (int_calendar lo hi)"
  by (auto simp: calendar_def int_calendar_def Let_def)

text \<open>The time the client prints for a reply it reads at the local time \<open>now\<close>.\<close>

definition shown_time :: "('lt, 'd) chrono \<Rightarrow> 'lt \<Rightarrow> (Event, NoEE) EventOf EventReply \<Rightarrow> 'lt option" where
  "shown_time ch now reply =
     checked_sub_signed ch now (case from_std ch (delta_ticks reply) of Some d \<Rightarrow> d | None \<Rightarrow> zero_duration ch)"

text \<open>The age of the event in a reply of the server.\<close>

lemma reply_age:
  assumes "postcard_format pc" and "circular_queue ops"
    and "server_datagram pc ops (sp_clock p) (\<lambda>t. as_secs (duration_since now t)) (sp_state p) d = Some b"
    and "client_read pc b = Some reply" and "event reply = Some (Logged e n)"
  obtains t where "(e, n, t) \<in> set (items ops (events (sp_state p)))" "delta_ticks reply = as_secs (now - t)"
proof -
  let ?secs = "\<lambda>t. as_secs (duration_since now t)"
  obtain m where "b = ser_EventReply pc (ser_EventOf pc (ser_Event pc) (ser_NoEE pc))
      (event_reply (maybe_event ops (sp_clock p) (sp_state p) m) ?secs)"
    using assms(3) unfolding postcard_format.server_datagram_eq [OF assms(1)] map_option_eq_Some by blast
  then have reply: "reply = event_reply (maybe_event ops (sp_clock p) (sp_state p) m) ?secs"
    using assms(4) by (simp add: postcard_format.client_reads_reply [OF assms(1)])
  then obtain t where t: "maybe_event ops (sp_clock p) (sp_state p) m = Some (Logged e n, t)"
    using assms(5) by (auto simp: event_reply_def split: option.splits)
  then show ?thesis
    using that maybe_event_mem [OF t] reply by (simp add: event_reply_def duration_since_def)
qed

section \<open>Properties\<close>

text \<open>A server that starts at offset 3, produces and stores an event at time 5, and waits for 2.5 seconds.\<close>

lemma items_list_queue: "items list_queue = fst"
  by (simp add: list_queue_def)

definition example_inputs :: "ServerInput list" where
  "example_inputs = [Produce 0, Produce 0, Produce 0, TakeEvent 1 0, Pass 2500000000]"

lemma example_program:
  "server_main postcard_v1 list_queue list_channel 5 3 example_inputs =
     \<lparr>sp_clock = 2500000005, sp_producer = Starting, sp_channel = ([], CHANNEL_SIZE),
      sp_state = \<lparr>events = ([(SomeEvent, 3, 5)], 10), start = Some 3, end_offset = Some 3, event_offset = 4\<rparr>, sp_sent = []\<rparr>"
  "stored_times list_queue (server_main postcard_v1 list_queue list_channel 5 3 example_inputs) = [5]"
proof -
  show prog: "server_main postcard_v1 list_queue list_channel 5 3 example_inputs =
     \<lparr>sp_clock = 2500000005, sp_producer = Starting, sp_channel = ([], CHANNEL_SIZE),
      sp_state = \<lparr>events = ([(SomeEvent, 3, 5)], 10), start = Some 3, end_offset = Some 3, event_offset = 4\<rparr>, sp_sent = []\<rparr>"
    by (simp add: server_main_def example_inputs_def checked_add_def INSTANT_END_def SECOND_def CHANNEL_SIZE_def
          server_event_def server_init_def list_queue_def list_channel_def MAX_EVENTS_def)
  then show "stored_times list_queue (server_main postcard_v1 list_queue list_channel 5 3 example_inputs) = [5]"
    by (simp add: stored_times_def list_queue_def)
qed

text \<open>
  C13. In every run of the server's main, for any interleaving of its background task, events and
  datagrams, and any channel that is a queue bounded by the number it is created for, the times of
  the events are sorted from the oldest stored through the channel to the one being produced, no
  stored event is in the future, the channel never holds more than 100, and the state always
  represents a log.
\<close>

theorem server_events_in_time:
  assumes "circular_queue ops" and "bounded_channel mp" and "p = server_main pc ops mp t0 r inputs"
  shows "sorted (stored_times ops p @ chan_items mp (sp_channel p) @ held (sp_producer p)) \<and>
    (\<forall>t \<in> set (stored_times ops p). t \<le> sp_clock p) \<and> length (chan_items mp (sp_channel p)) \<le> CHANNEL_SIZE \<and>
    (\<exists>a log. represents ops (sp_state p) a log)"
  using bounded_channel.timely_main [OF assms(2,1), of pc t0 r inputs] represents_main [OF assms(1), of pc mp t0 r inputs] assms(3)
  by (simp add: timely_def event_times_def)

theorem server_events_in_time_witness:
  "\<exists>p. p = server_main postcard_v1 list_queue list_channel 5 3 example_inputs \<and> stored_times list_queue p = [5] \<and>
    sorted (stored_times list_queue p @ chan_items list_channel (sp_channel p) @ held (sp_producer p)) \<and>
    length (chan_items list_channel (sp_channel p)) \<le> CHANNEL_SIZE"
  using server_events_in_time [OF circular_list_queue list_mpsc.bounded_channel_axioms refl, of postcard_v1 5 3 example_inputs]
  by (simp add: example_program(2))

text \<open>
  C14. The client's main, whose own work takes no time but which waits up to 100 milliseconds for
  each reply, sends its i-th request exactly i seconds after it started, whatever arrives and
  whenever; it panics exactly when the time of the next request would be beyond the last instant.
\<close>

theorem client_sends_every_second:
  assumes "postcard_format pc" and "t0 < INSTANT_END"
  shows "if t0 + length arrivals * SECOND < INSTANT_END
    then \<exists>p. client_main pc t0 arrivals = Some p \<and>
      map fst (cp_sent p) = map (\<lambda>i. t0 + i * SECOND) [0..<length arrivals]
    else client_main pc t0 arrivals = None"
  using client_turns_times [OF assms(1), of "\<lparr>cp_clock = t0, cp_next_send_time = t0, cp_state = client_init, cp_sent = []\<rparr>" arrivals]
    assms(2) by (simp add: client_main_def split: if_splits)

theorem client_sends_every_second_witness:
  "\<exists>p. client_main postcard_v1 7 [None, Some (50, [1, 2, 3]), Some (200000000, [])] = Some p \<and>
    map fst (cp_sent p) = [7, 1000000007, 2000000007]"
  using client_sends_every_second [OF v1.postcard_format_axioms, of 7 "[None, Some (50, [1, 2, 3]), Some (200000000, [])]"]
  by (simp add: INSTANT_END_def SECOND_def upt_rec)

text \<open>
  C15. The time the client prints for an event is right up to a second: for a reply of the
  server's main to any datagram that carries a stored event, read after a transit time by a client
  whose local clock differs by a constant, the printed time is not before the local time of the
  event plus the transit time and less than one second after it.
\<close>

theorem event_time_within_a_second:
  assumes "postcard_format pc" and "circular_queue ops" and "bounded_channel mp" and "calendar lo hi ch"
    and "p = server_main pc ops mp t0 r inputs" and "sp_clock p + w < 2 ^ 53 * SECOND"
    and "server_datagram pc ops (sp_clock p) (\<lambda>t. as_secs (duration_since (sp_clock p + w) t)) (sp_state p) d = Some b"
    and "client_read pc b = Some reply" and "event reply = Some (Logged e n)"
    and "local_nanos ch now = int (sp_clock p + w) + int transit + skew"
    and "lo \<le> skew" and "local_nanos ch now \<le> hi"
  shows "\<exists>t shown. (e, n, t) \<in> set (items ops (events (sp_state p))) \<and> shown_time ch now reply = Some shown \<and>
    int t + skew + int transit \<le> local_nanos ch shown \<and>
    local_nanos ch shown < int t + skew + int transit + int SECOND"
proof -
  obtain t where mem: "(e, n, t) \<in> set (items ops (events (sp_state p)))"
    and ticks: "delta_ticks reply = as_secs (sp_clock p + w - t)"
    by (rule reply_age [OF assms(1,2,7-9)])
  have "t \<in> set (event_times ops mp p)" using mem by (force simp: event_times_def stored_times_def)
  then have t: "t \<le> sp_clock p" using bounded_channel.timely_main [OF assms(3,2), of pc t0 r inputs] assms(5) by (auto simp: timely_def)
  let ?age = "sp_clock p + w - t" and ?s = "delta_ticks reply"
  have "?age < INSTANT_END" using assms(6) by (simp add: INSTANT_END_def SECOND_def)
  then have age: "unat ?s * SECOND \<le> ?age" "?age < unat ?s * SECOND + SECOND"
    using as_secs_bounds [of ?age] ticks by simp_all
  then have "unat ?s * SECOND < 2 ^ 53 * SECOND" using assms(6) by linarith
  then have "unat ?s * 1000 < 2 ^ 63" by simp
  then obtain dur where dur: "from_std ch ?s = Some dur" "duration_nanos ch dur = int (unat ?s * SECOND)"
    using assms(4) unfolding calendar_def by meson
  have shown: "local_nanos ch now - duration_nanos ch dur = int t + skew + int transit + (int ?age - int (unat ?s * SECOND))"
    using t by (simp add: assms(10) dur(2))
  have "lo \<le> local_nanos ch now - duration_nanos ch dur" "local_nanos ch now - duration_nanos ch dur \<le> hi"
    using age(1) assms(11,12) shown dur(2) by linarith+
  then obtain shown where "checked_sub_signed ch now dur = Some shown"
      "local_nanos ch shown = local_nanos ch now - duration_nanos ch dur"
    using assms(4) unfolding calendar_def Let_def by meson
  moreover from this(2) have "int t + skew + int transit \<le> local_nanos ch shown"
      "local_nanos ch shown < int t + skew + int transit + int SECOND"
    using shown age by linarith+
  ultimately show ?thesis
    using mem dur(1) by (intro exI [of _ t] exI [of _ shown]) (simp add: shown_time_def)
qed

theorem event_time_within_a_second_witness:
  "\<exists>reply shown. client_read postcard_v1 (ser_EventReply postcard_v1 (ser_EventOf postcard_v1 (ser_Event postcard_v1)
       (ser_NoEE postcard_v1)) reply) = Some reply \<and> event reply = Some (Logged SomeEvent 3) \<and> delta_ticks reply = 2 \<and>
     shown_time (int_calendar 0 (10 ^ 30)) (10 ^ 18 + 2501000005) reply = Some shown \<and>
     10 ^ 18 + 1000005 \<le> shown \<and> shown < 10 ^ 18 + 1001000005"
proof -
  let ?p = "server_main postcard_v1 list_queue list_channel 5 3 example_inputs" and ?ch = "int_calendar 0 (10 ^ 30)"
  let ?secs = "\<lambda>t. as_secs (duration_since (sp_clock ?p + 0) t)"
  define reply where "reply = event_reply (maybe_event list_queue (sp_clock ?p) (sp_state ?p) None) ?secs"
  define b where "b = ser_EventReply postcard_v1 (ser_EventOf postcard_v1 (ser_Event postcard_v1) (ser_NoEE postcard_v1)) reply"
  define request where "request = ser_CommandRequest postcard_v1 (ser_Command postcard_v1) (client_request client_init)"
  have reply: "event reply = Some (Logged SomeEvent 3)" "delta_ticks reply = 2"
    by (simp_all add: reply_def example_program maybe_event_def find_event_def items_list_queue event_reply_def
          as_secs_def duration_since_def SECOND_def)
  have sent: "server_datagram postcard_v1 list_queue (sp_clock ?p) ?secs (sp_state ?p) request = Some b"
    by (simp add: v1.server_datagram_eq request_def v1.server_reads_request b_def reply_def client_request_def client_init_def)
  have read: "client_read postcard_v1 b = Some reply" by (simp add: b_def v1.client_reads_reply)
  have now: "local_nanos ?ch (10 ^ 18 + 2501000005) = int (sp_clock ?p + 0) + int 1000000 + 10 ^ 18"
    by (simp add: int_calendar_def example_program)
  have small: "sp_clock ?p + 0 < 2 ^ 53 * SECOND" by (simp add: example_program SECOND_def)
  obtain t shown where "(SomeEvent, 3, t) \<in> set (items list_queue (events (sp_state ?p)))"
      "shown_time ?ch (10 ^ 18 + 2501000005) reply = Some shown"
      "int t + 10 ^ 18 + int 1000000 \<le> local_nanos ?ch shown"
      "local_nanos ?ch shown < int t + 10 ^ 18 + int 1000000 + int SECOND"
    using event_time_within_a_second [OF v1.postcard_format_axioms circular_list_queue list_mpsc.bounded_channel_axioms calendar_int refl small sent read reply(1) now]
    by (auto simp: int_calendar_def)
  then show ?thesis
    using reply read by (intro exI [of _ reply] exI [of _ shown])
      (simp add: b_def example_program items_list_queue int_calendar_def SECOND_def)
qed

end
