(* ===== verification/Socket_Addr.thy ===== *)
theory Socket_Addr
  imports Rust_Std
begin

text \<open>
  Socket addresses of the Rust standard library, as far as the example programs use them:
  \<open>SocketAddr::from_str\<close>, the parser of \<open>core::net\<close> for both families, \<open>is_ipv4\<close>, and \<open>Display\<close> for the
  addresses of version 4. And what the two programs of the application layer do with them before they
  bind their sockets (\<open>app/examples/client/main.rs\<close>, \<open>app/examples/server/main.rs\<close>).
\<close>

section \<open>The parser\<close>

datatype SocketAddr =
    SocketAddrV4 u8 u8 u8 u8 u16
  | SocketAddrV6 "u16 list" u32 u16

type_synonym 'a reader = "string \<Rightarrow> ('a \<times> string) option"

definition read_given_char :: "char \<Rightarrow> string \<Rightarrow> string option" where
  "read_given_char c s = (case s of x # xs \<Rightarrow> if x = c then Some xs else None | [] \<Rightarrow> None)"

definition to_digit :: "nat \<Rightarrow> char \<Rightarrow> nat option" where
  "to_digit radix c =
     (let k = (of_char c :: nat);
          d = (if 48 \<le> k \<and> k \<le> 57 then Some (k - 48)
               else if 97 \<le> k \<and> k \<le> 122 then Some (k - 87)
               else if 65 \<le> k \<and> k \<le> 90 then Some (k - 55) else None)
      in case d of Some n \<Rightarrow> if n < radix then Some n else None | None \<Rightarrow> None)"

fun read_digits :: "nat \<Rightarrow> string \<Rightarrow> nat list \<times> string" where
  "read_digits radix [] = ([], [])"
| "read_digits radix (c # cs) =
     (case to_digit radix c of
        Some d \<Rightarrow> (let (ds, rest) = read_digits radix cs in (d # ds, rest))
      | None \<Rightarrow> ([], c # cs))"

text \<open>
  A number below \<open>bound\<close>, of at most \<open>max_digits\<close> digits if that is given, and without superfluous zeros
  unless they are allowed.
\<close>

definition read_number :: "nat \<Rightarrow> nat option \<Rightarrow> bool \<Rightarrow> nat \<Rightarrow> nat reader" where
  "read_number radix max_digits allow_zero_prefix bound s =
     (let (ds, rest) = read_digits radix s;
          n = foldl (\<lambda>n d. n * radix + d) 0 ds
      in if ds = [] \<or> (case max_digits of Some k \<Rightarrow> k < length ds | None \<Rightarrow> False) \<or>
            \<not> allow_zero_prefix \<and> hd ds = 0 \<and> 1 < length ds \<or> bound \<le> n
         then None else Some (n, rest))"

definition read_separator :: "char \<Rightarrow> nat \<Rightarrow> 'a reader \<Rightarrow> 'a reader" where
  "read_separator sep i read s = (if 0 < i then Option.bind (read_given_char sep s) read else read s)"

definition read_octet :: "nat \<Rightarrow> nat reader" where
  "read_octet i = read_separator (CHR ''.'') i (read_number 10 (Some 3) False 256)"

definition read_ipv4_addr :: "(nat \<times> nat \<times> nat \<times> nat) reader" where
  "read_ipv4_addr s = do {
     (a, s) \<leftarrow> read_octet 0 s;
     (b, s) \<leftarrow> read_octet 1 s;
     (c, s) \<leftarrow> read_octet 2 s;
     (d, s) \<leftarrow> read_octet 3 s;
     Some ((a, b, c, d), s)
   }"

text \<open>
  Up to \<open>n\<close> groups of an address of version 6, from group \<open>i\<close> on; the last two may be written as an
  address of version 4, which ends them.
\<close>

fun read_groups :: "nat \<Rightarrow> nat \<Rightarrow> string \<Rightarrow> nat list \<times> bool \<times> string" where
  "read_groups 0 i s = ([], False, s)"
| "read_groups (Suc n) i s =
     (case (if 0 < n then read_separator (CHR '':'') i read_ipv4_addr s else None) of
        Some ((a, b, c, d), s) \<Rightarrow> ([a * 256 + b, c * 256 + d], True, s)
      | None \<Rightarrow>
          (case read_separator (CHR '':'') i (read_number 16 (Some 4) True 65536) s of
             Some (g, s) \<Rightarrow> (let (gs, v4, s) = read_groups n (Suc i) s in (g # gs, v4, s))
           | None \<Rightarrow> ([], False, s)))"

definition read_ipv6_addr :: "nat list reader" where
  "read_ipv6_addr s =
     (let (head, head_ipv4, s) = read_groups 8 0 s
      in if length head = 8 then Some (head, s)
         else if head_ipv4 then None
         else do {
           s \<leftarrow> read_given_char (CHR '':'') s;
           s \<leftarrow> read_given_char (CHR '':'') s;
           let (tail, _, s) = read_groups (8 - (length head + 1)) 0 s
           in Some (head @ replicate (8 - length head - length tail) 0 @ tail, s)
         })"

definition read_port :: "nat reader" where
  "read_port s = Option.bind (read_given_char (CHR '':'') s) (read_number 10 None True 65536)"

definition read_scope_id :: "nat reader" where
  "read_scope_id s = Option.bind (read_given_char (CHR ''%'') s) (read_number 10 None True (2 ^ 32))"

definition read_socket_addr_v4 :: "SocketAddr reader" where
  "read_socket_addr_v4 s = do {
     ((a, b, c, d), s) \<leftarrow> read_ipv4_addr s;
     (port, s) \<leftarrow> read_port s;
     Some (SocketAddrV4 (of_nat a) (of_nat b) (of_nat c) (of_nat d) (of_nat port), s)
   }"

definition read_socket_addr_v6 :: "SocketAddr reader" where
  "read_socket_addr_v6 s = do {
     s \<leftarrow> read_given_char (CHR ''['') s;
     (groups, s) \<leftarrow> read_ipv6_addr s;
     let (scope_id, s) = (case read_scope_id s of Some r \<Rightarrow> r | None \<Rightarrow> (0, s)) in do {
       s \<leftarrow> read_given_char (CHR '']'') s;
       (port, s) \<leftarrow> read_port s;
       Some (SocketAddrV6 (map of_nat groups) (of_nat scope_id) (of_nat port), s)
     }
   }"

datatype AddrParseError = AddrParseError

definition socket_addr_from_str :: "string \<Rightarrow> AddrParseError + SocketAddr" where
  "socket_addr_from_str s =
     (case (case read_socket_addr_v4 s of Some r \<Rightarrow> Some r | None \<Rightarrow> read_socket_addr_v6 s) of
        Some (a, []) \<Rightarrow> Inr a
      | _ \<Rightarrow> Inl AddrParseError)"

fun is_ipv4 :: "SocketAddr \<Rightarrow> bool" where
  "is_ipv4 (SocketAddrV4 _ _ _ _ _) = True"
| "is_ipv4 (SocketAddrV6 _ _ _) = False"

fun is_unspecified :: "SocketAddr \<Rightarrow> bool" where
  "is_unspecified (SocketAddrV4 a b c d port) \<longleftrightarrow> a = 0 \<and> b = 0 \<and> c = 0 \<and> d = 0 \<and> port = 0"
| "is_unspecified (SocketAddrV6 gs scope port) \<longleftrightarrow> gs = replicate 8 0 \<and> scope = 0 \<and> port = 0"

text \<open>\<open>Display\<close> for an address of version 4.\<close>

definition display_v4 :: "u8 \<Rightarrow> u8 \<Rightarrow> u8 \<Rightarrow> u8 \<Rightarrow> u16 \<Rightarrow> string" where
  "display_v4 a b c d port =
     show_nat (unat a) @ ''.'' @ show_nat (unat b) @ ''.'' @ show_nat (unat c) @ ''.'' @ show_nat (unat d) @
     '':'' @ show_nat (unat port)"

section \<open>The addresses of the programs\<close>

definition DEFAULT_ADDR :: string where "DEFAULT_ADDR = ''127.0.0.1:8080''"

definition argument_or_default :: "string list \<Rightarrow> string" where
  "argument_or_default args = (if 1 < length args then args ! 1 else DEFAULT_ADDR)"

definition server_local_addr :: "string list \<Rightarrow> AddrParseError + SocketAddr" where
  "server_local_addr args = socket_addr_from_str (argument_or_default args)"

definition client_addrs :: "string list \<Rightarrow> AddrParseError + SocketAddr \<times> SocketAddr" where
  "client_addrs args =
     (case socket_addr_from_str (argument_or_default args) of
        Inl e \<Rightarrow> Inl e
      | Inr remote_addr \<Rightarrow>
          (case socket_addr_from_str (if is_ipv4 remote_addr then ''0.0.0.0:0'' else ''[::]:0'') of
             Inl e \<Rightarrow> Inl e
           | Inr local_addr \<Rightarrow> Inr (remote_addr, local_addr)))"

section \<open>What is printed is parsed\<close>

fun dec_digits :: "nat \<Rightarrow> nat list" where
  "dec_digits n = (if n < 10 then [n] else dec_digits (n div 10) @ [n mod 10])"

declare dec_digits.simps [simp del]

lemma to_digit_char [simp]: "d < 10 \<Longrightarrow> to_digit 10 (digit_char d) = Some d"
  by (simp add: to_digit_def digit_char_def Let_def)

lemma read_digits_show_nat:
  assumes "read_digits 10 r = (ds, r')"
  shows "read_digits 10 (show_nat n @ r) = (dec_digits n @ ds, r')"
  using assms
proof (induction n arbitrary: r ds rule: dec_digits.induct)
  case (1 n)
  show ?case
  proof (cases "n < 10")
    case True
    then show ?thesis using 1(2) by (simp add: show_nat.simps [of n] dec_digits.simps [of n])
  next
    case False
    have "read_digits 10 (digit_char (n mod 10) # r) = (n mod 10 # ds, r')" using 1(2) by simp
    with 1(1) [OF False this] False show ?thesis by (simp add: show_nat.simps [of n] dec_digits.simps [of n])
  qed
qed

lemma dec_digits_props:
  "dec_digits n \<noteq> []" "foldl (\<lambda>n d. n * 10 + d) 0 (dec_digits n) = n" "hd (dec_digits n) = 0 \<longleftrightarrow> n = 0"
proof (induction n rule: dec_digits.induct)
  case (1 n)
  {
    case 1
    show ?case by (simp add: dec_digits.simps [of n])
  next
    case 2
    show ?case using 1(2) by (auto simp: dec_digits.simps [of n])
  next
    case 3
    show ?case using 1(1,3) by (auto simp: dec_digits.simps [of n] hd_append)
  }
qed

lemma length_dec_digits: "n < 10 ^ Suc k \<Longrightarrow> length (dec_digits n) \<le> Suc k"
proof (induction k arbitrary: n)
  case (Suc k)
  then have "n div 10 < 10 ^ Suc k" by (simp add: less_mult_imp_div_less mult.commute)
  with Suc.IH show ?case by (auto simp: dec_digits.simps [of n])
qed (simp add: dec_digits.simps)

lemma read_number_show_nat:
  assumes "n < bound" and "read_digits 10 r = ([], r)" and "case k of Some k \<Rightarrow> \<exists>j. k = Suc j \<and> n < 10 ^ k | None \<Rightarrow> True"
  shows "read_number 10 k z bound (show_nat n @ r) = Some (n, r)"
proof -
  have "read_digits 10 (show_nat n @ r) = (dec_digits n, r)" using read_digits_show_nat [OF assms(2), of n] by simp
  moreover have "length (dec_digits 0) = 1" by (simp add: dec_digits.simps [of 0])
  ultimately show ?thesis
    using assms(1,3) length_dec_digits [of n] by (fastforce simp: read_number_def dec_digits_props split: option.splits)
qed

lemma not_digit [simp]:
  "to_digit 10 (CHR ''.'') = None" "to_digit 10 (CHR '':'') = None" "to_digit 16 (CHR '':'') = None"
  "to_digit 16 (CHR '']'') = None" "to_digit 10 (CHR '']'') = None" "to_digit 10 (CHR ''['') = None"
  by (simp_all add: to_digit_def)

lemma read_octet_show_nat:
  "n < 256 \<Longrightarrow> read_digits 10 r = ([], r) \<Longrightarrow> read_octet 0 (show_nat n @ r) = Some (n, r)"
  "n < 256 \<Longrightarrow> read_digits 10 r = ([], r) \<Longrightarrow> 0 < i \<Longrightarrow> read_octet i (CHR ''.'' # show_nat n @ r) = Some (n, r)"
proof -
  assume "n < 256" "read_digits 10 r = ([], r)"
  then have number: "read_number 10 (Some 3) False 256 (show_nat n @ r) = Some (n, r)"
    by (intro read_number_show_nat) (auto intro: exI [of _ 2])
  then show "read_octet 0 (show_nat n @ r) = Some (n, r)"
    by (simp add: read_octet_def read_separator_def)
  show "0 < i \<Longrightarrow> read_octet i (CHR ''.'' # show_nat n @ r) = Some (n, r)"
    using number by (simp add: read_octet_def read_separator_def read_given_char_def)
qed

lemma display_v4_parsed: "socket_addr_from_str (display_v4 a b c d port) = Inr (SocketAddrV4 a b c d port)"
proof -
  have byte: "unat x < 256" for x :: u8 using unat_u8_less .
  have "unat port < 2 ^ LENGTH(16)" by (rule unsigned_less)
  then have "read_number 10 None True 65536 (show_nat (unat port) @ []) = Some (unat port, [])"
    by (intro read_number_show_nat) simp_all
  then have "read_socket_addr_v4 (display_v4 a b c d port) = Some (SocketAddrV4 a b c d port, [])"
    by (simp add: read_socket_addr_v4_def read_ipv4_addr_def display_v4_def read_octet_show_nat byte read_port_def read_given_char_def)
  then show ?thesis by (simp add: socket_addr_from_str_def)
qed

lemma no_groups:
  assumes "read_digits 10 s = ([], s)" and "read_digits 16 s = ([], s)"
  shows "read_groups n 0 s = ([], False, s)"
  using assms by (cases n) (simp_all add: read_separator_def read_ipv4_addr_def read_octet_def read_number_def)

lemma fixed_addrs:
  "socket_addr_from_str ''0.0.0.0:0'' = Inr (SocketAddrV4 0 0 0 0 0)"
  "socket_addr_from_str ''127.0.0.1:8080'' = Inr (SocketAddrV4 127 0 0 1 8080)"
  "socket_addr_from_str ''[::]:0'' = Inr (SocketAddrV6 (replicate 8 0) 0 0)"
proof -
  have "display_v4 0 0 0 0 0 = ''0.0.0.0:0''" by (simp add: display_v4_def show_nat.simps digit_char_def char_of_eq_iff)
  with display_v4_parsed [of 0 0 0 0 0] show "socket_addr_from_str ''0.0.0.0:0'' = Inr (SocketAddrV4 0 0 0 0 0)" by simp
  have "display_v4 127 0 0 1 8080 = ''127.0.0.1:8080''" by (simp add: display_v4_def show_nat.simps digit_char_def char_of_eq_iff)
  with display_v4_parsed [of 127 0 0 1 8080] show "socket_addr_from_str ''127.0.0.1:8080'' = Inr (SocketAddrV4 127 0 0 1 8080)"
    by simp
  have "show_nat 0 = ''0''" by (simp add: show_nat.simps digit_char_def char_of_eq_iff)
  then have port: "read_number 10 None True 65536 ''0'' = Some (0, [])"
    using read_number_show_nat [of 0 65536 "[]" None True] by simp
  have "read_socket_addr_v4 ''[::]:0'' = None"
    by (simp add: read_socket_addr_v4_def read_ipv4_addr_def read_octet_def read_separator_def read_number_def)
  moreover have "read_socket_addr_v6 ''[::]:0'' = Some (SocketAddrV6 (replicate 8 0) 0 0, [])"
    by (simp add: read_socket_addr_v6_def read_ipv6_addr_def no_groups read_given_char_def read_scope_id_def read_port_def port)
  ultimately show "socket_addr_from_str ''[::]:0'' = Inr (SocketAddrV6 (replicate 8 0) 0 0)"
    by (simp add: socket_addr_from_str_def)
qed

text \<open>The client's own address is unspecified and of the family of the server's.\<close>

lemma client_addrs_local:
  assumes "socket_addr_from_str (argument_or_default args) = Inr remote"
  obtains here where "client_addrs args = Inr (remote, here)" "is_ipv4 here = is_ipv4 remote" "is_unspecified here"
  using assms that by (cases "is_ipv4 remote") (auto simp: client_addrs_def fixed_addrs)

end
