(* ===== verification/App_Main.thy ===== *)
theory App_Main
  imports App_Program Socket_Addr
begin

text \<open>
  The \<open>main\<close> functions of the two programs of the application layer as they are started, from the
  command line on (\<open>app/examples/server/main.rs\<close>, \<open>app/examples/client/main.rs\<close>). Whether the system
  lets a program have an address is the argument \<open>binds\<close>.
\<close>

datatype MainError = AddrError AddrParseError | BindError

definition server_entry ::
    "'pe postcard \<Rightarrow> ('q, nat entry) queue_ops \<Rightarrow> 'ch mpsc \<Rightarrow> (SocketAddr \<Rightarrow> bool) \<Rightarrow> string list \<Rightarrow> nat \<Rightarrow> nat
      \<Rightarrow> ServerInput list \<Rightarrow> MainError + SocketAddr \<times> ('q, 'ch) ServerProgram" where
  "server_entry pc ops mp binds args t0 r inputs =
     (case server_local_addr args of
        Inl e \<Rightarrow> Inl (AddrError e)
      | Inr local_addr \<Rightarrow>
          if binds local_addr then Inr (local_addr, server_main pc ops mp t0 r inputs) else Inl BindError)"

definition client_entry ::
    "'pe postcard \<Rightarrow> (SocketAddr \<Rightarrow> bool) \<Rightarrow> string list \<Rightarrow> nat \<Rightarrow> (nat \<times> bytes) option list
      \<Rightarrow> MainError + SocketAddr \<times> SocketAddr \<times> ClientProgram exec" where
  "client_entry pc binds args t0 arrivals =
     (case client_addrs args of
        Inl e \<Rightarrow> Inl (AddrError e)
      | Inr (remote_addr, local_addr) \<Rightarrow>
          if binds local_addr then Inr (remote_addr, local_addr, client_main pc t0 arrivals) else Inl BindError)"

section \<open>How the programs start\<close>

text \<open>
  How the two application programs start: an argument that is no socket address is an error
  of both; otherwise the server binds to that address and the client to an unspecified address of
  the same family with the server's as its target, and each runs, or returns an error when the
  system refuses the address. Without an argument both use 127.0.0.1:8080, and the printed form of
  every address of version 4 is accepted.
\<close>

lemma programs_start:
  "(case socket_addr_from_str (argument_or_default args) of
      Inl e \<Rightarrow>
        server_entry pc ops mp binds args t0 r inputs = Inl (AddrError e) \<and>
        client_entry pc binds args t0 arrivals = Inl (AddrError e)
    | Inr a \<Rightarrow>
        server_entry pc ops mp binds args t0 r inputs =
          (if binds a then Inr (a, server_main pc ops mp t0 r inputs) else Inl BindError) \<and>
        (\<exists>here. is_ipv4 here = is_ipv4 a \<and> is_unspecified here \<and>
           client_entry pc binds args t0 arrivals =
             (if binds here then Inr (a, here, client_main pc t0 arrivals) else Inl BindError))) \<and>
   socket_addr_from_str (argument_or_default [name]) = Inr (SocketAddrV4 127 0 0 1 8080) \<and>
   socket_addr_from_str (argument_or_default (name # display_v4 a b c d port # rest)) = Inr (SocketAddrV4 a b c d port)"
proof (intro conjI)
  show "case socket_addr_from_str (argument_or_default args) of
      Inl e \<Rightarrow>
        server_entry pc ops mp binds args t0 r inputs = Inl (AddrError e) \<and>
        client_entry pc binds args t0 arrivals = Inl (AddrError e)
    | Inr a \<Rightarrow>
        server_entry pc ops mp binds args t0 r inputs =
          (if binds a then Inr (a, server_main pc ops mp t0 r inputs) else Inl BindError) \<and>
        (\<exists>here. is_ipv4 here = is_ipv4 a \<and> is_unspecified here \<and>
           client_entry pc binds args t0 arrivals =
             (if binds here then Inr (a, here, client_main pc t0 arrivals) else Inl BindError))"
  proof (cases "socket_addr_from_str (argument_or_default args)")
    case (Inl e)
    then show ?thesis by (simp add: server_entry_def client_entry_def server_local_addr_def client_addrs_def)
  next
    case (Inr a)
    then obtain here where "client_addrs args = Inr (a, here)" "is_ipv4 here = is_ipv4 a" "is_unspecified here"
      by (rule client_addrs_local)
    with Inr show ?thesis
      by (auto simp: server_entry_def client_entry_def server_local_addr_def)
  qed
qed (simp_all add: argument_or_default_def DEFAULT_ADDR_def fixed_addrs display_v4_parsed)

end
