(* ===== verification/App_Tests.thy ===== *)
theory App_Tests
  imports App_Messages
begin

text \<open>
  The unit tests of the application layer (\<open>app/src/lib.rs\<close>, module \<open>tests\<close>), each one a computation
  that panics when an assertion of the test fails. The enumerations that the tests declare have their
  derived codecs, and the wire format is a parameter. That every test passes ties the definitions of
  the model to the bytes that the authors expect.
\<close>

section \<open>The enumerations of the tests\<close>

datatype TestCommand = TestCommandA | TestCommandB | TestCommandC

datatype TestEvent = TestEventA | TestEventB

datatype TestTelemetry = TestTelemetryA

text \<open>The derived codec of an enumeration without fields: the index of the variant.\<close>

definition ser_enum :: "'pe postcard \<Rightarrow> 'a list \<Rightarrow> 'a \<Rightarrow> bytes" where
  "ser_enum pc variants x = ser_variant pc (length (takeWhile (\<lambda>y. y \<noteq> x) variants))"

definition de_enum :: "'pe postcard \<Rightarrow> 'a list \<Rightarrow> ('pe, 'a) decoder" where
  "de_enum pc variants =
     de_then (de_variant pc) (\<lambda>n. if n < length variants then de_return (variants ! n) else de_error pc)"

definition test_commands :: "TestCommand list" where
  "test_commands = [TestCommandA, TestCommandB, TestCommandC]"

definition test_events :: "TestEvent list" where
  "test_events = [TestEventA, TestEventB]"

definition test_telemetry :: "TestTelemetry list" where
  "test_telemetry = [TestTelemetryA]"

section \<open>The tests\<close>

definition test_command_serialisation_with_a_command :: "'pe postcard \<Rightarrow> unit exec" where
  "test_command_serialisation_with_a_command pc = (
     let request = \<lparr>last_event_offset = Some 9, command = Some TestCommandC\<rparr>;
         buf = replicate 32 0
     in do {
       (serialised, buf) \<leftarrow> unwrap
         (write_slice pc (ser_CommandRequest pc (ser_enum pc test_commands) request) buf);
       assert (serialised = [1, 9, 2]);
       r \<leftarrow> unwrap (de_CommandRequest pc (de_enum pc test_commands) serialised);
       assert (r = \<lparr>last_event_offset = Some 9, command = Some TestCommandC\<rparr>)
     })"

text \<open>The commands of this test are \<open>A\<close> and \<open>B\<close>, as the events of the others are.\<close>

definition test_command_serialisation_with_no_command :: "'pe postcard \<Rightarrow> unit exec" where
  "test_command_serialisation_with_no_command pc = (
     let request = \<lparr>last_event_offset = None, command = (None :: TestEvent option)\<rparr>;
         buf = replicate 32 0
     in do {
       (serialised, buf) \<leftarrow> unwrap
         (write_slice pc (ser_CommandRequest pc (ser_enum pc test_events) request) buf);
       assert (serialised = [0]);
       r \<leftarrow> unwrap (de_CommandRequest pc (de_enum pc test_events) serialised);
       assert (r = \<lparr>last_event_offset = None, command = None\<rparr>)
     })"

definition test_event_serialisation :: "'pe postcard \<Rightarrow> unit exec" where
  "test_event_serialisation pc = (
     let reply = event_reply (Some (Logged TestEventB 9, 0 :: int)) (\<lambda>_. 10);
         buf = replicate 32 0
     in do {
       (serialised, buf) \<leftarrow> unwrap (write_slice pc
         (ser_EventReply pc (ser_EventOf pc (ser_enum pc test_events) (ser_NoEE pc)) reply) buf);
       assert (serialised = [10, 0, 1, 9]);
       r \<leftarrow> unwrap
         (de_EventReply pc (de_EventOf pc (de_enum pc test_events) (de_NoEE pc)) serialised);
       assert (r = \<lparr>delta_ticks = 10, event = Some (Logged TestEventB 9)\<rparr>)
     })"

definition test_event_serialisation_with_no_more_events :: "'pe postcard \<Rightarrow> unit exec" where
  "test_event_serialisation_with_no_more_events pc = (
     let reply = event_reply (None :: ((TestEvent, NoEE) EventOf \<times> int) option) (\<lambda>_. 10);
         buf = replicate 32 0
     in do {
       (serialised, buf) \<leftarrow> unwrap (write_slice pc
         (ser_EventReply pc (ser_EventOf pc (ser_enum pc test_events) (ser_NoEE pc)) reply) buf);
       assert (serialised = [0]);
       r \<leftarrow> unwrap
         (de_EventReply pc (de_EventOf pc (de_enum pc test_events) (de_NoEE pc)) serialised);
       assert (r = \<lparr>delta_ticks = 0, event = None\<rparr>)
     })"

definition test_event_serialisation_with_either :: "'pe postcard \<Rightarrow> unit exec" where
  "test_event_serialisation_with_either pc = (
     let ser = ser_EventReply pc (ser_EventOf pc (ser_enum pc test_events) (ser_enum pc test_telemetry));
         de = de_EventReply pc (de_EventOf pc (de_enum pc test_events) (de_enum pc test_telemetry));
         buf = replicate 32 0
     in do {
       (serialised, _) \<leftarrow> unwrap
         (write_slice pc (ser (event_reply (Some (Logged TestEventB 9, 0 :: int)) (\<lambda>_. 10))) buf);
       assert (serialised = [10, 0, 1, 9]);
       r \<leftarrow> unwrap (de serialised);
       assert (r = \<lparr>delta_ticks = 10, event = Some (Logged TestEventB 9)\<rparr>);
       (serialised, _) \<leftarrow> unwrap
         (write_slice pc (ser (event_reply (Some (Ephemeral TestTelemetryA, 0 :: int)) (\<lambda>_. 10))) buf);
       assert (serialised = [10, 1, 0]);
       r \<leftarrow> unwrap (de serialised);
       assert (r = \<lparr>delta_ticks = 10, event = Some (Ephemeral TestTelemetryA)\<rparr>)
     })"

section \<open>Properties\<close>

text \<open>
  The messages are evaluated by the definitions of the model, one test at a time.
\<close>

lemmas test_defs = ser_enum_def de_enum_def test_commands_def test_events_def test_telemetry_def
  ser_NoEE_def de_NoEE_def ser_CommandRequest_def de_CommandRequest_def ser_EventReply_def
  de_EventReply_def de_EventOf_def event_reply_def serialise_last_field_def
  deserialise_last_field_def de_opt_def

lemma command_tests:
  "test_command_serialisation_with_a_command postcard_v1 = Some ()"
  "test_command_serialisation_with_no_command postcard_v1 = Some ()"
  by (simp_all add: test_command_serialisation_with_a_command_def
        test_command_serialisation_with_no_command_def test_defs wire v1_defs)

lemma event_tests:
  "test_event_serialisation postcard_v1 = Some ()"
  "test_event_serialisation_with_no_more_events postcard_v1 = Some ()"
  "test_event_serialisation_with_either postcard_v1 = Some ()"
  by (simp_all add: test_event_serialisation_def test_event_serialisation_with_no_more_events_def
        test_event_serialisation_with_either_def test_defs wire v1_defs)

text \<open>No test of \<open>app/src/lib.rs\<close> panics.\<close>

lemma app_unit_tests_pass:
  "test_command_serialisation_with_a_command postcard_v1 = Some () \<and>
   test_command_serialisation_with_no_command postcard_v1 = Some () \<and>
   test_event_serialisation postcard_v1 = Some () \<and>
   test_event_serialisation_with_no_more_events postcard_v1 = Some () \<and>
   test_event_serialisation_with_either postcard_v1 = Some ()"
  by (simp add: command_tests event_tests)

end
