(* ===== verification/Data_Link.thy ===== *)
theory Data_Link
  imports Wire_Format
begin

unbundle bit_operations_syntax

text \<open>
  The data link layer (\<open>data/src/lib.rs\<close>): the frame header with its packing into four bytes and its
  parser, the nonce, the data frame, and the two functions that turn a payload into a datagram of
  fixed length and back. \<open>cipher\<close> is any authenticated cipher (\<open>aead::AeadInPlace\<close>) and \<open>ext\<close> the
  \<open>extend_from_slice\<close> of \<open>heapless::Vec\<close>; neither is part of the repository, and what is relied on of
  them is stated by \<open>aead_cipher\<close> and \<open>heapless_vec\<close>.
\<close>

section \<open>Headers\<close>

definition HEADER_SIZE :: nat where "HEADER_SIZE = 6"

definition MIC_SIZE :: nat where "MIC_SIZE = 4"

definition NONCE_SIZE :: nat where "NONCE_SIZE = 7"

datatype DataSource = Client | Server

datatype HeaderParseError = HeaderParseError

record Header =
  version :: u8
  source :: DataSource
  server_address :: u8
  server_port :: u8
  frame_counter :: u16

type_synonym packed = "u8 \<times> u8 \<times> u8 \<times> u8"

definition to_packed :: "Header \<Rightarrow> packed" where
  "to_packed self =
     (let src = (of_bool (source self = Server) :: u32);
          header = push_bit 2 src
            OR push_bit 3 (ucast (server_address self) AND 0xFF)
            OR push_bit 11 (ucast (server_port self) AND 0x07)
            OR push_bit 16 (ucast (frame_counter self) AND 0xFFFF)
      in (ucast (drop_bit 24 (header AND 0xFF000000)),
          ucast (drop_bit 16 (header AND 0x00FF0000)),
          ucast (drop_bit 8 (header AND 0x0000FF00)),
          ucast (header AND 0x000000FF)))"

fun parse :: "packed \<Rightarrow> HeaderParseError + Header" where
  "parse (h0, h1, h2, h3) =
     (let header = push_bit 24 (ucast h0 :: u32) OR push_bit 16 (ucast h1) OR push_bit 8 (ucast h2) OR ucast h3;
          ver = header AND 0x02;
          src = (let b = drop_bit 2 header AND 0x01 in
                 if b = 0 then Some Client else if b = 1 then Some Server else None);
          address = drop_bit 3 header AND 0xFF;
          port = drop_bit 11 header AND 0x07;
          counter = drop_bit 16 header AND 0xFFFF
      in if ver = 0 then
           (case src of
              Some s \<Rightarrow>
                Inr \<lparr>version = 0, source = s, server_address = ucast address,
                     server_port = ucast port, frame_counter = ucast counter\<rparr>
            | None \<Rightarrow> Inl HeaderParseError)
         else Inl HeaderParseError)"

section \<open>Frames and nonces\<close>

record DataFrame =
  header :: packed
  encrypted_payload :: bytes

fun packed_bytes :: "packed \<Rightarrow> bytes" where
  "packed_bytes (h0, h1, h2, h3) = [h0, h1, h2, h3]"

fun new_nonce :: "packed \<Rightarrow> nat \<Rightarrow> bytes" where
  "new_nonce (h0, h1, h2, h3) payload_len = [0x01, h0, h1, h2, h3, of_nat payload_len, 0x00]"

definition ser_DataFrame :: "'pe postcard \<Rightarrow> DataFrame \<Rightarrow> bytes" where
  "ser_DataFrame pc f =
     ser_array pc (packed_bytes (header f)) @
     ser_len pc (length (encrypted_payload f)) @ ser_array pc (encrypted_payload f)"

definition de_DataFrame :: "'pe postcard \<Rightarrow> ('pe, DataFrame) decoder" where
  "de_DataFrame pc =
     de_then (de_u8 pc) (\<lambda>h0. de_then (de_u8 pc) (\<lambda>h1. de_then (de_u8 pc) (\<lambda>h2. de_then (de_u8 pc) (\<lambda>h3.
     de_then (de_bytes pc) (\<lambda>p. de_return \<lparr>header = (h0, h1, h2, h3), encrypted_payload = p\<rparr>)))))"

section \<open>Datagrams\<close>

datatype 'pe FromDatagramError =
  CannotParseDataFrame 'pe | CannotParseHeader | FilterDoesNotMatch | CannotDecrypt

text \<open>
  A cipher keyed for use: the nonce size its type fixes, and encryption and decryption of a buffer in
  place, given the nonce, the associated data and, for encryption, the capacity of the buffer (the
  tag is appended to it). \<open>None\<close> is the error of the cipher. A \<open>GenericArray\<close> of the wrong length panics.
\<close>

record aead =
  nonce_size :: nat
  encrypt_in_place :: "bytes \<Rightarrow> bytes \<Rightarrow> nat \<Rightarrow> bytes \<Rightarrow> bytes option"
  decrypt_in_place :: "bytes \<Rightarrow> bytes \<Rightarrow> bytes \<Rightarrow> bytes option"

type_synonym extend = "nat \<Rightarrow> bytes \<Rightarrow> bytes \<Rightarrow> bytes option"

definition from_datagram ::
    "'pe postcard \<Rightarrow> extend \<Rightarrow> bytes \<Rightarrow> (Header \<Rightarrow> bool) \<Rightarrow> aead \<Rightarrow>
     ('pe FromDatagramError + Header \<times> bytes) exec" where
  "from_datagram pc ext datagram_buf filt cipher =
     (case map_err CannotParseDataFrame (from_bytes (de_DataFrame pc) datagram_buf) of
        Inl e \<Rightarrow> Some (Inl e)
      | Inr data_frame \<Rightarrow>
     (case map_err (\<lambda>_. CannotParseHeader) (parse (header data_frame)) of
        Inl e \<Rightarrow> Some (Inl e)
      | Inr h \<Rightarrow>
          if \<not> filt h then Some (Inl FilterDoesNotMatch)
          else
            let nonce = new_nonce (header data_frame)
                  (max (length (encrypted_payload data_frame)) MIC_SIZE - MIC_SIZE);
                crypt_payload_buf =
                  (case ext (length datagram_buf) [] (encrypted_payload data_frame) of
                     Some v \<Rightarrow> v | None \<Rightarrow> [])
            in do {
              assert (length nonce = nonce_size cipher);
              case decrypt_in_place cipher nonce (packed_bytes (header data_frame)) crypt_payload_buf of
                None \<Rightarrow> Some (Inl CannotDecrypt)
              | Some payload \<Rightarrow> Some (Inr (h, payload))
            }))"

definition to_datagram ::
    "'pe postcard \<Rightarrow> extend \<Rightarrow> aead \<Rightarrow> Header \<Rightarrow> bytes \<Rightarrow> bytes \<Rightarrow> bytes exec" where
  "to_datagram pc ext cipher h payload_buf datagram_buf = (
     let packed_header = to_packed h;
         nonce = new_nonce packed_header (length payload_buf)
     in do {
       crypt_payload_buf \<leftarrow> ext (length datagram_buf) [] payload_buf;
       assert (length nonce = nonce_size cipher);
       crypt_payload_buf \<leftarrow>
         encrypt_in_place cipher nonce (packed_bytes packed_header) (length datagram_buf) crypt_payload_buf;
       (used, datagram_buf) \<leftarrow> unwrap (write_slice pc
          (ser_DataFrame pc \<lparr>header = packed_header, encrypted_payload = crypt_payload_buf\<rparr>) datagram_buf);
       Some datagram_buf
     })"

section \<open>The bits of a header\<close>

text \<open>The big-endian word of a packed header.\<close>

fun packed_word :: "packed \<Rightarrow> u32" where
  "packed_word (h0, h1, h2, h3) =
     push_bit 24 (ucast h0) OR push_bit 16 (ucast h1) OR push_bit 8 (ucast h2) OR ucast h3"

lemma mask_numerals:
  "(0xFF :: u32) = mask 8" "(0x07 :: u32) = mask 3" "(0xFFFF :: u32) = mask 16" "(1 :: u32) = mask 1"
  "(0xFF000000 :: u32) = push_bit 24 (mask 8)" "(0x00FF0000 :: u32) = push_bit 16 (mask 8)"
  "(0x0000FF00 :: u32) = push_bit 8 (mask 8)" "(2 :: u32) = push_bit 1 (mask 1)"
  "(7 :: u8) = mask 3"
  by (simp_all add: mask_eq_exp_minus_1 push_bit_eq_mult)

definition header_word :: "Header \<Rightarrow> u32" where
  "header_word h =
     push_bit 2 (of_bool (source h = Server)) OR push_bit 3 (ucast (server_address h) AND 0xFF)
       OR push_bit 11 (ucast (server_port h) AND 0x07) OR push_bit 16 (ucast (frame_counter h) AND 0xFFFF)"

fun word_packed :: "u32 \<Rightarrow> packed" where
  "word_packed w =
     (ucast (drop_bit 24 (w AND 0xFF000000)), ucast (drop_bit 16 (w AND 0x00FF0000)),
      ucast (drop_bit 8 (w AND 0x0000FF00)), ucast (w AND 0x000000FF))"

declare packed_word.simps [simp del] word_packed.simps [simp del]

lemma to_packed_word: "to_packed h = word_packed (header_word h)"
  by (simp only: to_packed_def Let_def header_word_def word_packed.simps)

lemma u32_byte_cases:
  fixes n :: nat
  assumes "n < 32"
  obtains "n < 8" | "8 \<le> n" "n < 16" | "16 \<le> n" "n < 24" | "24 \<le> n" "n < 32"
  using assms by linarith

lemma packed_word_inverse [simp]: "packed_word (word_packed w) = w"
proof (rule bit_word_eqI)
  fix n assume "n < LENGTH(32)"
  then have "n < 32" by simp
  then show "bit (packed_word (word_packed w)) n = bit w n"
    unfolding word_packed.simps packed_word.simps mask_numerals
    by (cases rule: u32_byte_cases) (auto simp: bit_simps)
qed

lemma word_packed_inverse [simp]: "word_packed (packed_word p) = p"
proof -
  obtain h0 h1 h2 h3 where p: "p = (h0, h1, h2, h3)" by (cases p)
  show ?thesis
    unfolding p packed_word.simps word_packed.simps mask_numerals
    by (auto intro!: bit_word_eqI simp: bit_simps)
qed

lemma header_word_fields:
  "\<not> bit (header_word h) 1"
  "bit (header_word h) 2 \<longleftrightarrow> source h = Server"
  "ucast (drop_bit 3 (header_word h) AND 0xFF) = server_address h"
  "ucast (drop_bit 11 (header_word h) AND 0x07) = server_port h AND 7"
  "ucast (drop_bit 16 (header_word h) AND 0xFFFF) = frame_counter h"
  unfolding header_word_def mask_numerals
  by (auto intro!: bit_word_eqI simp: bit_simps dest: bit_imp_le_length)

text \<open>What \<open>parse\<close> reads, in terms of the big-endian word: the version bit 1 alone decides.\<close>

definition word_header :: "u32 \<Rightarrow> Header" where
  "word_header w =
     \<lparr>version = 0, source = (if bit w 2 then Server else Client),
      server_address = ucast (drop_bit 3 w AND 0xFF), server_port = ucast (drop_bit 11 w AND 0x07),
      frame_counter = ucast (drop_bit 16 w AND 0xFFFF)\<rparr>"

lemma and_one_bit: "drop_bit k w AND 1 = of_bool (bit w k)" for w :: u32
  by (simp add: and_one_eq bit_iff_odd_drop_bit odd_iff_mod_2_eq_one)

lemma and_two_bit: "w AND 2 = 0 \<longleftrightarrow> \<not> bit w 1" for w :: u32
proof -
  have "w AND 2 = push_bit 1 (of_bool (bit w 1))"
    unfolding mask_numerals by (rule bit_word_eqI) (auto simp: bit_simps)
  then show ?thesis by simp
qed

lemma parse_word: "parse p = (if bit (packed_word p) 1 then Inl HeaderParseError else Inr (word_header (packed_word p)))"
  by (cases p) (simp only: parse.simps Let_def flip: packed_word.simps,
     simp add: and_one_bit and_two_bit word_header_def)

text \<open>Only the port is cut (to its three bits) and the version set to the one that is written.\<close>

abbreviation wire_header :: "Header \<Rightarrow> Header" where
  "wire_header h \<equiv> h\<lparr>version := 0, server_port := server_port h AND 7\<rparr>"

lemma word_header_inverse: "word_header (header_word h) = wire_header h"
  using header_word_fields [of h] DataSource.exhaust [of "source h"]
  by (cases h) (auto simp: word_header_def)

lemma parse_to_packed: "parse (to_packed h) = Inr (wire_header h)"
  using header_word_fields(1) [of h] by (simp add: parse_word to_packed_word word_header_inverse)

lemma to_packed_inject: "to_packed h = to_packed h' \<longleftrightarrow> wire_header h = wire_header h'"
proof
  assume "to_packed h = to_packed h'"
  then have "parse (to_packed h) = parse (to_packed h')" by simp
  then show "wire_header h = wire_header h'" by (simp only: parse_to_packed Inr_inject)
next
  assume eq: "wire_header h = wire_header h'"
  have "header_word (wire_header k) = header_word k" for k
    unfolding header_word_def mask_numerals by (auto intro!: bit_word_eqI simp: bit_simps)
  with eq show "to_packed h = to_packed h'" by (metis to_packed_word)
qed

lemma ucast_masks:
  "(ucast (a :: u8) :: u32) AND 0xFF = ucast a"
  "(ucast (a :: u8) :: u32) AND 0x07 = ucast (a AND 7)"
  "(ucast (b :: u16) :: u32) AND 0xFFFF = ucast b"
  unfolding mask_numerals
  by (auto intro!: bit_word_eqI simp: bit_simps dest: bit_u8_bound bit_u16_bound)

lemma header_word_sum:
  "header_word h = push_bit 2 (of_bool (source h = Server)) + push_bit 3 (ucast (server_address h))
     + push_bit 11 (ucast (server_port h AND 7)) + push_bit 16 (ucast (frame_counter h))"
proof -
  let ?a = "push_bit 2 (of_bool (source h = Server)) :: u32"
    and ?b = "push_bit 3 (ucast (server_address h)) :: u32"
    and ?c = "push_bit 11 (ucast (server_port h AND 7)) :: u32"
    and ?d = "push_bit 16 (ucast (frame_counter h)) :: u32"
  have "bit (2 ^ 2 :: int) n \<longleftrightarrow> n = 2" for n
    by (subst bit_exp_iff) auto
  then have bit4: "bit (4 :: int) n \<longleftrightarrow> n = 2" for n by simp
  have "?a + ?b = ?a OR ?b"
    by (rule disjunctive_add_eq_or) (auto intro!: bit_word_eqI simp: bit_simps bit4)
  moreover have "(?a OR ?b) + ?c = (?a OR ?b) OR ?c"
    unfolding mask_numerals
    by (rule disjunctive_add_eq_or) (auto intro!: bit_word_eqI simp: bit_simps bit4)
  moreover have "((?a OR ?b) OR ?c) + ?d = ((?a OR ?b) OR ?c) OR ?d"
    unfolding mask_numerals
    by (rule disjunctive_add_eq_or) (auto intro!: bit_word_eqI simp: bit_simps bit4)
  moreover have "header_word h = ((?a OR ?b) OR ?c) OR ?d"
    by (simp only: header_word_def ucast_masks or.assoc)
  ultimately show ?thesis by simp
qed

lemma word_header_cong:
  assumes "\<And>n. n \<notin> {0, 14, 15} \<Longrightarrow> bit w n = bit w' n"
  shows "word_header w = word_header w'"
  using assms unfolding word_header_def mask_numerals
  by (auto intro!: bit_word_eqI simp: bit_simps)

lemma packed_word_clear_bits:
  "n \<notin> {0, 14, 15} \<Longrightarrow>
     bit (packed_word (h0, h1, h2 AND 0x3F, h3 AND 0xFE)) n = bit (packed_word (h0, h1, h2, h3)) n"
proof -
  have "(0xFE :: u8) = push_bit 1 (mask 7)"
    by (simp add: mask_eq_exp_minus_1)
  then have fe: "bit (0xFE :: u8) k \<longleftrightarrow> 0 < k \<and> k < 8" for k
    by (simp only: bit_push_bit_iff bit_mask_iff) auto
  have m: "(0x3F :: u8) = mask 6"
    by (simp add: mask_eq_exp_minus_1)
  assume n: "n \<notin> {0, 14, 15}"
  then have "n - 8 < 6" if "8 \<le> n" "n < 16" using that by auto
  with n show ?thesis
    unfolding packed_word.simps m by (cases "n < 16") (auto simp: bit_simps fe simp del: bit_numeral_word_iff)
qed

section \<open>What is relied on of the cipher and of the fixed-capacity vector\<close>

text \<open>
  \<open>heapless::Vec::extend_from_slice\<close> appends when the result fits the capacity and otherwise fails.
  A cipher with a seven byte nonce and a four byte tag encrypts whatever fits the buffer together
  with the tag, fails when it does not fit, and decrypts what it encrypted. An \<open>authentic\<close> cipher
  moreover decrypts nothing but its own encryptions, as the tag check of CCM has it. Two keys are
  separated when the second rejects whatever the first has encrypted.
\<close>

definition heapless_vec :: "extend \<Rightarrow> bool" where
  "heapless_vec ext \<longleftrightarrow>
     (\<forall>n xs ys. ext n xs ys = (if length xs + length ys \<le> n then Some (xs @ ys) else None))"

definition aead_cipher :: "aead \<Rightarrow> bool" where
  "aead_cipher c \<longleftrightarrow> nonce_size c = NONCE_SIZE \<and>
     (\<forall>n a cap p. length n = NONCE_SIZE \<longrightarrow>
        (encrypt_in_place c n a cap p = None \<longleftrightarrow> cap < length p + MIC_SIZE)) \<and>
     (\<forall>n a cap p ct. encrypt_in_place c n a cap p = Some ct \<longrightarrow>
        length ct = length p + MIC_SIZE \<and> decrypt_in_place c n a ct = Some p)"

definition authentic :: "aead \<Rightarrow> bool" where
  "authentic c \<longleftrightarrow>
     (\<forall>n a cap p ct. length n = NONCE_SIZE \<longrightarrow> decrypt_in_place c n a ct = Some p \<longrightarrow> length ct \<le> cap \<longrightarrow>
        encrypt_in_place c n a cap p = Some ct)"

definition key_separated :: "aead \<Rightarrow> aead \<Rightarrow> bool" where
  "key_separated c c' \<longleftrightarrow>
     (\<forall>n a cap p ct. encrypt_in_place c n a cap p = Some ct \<longrightarrow> decrypt_in_place c' n a ct = None)"

text \<open>Concrete functions that meet these demands, for evaluation: a bounded append, and a keyed checksum.\<close>

definition vec_extend :: extend where
  "vec_extend n xs ys = (if length xs + length ys \<le> n then Some (xs @ ys) else None)"

definition checksum :: "bytes \<Rightarrow> bytes \<Rightarrow> bytes \<Rightarrow> bytes \<Rightarrow> bytes" where
  "checksum key n a p = [sum_list key, sum_list n, sum_list a, sum_list p]"

definition check_cipher :: "bytes \<Rightarrow> aead" where
  "check_cipher key =
     \<lparr>nonce_size = 7,
      encrypt_in_place = (\<lambda>n a cap p. if length p + 4 \<le> cap then Some (p @ checksum key n a p) else None),
      decrypt_in_place = (\<lambda>n a ct. let p = take (length ct - 4) ct in
        if ct = p @ checksum key n a p then Some p else None)\<rparr>"

lemma heapless_vec_extend [simp]: "heapless_vec vec_extend"
  by (simp add: heapless_vec_def vec_extend_def)

lemma aead_check_cipher [simp]: "aead_cipher (check_cipher key)"
  by (auto simp: aead_cipher_def check_cipher_def checksum_def NONCE_SIZE_def MIC_SIZE_def Let_def)

lemma authentic_check_cipher [simp]: "authentic (check_cipher key)"
proof -
  have "ct = take (length ct - 4) ct @ checksum key n a (take (length ct - 4) ct) \<Longrightarrow>
      length (take (length ct - 4) ct) + 4 = length ct" for ct n a
    by (drule arg_cong [of _ _ length]) (simp add: checksum_def)
  then show ?thesis
    by (auto simp: authentic_def check_cipher_def Let_def split: if_splits)
qed

lemma key_separated_check_cipher:
  "sum_list key \<noteq> sum_list key' \<Longrightarrow> key_separated (check_cipher key) (check_cipher key')"
  by (auto simp: key_separated_def check_cipher_def checksum_def Let_def split: if_splits)

lemma heapless_extend: "heapless_vec ext \<Longrightarrow> ext n xs ys = (if length xs + length ys \<le> n then Some (xs @ ys) else None)"
  by (simp add: heapless_vec_def)

lemma aead_cipherD:
  assumes "aead_cipher c"
  shows "nonce_size c = 7"
    and "length n = 7 \<Longrightarrow> encrypt_in_place c n a cap p = None \<longleftrightarrow> cap < length p + 4"
    and "encrypt_in_place c n a cap p = Some ct \<Longrightarrow> length ct = length p + 4"
    and "encrypt_in_place c n a cap p = Some ct \<Longrightarrow> decrypt_in_place c n a ct = Some p"
  using assms by (auto simp: aead_cipher_def NONCE_SIZE_def MIC_SIZE_def)

lemma length_new_nonce [simp]: "length (new_nonce h n) = 7"
  by (cases h) simp

lemma length_packed_bytes [simp]: "length (packed_bytes h) = 4"
  by (cases h) simp

section \<open>Datagrams\<close>

sublocale postcard_format \<subseteq> frame:
  codec "ser_DataFrame pc" "de_DataFrame pc" "\<lambda>f. length (encrypted_payload f) < 2 ^ 32"
proof unfold_locales
  fix f :: DataFrame and r
  assume "length (encrypted_payload f) < 2 ^ 32"
  then show "de_DataFrame pc (ser_DataFrame pc f @ r) = Inr (f, r)"
    by (cases f; cases "header f") (simp add: ser_DataFrame_def de_DataFrame_def wire)
qed

text \<open>The number of bytes of a frame around a payload of \<open>n\<close> bytes.\<close>

definition frame_len :: "nat \<Rightarrow> nat" where
  "frame_len n = 4 + varint_len (n + MIC_SIZE) + (n + MIC_SIZE)"

context postcard_format
begin

lemma length_ser_DataFrame: "length (ser_DataFrame pc f) = 4 + varint_len (length (encrypted_payload f)) + length (encrypted_payload f)"
  by (simp add: ser_DataFrame_def wire)

lemma to_datagram_fits:
  assumes "heapless_vec ext" and "aead_cipher c" and "frame_len (length p) \<le> length buf"
  obtains ct where
    "encrypt_in_place c (new_nonce (to_packed h) (length p)) (packed_bytes (to_packed h)) (length buf) p = Some ct"
    "length ct = length p + 4"
    "to_datagram pc ext c h p buf =
       Some (ser_DataFrame pc \<lparr>header = to_packed h, encrypted_payload = ct\<rparr> @ drop (frame_len (length p)) buf)"
proof -
  let ?n = "new_nonce (to_packed h) (length p)" and ?a = "packed_bytes (to_packed h)"
  have "length p + 4 \<le> length buf"
    using assms(3) by (simp add: frame_len_def MIC_SIZE_def)
  then obtain ct where ct: "encrypt_in_place c ?n ?a (length buf) p = Some ct"
    using aead_cipherD(2) [OF assms(2), of ?n ?a "length buf" p] by fastforce
  then have len: "length ct = length p + 4" by (rule aead_cipherD(3) [OF assms(2)])
  have "length (ser_DataFrame pc \<lparr>header = to_packed h, encrypted_payload = ct\<rparr>) = frame_len (length p)"
    by (simp add: length_ser_DataFrame len frame_len_def MIC_SIZE_def)
  with assms ct have "to_datagram pc ext c h p buf =
       Some (ser_DataFrame pc \<lparr>header = to_packed h, encrypted_payload = ct\<rparr> @ drop (frame_len (length p)) buf)"
    using \<open>length p + 4 \<le> length buf\<close>
    by (simp add: to_datagram_def Let_def heapless_extend aead_cipherD(1) write_slice)
  with ct len show ?thesis by (rule that)
qed

lemma to_datagram_too_long:
  assumes "heapless_vec ext" and "aead_cipher c" and "length buf < frame_len (length p)"
  shows "to_datagram pc ext c h p buf = None"
proof (cases "encrypt_in_place c (new_nonce (to_packed h) (length p)) (packed_bytes (to_packed h)) (length buf) p")
  case None
  then show ?thesis using assms(1) by (simp add: to_datagram_def Let_def heapless_extend assert_def)
next
  case (Some ct)
  then have "length ct = length p + 4" by (rule aead_cipherD(3) [OF assms(2)])
  then have "length buf < length (ser_DataFrame pc \<lparr>header = to_packed h, encrypted_payload = ct\<rparr>)"
    using assms(3) by (simp add: length_ser_DataFrame frame_len_def MIC_SIZE_def)
  then obtain e where
    "write_slice pc (ser_DataFrame pc \<lparr>header = to_packed h, encrypted_payload = ct\<rparr>) buf = Inl e"
    using write_slice_full by blast
  with Some show ?thesis
    using assms(1) by (simp add: to_datagram_def Let_def heapless_extend assert_def)
qed

lemma de_u8_Inr: "de_u8 pc b = Inr (a, r) \<longleftrightarrow> b = a # r"
  using de_u8_end by (cases b) (auto simp: de_u8)

lemma de_DataFrame_bound:
  assumes "from_bytes (de_DataFrame pc) d = Inr f"
  shows "length (encrypted_payload f) \<le> length d"
proof -
  from assms obtain h0 h1 h2 h3 rest p r where "d = h0 # h1 # h2 # h3 # rest"
    and "de_bytes pc rest = Inr (p, r)" and "encrypted_payload f = p"
    by (auto simp: from_bytes_def de_DataFrame_def de_then_def de_return_def de_u8_Inr)
  then show ?thesis using de_bytes_borrows [of rest p r] by auto
qed

text \<open>The whole ciphertext of the frame reaches the cipher, under the nonce of its length.\<close>

lemma from_datagram_eq:
  assumes "heapless_vec ext" and "nonce_size c = 7"
  shows "from_datagram pc ext d filt c = Some
    (case from_bytes (de_DataFrame pc) d of
       Inl e \<Rightarrow> Inl (CannotParseDataFrame e)
     | Inr f \<Rightarrow>
         if bit (packed_word (header f)) 1 then Inl CannotParseHeader
         else if \<not> filt (word_header (packed_word (header f))) then Inl FilterDoesNotMatch
         else (case decrypt_in_place c (new_nonce (header f) (length (encrypted_payload f) - 4))
                 (packed_bytes (header f)) (encrypted_payload f) of
                 None \<Rightarrow> Inl CannotDecrypt
               | Some p \<Rightarrow> Inr (word_header (packed_word (header f)), p)))"
proof (cases "from_bytes (de_DataFrame pc) d")
  case (Inl e)
  then show ?thesis by (simp add: from_datagram_def)
next
  case (Inr f)
  have "max (length (encrypted_payload f)) 4 - 4 = length (encrypted_payload f) - 4"
    by simp
  with Inr de_DataFrame_bound [OF Inr] assms show ?thesis
    by (simp add: from_datagram_def parse_word heapless_extend MIC_SIZE_def Let_def split: option.split)
qed

lemma frame_of_datagram:
  assumes laws: "heapless_vec ext" "aead_cipher c" and len: "length p + 4 < 2 ^ 32"
    and d: "to_datagram pc ext c h p buf = Some d"
  obtains ct where
    "encrypt_in_place c (new_nonce (to_packed h) (length p)) (packed_bytes (to_packed h)) (length buf) p = Some ct"
    "length ct = length p + 4" "from_bytes (de_DataFrame pc) d = Inr \<lparr>header = to_packed h, encrypted_payload = ct\<rparr>"
proof -
  have "frame_len (length p) \<le> length buf"
    using d to_datagram_too_long [OF laws, of buf p h] by (cases "length buf < frame_len (length p)") simp_all
  then obtain ct where
    ct: "encrypt_in_place c (new_nonce (to_packed h) (length p)) (packed_bytes (to_packed h)) (length buf) p = Some ct"
      "length ct = length p + 4"
    and eq: "to_datagram pc ext c h p buf =
       Some (ser_DataFrame pc \<lparr>header = to_packed h, encrypted_payload = ct\<rparr> @ drop (frame_len (length p)) buf)"
    by (rule to_datagram_fits [OF laws])
  have "d = ser_DataFrame pc \<lparr>header = to_packed h, encrypted_payload = ct\<rparr> @ drop (frame_len (length p)) buf"
    using d eq by simp
  then have "from_bytes (de_DataFrame pc) d = Inr \<lparr>header = to_packed h, encrypted_payload = ct\<rparr>"
    using ct(2) len by (simp only:) (rule frame.from_bytes_ser, simp)
  with ct show ?thesis by (rule that)
qed

lemma from_to_datagram:
  assumes laws: "heapless_vec ext" "aead_cipher c" and len: "length p + 4 < 2 ^ 32"
    and d: "to_datagram pc ext c h p buf = Some d" and filt: "filt (wire_header h)"
  shows "from_datagram pc ext d filt c = Some (Inr (wire_header h, p))"
proof -
  obtain ct where
    ct: "encrypt_in_place c (new_nonce (to_packed h) (length p)) (packed_bytes (to_packed h)) (length buf) p = Some ct"
    and "length ct = length p + 4" "from_bytes (de_DataFrame pc) d = Inr \<lparr>header = to_packed h, encrypted_payload = ct\<rparr>"
    using laws len d by (rule frame_of_datagram)
  then show ?thesis
    using filt aead_cipherD(1) [OF laws(2)] aead_cipherD(4) [OF laws(2) ct] header_word_fields(1) [of h]
    by (simp add: from_datagram_eq [OF laws(1)] to_packed_word word_header_inverse)
qed

text \<open>A datagram sealed under another key is rejected, whatever the filter.\<close>

lemma from_foreign_datagram:
  assumes laws: "heapless_vec ext" "aead_cipher c" and len: "length p + 4 < 2 ^ 32"
    and d: "to_datagram pc ext c h p buf = Some d" and sep: "key_separated c c'" and c': "aead_cipher c'"
  obtains e where "from_datagram pc ext d filt c' = Some (Inl e)"
proof -
  obtain ct where
    ct: "encrypt_in_place c (new_nonce (to_packed h) (length p)) (packed_bytes (to_packed h)) (length buf) p = Some ct"
    and f: "length ct = length p + 4" "from_bytes (de_DataFrame pc) d = Inr \<lparr>header = to_packed h, encrypted_payload = ct\<rparr>"
    using laws len d by (rule frame_of_datagram)
  from ct sep have "decrypt_in_place c' (new_nonce (to_packed h) (length p)) (packed_bytes (to_packed h)) ct = None"
    by (auto simp: key_separated_def)
  with f have "\<exists>e. from_datagram pc ext d filt c' = Some (Inl e)"
    by (auto simp: from_datagram_eq [OF laws(1) aead_cipherD(1) [OF c']])
  then show ?thesis using that by blast
qed

lemma from_datagram_authentic:
  assumes "heapless_vec ext" and "aead_cipher c" and "authentic c"
    and ok: "from_datagram pc ext d filt c = Some (Inr (h, p))"
  shows "\<exists>f. from_bytes (de_DataFrame pc) d = Inr f \<and> parse (header f) = Inr h \<and> filt h \<and>
    encrypt_in_place c (new_nonce (header f) (length p)) (packed_bytes (header f)) (length d) p =
      Some (encrypted_payload f)"
proof -
  note eq = from_datagram_eq [OF assms(1) aead_cipherD(1) [OF assms(2)], of d filt]
  from ok obtain f where f: "from_bytes (de_DataFrame pc) d = Inr f"
    by (auto simp: eq split: sum.splits)
  with ok have nb: "\<not> bit (packed_word (header f)) 1" and h: "h = word_header (packed_word (header f))"
    and filt: "filt h"
    and dec: "decrypt_in_place c (new_nonce (header f) (length (encrypted_payload f) - 4))
                (packed_bytes (header f)) (encrypted_payload f) = Some p"
    by (auto simp: eq split: if_splits option.splits)
  have enc: "encrypt_in_place c (new_nonce (header f) (length (encrypted_payload f) - 4))
      (packed_bytes (header f)) (length d) p = Some (encrypted_payload f)"
    using assms(3) dec de_DataFrame_bound [OF f] by (simp add: authentic_def NONCE_SIZE_def)
  then have "length (encrypted_payload f) - 4 = length p"
    using aead_cipherD(3) [OF assms(2)] by simp
  with enc f nb h filt show ?thesis by (auto simp: parse_word)
qed

end

section \<open>Properties\<close>

text \<open>The header of the unit tests of the crate.\<close>

definition example_header :: Header where
  "example_header = \<lparr>version = 0, source = Server, server_address = 255, server_port = 7, frame_counter = 1\<rparr>"

text \<open>
  Every header that is packed parses again, with version 0 and the port cut to its three bits.
\<close>

lemma header_roundtrip:
  "parse (to_packed h) = Inr (h\<lparr>version := 0, server_port := server_port h AND 7\<rparr>)"
  by (rule parse_to_packed)

text \<open>
  The four bytes of a packed header, read as one big-endian number, hold the source at bit 2, the
  server address at bit 3, the port at bit 11 and the frame counter at bit 16, with no overlap.
\<close>

lemma header_layout:
  "packed_word (to_packed h) =
     of_bool (source h = Server) * 2 ^ 2 + ucast (server_address h) * 2 ^ 3
     + ucast (server_port h AND 7) * 2 ^ 11 + ucast (frame_counter h) * 2 ^ 16"
  by (simp only: to_packed_word packed_word_inverse header_word_sum push_bit_eq_mult)

text \<open>
  The header parser rejects a header exactly when bit 1 is set; bit 0 of the version field
  and the two reserved bits are ignored.
\<close>

lemma parse_ignores_bits:
  "parse (h0, h1, h2, h3) = parse (h0, h1, h2 AND 0x3F, h3 AND 0xFE) \<and>
   (parse (h0, h1, h2, h3) = Inl HeaderParseError \<longleftrightarrow> bit h3 1)"
proof
  let ?w = "packed_word (h0, h1, h2, h3)" and ?w' = "packed_word (h0, h1, h2 AND 0x3F, h3 AND 0xFE)"
  have "word_header ?w' = word_header ?w"
    by (rule word_header_cong) (rule packed_word_clear_bits)
  moreover have "bit ?w' 1 = bit ?w 1"
    by (rule packed_word_clear_bits) simp
  ultimately show "parse (h0, h1, h2, h3) = parse (h0, h1, h2 AND 0x3F, h3 AND 0xFE)"
    by (simp only: parse_word)
  show "parse (h0, h1, h2, h3) = Inl HeaderParseError \<longleftrightarrow> bit h3 1"
    by (simp add: parse_word packed_word.simps bit_simps)
qed

text \<open>
  C38. Two frames have the same nonce exactly when their headers agree in all the fields that are
  sent (the port in its three bits) and their payload lengths agree modulo 256.
\<close>

theorem nonce_unique:
  "new_nonce (to_packed h) n = new_nonce (to_packed h') n' \<longleftrightarrow>
     h\<lparr>version := 0, server_port := server_port h AND 7\<rparr> =
       h'\<lparr>version := 0, server_port := server_port h' AND 7\<rparr> \<and> n mod 256 = n' mod 256"
proof -
  have "new_nonce p n = new_nonce p' n' \<longleftrightarrow> p = p' \<and> n mod 256 = n' mod 256" for p p'
    by (cases p; cases p') (simp add: word_of_nat_eq_iff take_bit_eq_mod)
  then show ?thesis by (simp add: to_packed_inject)
qed

text \<open>
  C39. to_datagram panics exactly when the buffer is shorter than the frame: four header bytes,
  the length, the payload and its four byte tag.
\<close>

theorem to_datagram_panics_iff:
  assumes "postcard_format pc" and "heapless_vec ext" and "aead_cipher c"
  shows "to_datagram pc ext c h p buf = None \<longleftrightarrow>
    length buf < 4 + varint_len (length p + MIC_SIZE) + (length p + MIC_SIZE)"
  using assms postcard_format.to_datagram_too_long [OF assms(1), of ext c buf p h]
    postcard_format.to_datagram_fits [OF assms(1), of ext c p buf h]
  by (metis frame_len_def not_less option.discI)

theorem to_datagram_panics_iff_witness:
  "to_datagram postcard_v1 vec_extend (check_cipher [7]) example_header (replicate 25 0) (replicate 32 0) = None"
proof -
  have "to_datagram postcard_v1 vec_extend (check_cipher [7]) example_header (replicate 25 0) (replicate 32 0) = None
      \<longleftrightarrow> length (replicate 32 (0 :: u8)) < 4 + varint_len (length (replicate 25 (0 :: u8)) + MIC_SIZE)
            + (length (replicate 25 (0 :: u8)) + MIC_SIZE)"
    by (rule to_datagram_panics_iff) (simp_all add: v1.postcard_format_axioms)
  then show ?thesis by (simp add: MIC_SIZE_def)
qed

text \<open>
  C4. Whatever to_datagram writes, from_datagram reads back under the same cipher with a filter
  that admits its header: the payload, and the header with version 0 and the port cut to its three
  bits.
\<close>

theorem datagram_roundtrip:
  assumes "postcard_format pc" and "heapless_vec ext" and "aead_cipher c" and "length p + 4 < 2 ^ 32"
    and "to_datagram pc ext c h p buf = Some d"
    and "filt (h\<lparr>version := 0, server_port := server_port h AND 7\<rparr>)"
  shows "from_datagram pc ext d filt c =
    Some (Inr (h\<lparr>version := 0, server_port := server_port h AND 7\<rparr>, p))"
  using assms by (rule postcard_format.from_to_datagram)

theorem datagram_roundtrip_witness:
  "\<exists>d. to_datagram postcard_v1 vec_extend (check_cipher [7]) example_header (map of_char ''some data'') (replicate 32 0) = Some d \<and>
     from_datagram postcard_v1 vec_extend d (\<lambda>h. source h = Server \<and> server_address h = 255 \<and> server_port h = 7)
       (check_cipher [7]) = Some (Inr (example_header, map of_char ''some data''))"
proof -
  obtain d where d: "to_datagram postcard_v1 vec_extend (check_cipher [7]) example_header (map of_char ''some data'')
      (replicate 32 0) = Some d"
    by (rule v1.to_datagram_fits [of vec_extend "check_cipher [7]"])
       (auto simp: frame_len_def MIC_SIZE_def varint_len_1)
  have "from_datagram postcard_v1 vec_extend d (\<lambda>h. source h = Server \<and> server_address h = 255 \<and> server_port h = 7)
       (check_cipher [7]) = Some (Inr (example_header\<lparr>version := 0, server_port := server_port example_header AND 7\<rparr>,
         map of_char ''some data''))"
    by (rule datagram_roundtrip [OF v1.postcard_format_axioms _ _ _ d]) (simp_all add: example_header_def)
  with d show ?thesis by (simp add: example_header_def)
qed

text \<open>
  C9. What from_datagram accepts is authentic: with a cipher that decrypts nothing but its own
  encryptions, the accepted payload, under the accepted header as associated data and the nonce
  made of the header and the payload's length, encrypts to the ciphertext in the datagram, and the
  header passed the filter.
\<close>

theorem datagram_authentic:
  assumes "postcard_format pc" and "heapless_vec ext" and "aead_cipher c" and "authentic c"
    and "from_datagram pc ext d filt c = Some (Inr (h, p))"
  shows "\<exists>f. from_bytes (de_DataFrame pc) d = Inr f \<and> parse (header f) = Inr h \<and> filt h \<and>
    encrypt_in_place c (new_nonce (header f) (length p)) (packed_bytes (header f)) (length d) p =
      Some (encrypted_payload f)"
  using assms by (rule postcard_format.from_datagram_authentic)

theorem datagram_authentic_witness:
  "\<exists>d f. from_bytes (de_DataFrame postcard_v1) d = Inr f \<and> parse (header f) = Inr example_header \<and>
     encrypt_in_place (check_cipher [7]) (new_nonce (header f) 2) (packed_bytes (header f)) (length d) [1, 2] =
       Some (encrypted_payload f)"
proof -
  obtain d where d: "to_datagram postcard_v1 vec_extend (check_cipher [7]) example_header [1, 2] (replicate 32 0) = Some d"
    by (rule v1.to_datagram_fits [of vec_extend "check_cipher [7]"])
       (auto simp: frame_len_def MIC_SIZE_def varint_len_1)
  have "from_datagram postcard_v1 vec_extend d (\<lambda>_. True) (check_cipher [7]) = Some (Inr (example_header, [1, 2]))"
    using v1.from_to_datagram [OF _ _ _ d, of "\<lambda>_. True"] by (simp add: example_header_def)
  then have "\<exists>f. from_bytes (de_DataFrame postcard_v1) d = Inr f \<and> parse (header f) = Inr example_header \<and> True \<and>
      encrypt_in_place (check_cipher [7]) (new_nonce (header f) (length [1 :: u8, 2])) (packed_bytes (header f))
        (length d) [1, 2] = Some (encrypted_payload f)"
    by (intro datagram_authentic [OF v1.postcard_format_axioms]) simp_all
  then show ?thesis by (metis One_nat_def Suc_1 list.size(3) length_Cons)
qed

text \<open>
  C28. from_datagram never panics, and each of its results says what happened, in the order of the
  checks: no frame, a bad header, a header the filter rejects, a payload the cipher rejects, or
  the header and the decrypted payload.
\<close>

theorem from_datagram_outcome:
  assumes "postcard_format pc" and "heapless_vec ext" and "aead_cipher c"
  shows "case from_datagram pc ext d filt c of
      None \<Rightarrow> False
    | Some (Inl (CannotParseDataFrame e)) \<Rightarrow> from_bytes (de_DataFrame pc) d = Inl e
    | Some (Inl CannotParseHeader) \<Rightarrow>
        (\<exists>f. from_bytes (de_DataFrame pc) d = Inr f \<and> parse (header f) = Inl HeaderParseError)
    | Some (Inl FilterDoesNotMatch) \<Rightarrow>
        (\<exists>f h. from_bytes (de_DataFrame pc) d = Inr f \<and> parse (header f) = Inr h \<and> \<not> filt h)
    | Some (Inl CannotDecrypt) \<Rightarrow>
        (\<exists>f h. from_bytes (de_DataFrame pc) d = Inr f \<and> parse (header f) = Inr h \<and> filt h \<and>
           decrypt_in_place c (new_nonce (header f) (length (encrypted_payload f) - MIC_SIZE))
             (packed_bytes (header f)) (encrypted_payload f) = None)
    | Some (Inr (h, p)) \<Rightarrow>
        (\<exists>f. from_bytes (de_DataFrame pc) d = Inr f \<and> parse (header f) = Inr h \<and> filt h \<and>
           decrypt_in_place c (new_nonce (header f) (length (encrypted_payload f) - MIC_SIZE))
             (packed_bytes (header f)) (encrypted_payload f) = Some p)"
  by (auto simp: postcard_format.from_datagram_eq [OF assms(1,2) aead_cipherD(1) [OF assms(3)]] parse_word MIC_SIZE_def
        split: sum.split option.split)

theorem from_datagram_outcome_witness:
  "from_datagram postcard_v1 vec_extend [1, 2] (\<lambda>_. True) (check_cipher [7]) \<noteq> None"
  using from_datagram_outcome [of postcard_v1 vec_extend "check_cipher [7]" "[1, 2]" "\<lambda>_. True"]
  by (cases "from_datagram postcard_v1 vec_extend [1, 2] (\<lambda>_. True) (check_cipher [7])")
     (auto simp: v1.postcard_format_axioms)

end
