(* ===== verification/Discovery.thy ===== *)
theory Discovery
  imports Data_Link
begin

unbundle bit_operations_syntax

text \<open>
  Server discovery (\<open>data/src/discovery.rs\<close>): the bit field of known addresses with its two
  operations and its iterator, and the choice of a random spare address. Indexing and the asserts are
  computations that may panic; that they never do on a 32 byte field is part of what is shown. The
  random number generator is a parameter, a function \<open>next_u32\<close> from its state to a number and the
  next state.
\<close>

section \<open>The bit field of known addresses\<close>

definition ADDRESSES_PER_BYTE :: nat where "ADDRESSES_PER_BYTE = 8"

definition MAX_ADDRESSES :: nat where "MAX_ADDRESSES = 256"

definition MIN_PAYLOAD_SIZE :: nat where "MIN_PAYLOAD_SIZE = MAX_ADDRESSES div ADDRESSES_PER_BYTE"

definition MIN_PACKET_SIZE :: nat where "MIN_PACKET_SIZE = HEADER_SIZE + MIN_PAYLOAD_SIZE + MIC_SIZE"

record Identify =
  addresses :: bytes

record Identified =
  identified_address :: u8
  server_ports :: u8

definition is_address_set :: "Identify \<Rightarrow> u8 \<Rightarrow> bool exec" where
  "is_address_set self address = do {
     assert (unat address < MAX_ADDRESSES);
     b \<leftarrow> index (addresses self) (unat address div ADDRESSES_PER_BYTE);
     Some (b AND push_bit (unat (address mod of_nat ADDRESSES_PER_BYTE)) 1 \<noteq> 0)
   }"

definition set_address :: "Identify \<Rightarrow> u8 \<Rightarrow> Identify exec" where
  "set_address self address = do {
     assert (unat address < MAX_ADDRESSES);
     b \<leftarrow> index (addresses self) (unat address div 8);
     field \<leftarrow> store (addresses self) (unat address div 8)
       (b OR push_bit (unat (address mod of_nat ADDRESSES_PER_BYTE)) 1);
     Some (self\<lparr>addresses := field\<rparr>)
   }"

section \<open>The iterator\<close>

record AddressesIter =
  iter_i :: nat
  iter_j :: u8
  iter_addresses :: bytes

definition iter :: "Identify \<Rightarrow> AddressesIter" where
  "iter self = \<lparr>iter_i = 0, iter_j = 1, iter_addresses = addresses self\<rparr>"

definition next_address :: "AddressesIter \<Rightarrow> (bool option \<times> AddressesIter) exec" where
  "next_address self =
     (if iter_i self < MIN_PAYLOAD_SIZE then do {
        b \<leftarrow> index (iter_addresses self) (iter_i self);
        let item = (b AND iter_j self \<noteq> 0);
            j = push_bit 1 (iter_j self)
        in Some (Some item,
             if j = 0 then self\<lparr>iter_i := iter_i self + 1, iter_j := 1\<rparr> else self\<lparr>iter_j := j\<rparr>)
      }
      else Some (None, self))"

text \<open>
  A loop over the iterator ends: either the byte index grows, or the mask \<open>j\<close> is shifted and needs one
  shift fewer to run out of bits.
\<close>

definition shifts_left :: "u8 \<Rightarrow> nat" where
  "shifts_left j = (LEAST k. push_bit k j = 0)"

definition iter_measure :: "(AddressesIter \<times> AddressesIter) set" where
  "iter_measure = measures [\<lambda>it. MIN_PAYLOAD_SIZE - iter_i it, \<lambda>it. shifts_left (iter_j it)]"

lemma shifts_left_push: "push_bit 1 j \<noteq> 0 \<Longrightarrow> shifts_left (push_bit 1 j) < shifts_left j"
proof -
  assume nz: "push_bit 1 j \<noteq> 0"
  have "push_bit 8 j = 0"
    by (rule bit_word_eqI) (auto simp: bit_simps)
  then have z: "push_bit (shifts_left j) j = 0"
    unfolding shifts_left_def by (rule LeastI)
  then obtain k where k: "shifts_left j = Suc k"
    using nz by (cases "shifts_left j") auto
  with z have "push_bit k (push_bit 1 j) = 0" by (simp add: push_bit_push_bit)
  then have "shifts_left (push_bit 1 j) \<le> k"
    unfolding shifts_left_def by (rule Least_le)
  with k show ?thesis by simp
qed

lemma wf_iter_measure [simp]: "wf iter_measure"
  by (simp add: iter_measure_def)

lemma next_address_measure:
  "next_address it = Some (Some taken, it') \<Longrightarrow> (it', it) \<in> iter_measure"
  using shifts_left_push [of "iter_j it"]
  by (auto simp: next_address_def iter_measure_def index_def Let_def split: if_splits)

text \<open>\<open>iter().fold(init, f)\<close>, and the \<open>for\<close> loop of \<open>with_random_address\<close> over \<open>iter.enumerate()\<close>.\<close>

function fold_addresses :: "('s \<Rightarrow> bool \<Rightarrow> 's) \<Rightarrow> 's \<Rightarrow> AddressesIter \<Rightarrow> 's exec" where
  "fold_addresses f s it =
     (case next_address it of
        None \<Rightarrow> None
      | Some (None, _) \<Rightarrow> Some s
      | Some (Some taken, it') \<Rightarrow> fold_addresses f (f s taken) it')"
  by pat_completeness auto
termination
  by (relation "inv_image iter_measure (\<lambda>(f, s, it). it)") (auto intro: next_address_measure)

function spare_loop :: "AddressesIter \<Rightarrow> nat \<Rightarrow> nat list \<Rightarrow> nat \<Rightarrow> (nat list \<times> nat) exec" where
  "spare_loop it i spare_addresses j =
     (case next_address it of
        None \<Rightarrow> None
      | Some (None, _) \<Rightarrow> Some (spare_addresses, j)
      | Some (Some taken, it') \<Rightarrow>
          if \<not> taken then
            (case store spare_addresses j i of
               None \<Rightarrow> None
             | Some spare_addresses \<Rightarrow> spare_loop it' (i + 1) spare_addresses (j + 1))
          else spare_loop it' (i + 1) spare_addresses j)"
  by pat_completeness auto
termination
  by (relation "inv_image iter_measure (\<lambda>(it, i, spare, j). it)") (auto intro: next_address_measure)

declare fold_addresses.simps [simp del] spare_loop.simps [simp del]

definition with_random_address ::
    "('r \<Rightarrow> u32 \<times> 'r) \<Rightarrow> AddressesIter \<Rightarrow> 'r \<Rightarrow> u8 \<Rightarrow> (Identified option \<times> 'r) exec" where
  "with_random_address next_u32 it rng ports = do {
     (spare_addresses, j) \<leftarrow> spare_loop it 0 (replicate MAX_ADDRESSES 0) 0;
     if j > 0 then
       let (r, rng) = next_u32 rng; k = unat (r mod of_nat j)
       in do {
         a \<leftarrow> index spare_addresses k;
         Some (Some \<lparr>identified_address = of_nat a, server_ports = ports\<rparr>, rng)
       }
     else Some (None, rng)
   }"

section \<open>Derived codecs\<close>

definition ser_Identify :: "'pe postcard \<Rightarrow> Identify \<Rightarrow> bytes" where
  "ser_Identify pc m = ser_array pc (addresses m)"

definition de_Identify :: "'pe postcard \<Rightarrow> ('pe, Identify) decoder" where
  "de_Identify pc = de_then (de_array pc MIN_PAYLOAD_SIZE) (\<lambda>a. de_return \<lparr>addresses = a\<rparr>)"

definition ser_Identified :: "'pe postcard \<Rightarrow> Identified \<Rightarrow> bytes" where
  "ser_Identified pc m = ser_u8 pc (identified_address m) @ ser_u8 pc (server_ports m)"

definition de_Identified :: "'pe postcard \<Rightarrow> ('pe, Identified) decoder" where
  "de_Identified pc =
     de_then (de_u8 pc) (\<lambda>a. de_then (de_u8 pc) (\<lambda>p.
       de_return \<lparr>identified_address = a, server_ports = p\<rparr>))"

section \<open>The bit field is a set of addresses\<close>

definition identify_ok :: "Identify \<Rightarrow> bool" where
  "identify_ok m \<longleftrightarrow> length (addresses m) = MIN_PAYLOAD_SIZE"

definition known :: "bytes \<Rightarrow> nat \<Rightarrow> bool" where
  "known field a \<longleftrightarrow> bit (field ! (a div 8)) (a mod 8)"

definition known_addresses :: "Identify \<Rightarrow> u8 set" where
  "known_addresses m = {a. known (addresses m) (unat a)}"

lemmas discovery_sizes =
  ADDRESSES_PER_BYTE_def MAX_ADDRESSES_def MIN_PAYLOAD_SIZE_def MIN_PACKET_SIZE_def HEADER_SIZE_def MIC_SIZE_def

lemma and_single_bit: "b AND push_bit k 1 \<noteq> 0 \<longleftrightarrow> bit b k" for b :: u8
proof -
  have "b AND push_bit k 1 = push_bit k (of_bool (bit b k))"
    by (rule bit_word_eqI) (auto simp: bit_simps)
  then show ?thesis
    by (cases "k < 8") (auto simp: push_bit_eq_0_iff)
qed

lemma unat_mod_8: "unat (a mod of_nat ADDRESSES_PER_BYTE) = unat a mod 8" for a :: u8
  by (simp add: ADDRESSES_PER_BYTE_def unat_mod)

lemma unat_div_8 [simp]: "unat (a :: u8) div 8 < 32"
  using unat_u8_less [of a] by linarith

lemma is_address_set_known:
  "identify_ok m \<Longrightarrow> is_address_set m a = Some (a \<in> known_addresses m)"
  unfolding is_address_set_def unat_mod_8 and_single_bit
  by (simp add: identify_ok_def discovery_sizes known_addresses_def known_def)

lemma set_address_known:
  assumes "identify_ok m"
  obtains m' where "set_address m a = Some m'" "identify_ok m'"
    "known_addresses m' = insert a (known_addresses m)"
proof -
  let ?i = "unat a div 8" and ?k = "unat a mod 8"
  have i: "?i < length (addresses m)"
    using assms by (simp add: identify_ok_def discovery_sizes)
  define m' where "m' = m\<lparr>addresses := (addresses m)[?i := addresses m ! ?i OR push_bit ?k 1]\<rparr>"
  have "set_address m a = Some m'"
    using i unfolding set_address_def unat_mod_8
    by (simp add: m'_def MAX_ADDRESSES_def)
  moreover have "identify_ok m'"
    using assms by (simp add: identify_ok_def m'_def)
  moreover have "known (addresses m') (unat b) \<longleftrightarrow> b = a \<or> known (addresses m) (unat b)" for b
  proof (cases "unat b div 8 = ?i")
    case True
    then have "unat b mod 8 = ?k \<longleftrightarrow> b = a"
      by (metis unat_inject div_mod_decomp)
    with True i show ?thesis
      by (auto simp: known_def m'_def bit_simps)
  next
    case False
    then show ?thesis using i by (auto simp: known_def m'_def)
  qed
  ultimately show ?thesis
    by (intro that) (auto simp: known_addresses_def)
qed

text \<open>
  The contract of a set of addresses kept in a machine representation: membership is total on
  well-formed values, insertion stays within them and adds one element.
\<close>

locale address_set =
  fixes isin :: "'m \<Rightarrow> 'a \<Rightarrow> bool exec" and ins :: "'m \<Rightarrow> 'a \<Rightarrow> 'm exec"
    and elems :: "'m \<Rightarrow> 'a set" and invar :: "'m \<Rightarrow> bool"
  assumes isin_elems: "invar m \<Longrightarrow> isin m a = Some (a \<in> elems m)"
    and ins_elems: "invar m \<Longrightarrow> \<exists>m'. ins m a = Some m' \<and> invar m' \<and> elems m' = insert a (elems m)"
begin

lemma ins_all:
  "invar m \<Longrightarrow> \<exists>m'. fold_exec ins as m = Some m' \<and> invar m' \<and> elems m' = elems m \<union> set as"
proof (induction as arbitrary: m)
  case Nil
  then show ?case by simp
next
  case (Cons a as)
  from ins_elems [OF Cons.prems, of a] obtain m1
    where m1: "ins m a = Some m1" "invar m1" "elems m1 = insert a (elems m)" by blast
  from Cons.IH [OF m1(2)] m1 show ?case by auto
qed

lemma isin_after_ins:
  "invar m \<Longrightarrow> ins m a = Some m' \<Longrightarrow> isin m' b = Some (b = a \<or> isin m b = Some True)"
  using ins_elems [of m a] isin_elems by fastforce

end

interpretation field: address_set is_address_set set_address known_addresses identify_ok
proof unfold_locales
  fix m a
  assume ok: "identify_ok m"
  then show "is_address_set m a = Some (a \<in> known_addresses m)"
    by (rule is_address_set_known)
  show "\<exists>m'. set_address m a = Some m' \<and> identify_ok m' \<and> known_addresses m' = insert a (known_addresses m)"
    by (rule set_address_known [OF ok, of a]) blast
qed

section \<open>The iterator visits the addresses in order\<close>

text \<open>The iterator about to yield address \<open>p\<close>.\<close>

definition iter_at :: "bytes \<Rightarrow> nat \<Rightarrow> AddressesIter" where
  "iter_at field p = \<lparr>iter_i = p div 8, iter_j = push_bit (p mod 8) 1, iter_addresses = field\<rparr>"

lemma iter_iter_at: "iter m = iter_at (addresses m) 0"
  by (simp add: iter_def iter_at_def)

lemma push_one_eq_0: "push_bit k (1 :: u8) = 0 \<longleftrightarrow> 8 \<le> k"
  using and_single_bit [of "- 1" k] by (auto simp: bit_simps)

lemma push_one_Suc: "push_bit 1 (push_bit k (1 :: u8)) = push_bit (Suc k) 1"
  by (simp only: push_bit_push_bit plus_1_eq_Suc)

lemma next_address_iter_at:
  assumes "length field = 32" and "p < 256"
  shows "next_address (iter_at field p) = Some (Some (known field p), iter_at field (Suc p))"
proof -
  have "p div 8 < 32" using assms(2) by linarith
  moreover have "Suc p div 8 = (if p mod 8 = 7 then Suc (p div 8) else p div 8)"
    and "Suc p mod 8 = (if p mod 8 = 7 then 0 else Suc (p mod 8))"
    by (simp_all add: div_Suc mod_Suc)
  moreover have "8 \<le> Suc (p mod 8) \<longleftrightarrow> p mod 8 = 7"
    using mod_less_divisor [of 8 p] by linarith
  ultimately show ?thesis
    using assms(1) unfolding next_address_def iter_at_def
    by (simp add: and_single_bit known_def push_one_eq_0 push_one_Suc discovery_sizes Let_def del: push_bit_of_1 One_nat_def push_bit_Suc push_bit_push_bit)
qed

lemma next_address_iter_end: "next_address (iter_at field 256) = Some (None, iter_at field 256)"
  by (simp add: next_address_def iter_at_def discovery_sizes)

lemma fold_addresses_iter_at:
  assumes "length field = 32" and "p \<le> 256"
  shows "fold_addresses f s (iter_at field p) = Some (foldl f s (map (known field) [p..<256]))"
  using assms(2)
proof (induction arbitrary: s rule: inc_induct)
  case base
  then show ?case by (simp add: fold_addresses.simps next_address_iter_end)
next
  case (step p)
  then show ?case
    using assms(1) by (simp add: fold_addresses.simps [of f s "iter_at field p"] next_address_iter_at upt_conv_Cons)
qed

definition free_addresses :: "bytes \<Rightarrow> nat \<Rightarrow> nat list" where
  "free_addresses field p = filter (\<lambda>a. \<not> known field a) [p..<256]"

lemma free_addresses_step:
  "p < 256 \<Longrightarrow> free_addresses field p =
     (if known field p then free_addresses field (Suc p) else p # free_addresses field (Suc p))"
  by (simp add: free_addresses_def upt_conv_Cons)

lemma free_addresses_end [simp]: "free_addresses field 256 = []"
  by (simp add: free_addresses_def)

lemma length_free_addresses: "length (free_addresses field p) \<le> 256"
proof -
  have "length (free_addresses field p) \<le> length [p..<256]"
    unfolding free_addresses_def by (rule length_filter_le)
  then show ?thesis by simp
qed

lemma free_addresses_mem: "a \<in> set (free_addresses field 0) \<longleftrightarrow> a < 256 \<and> \<not> known field a"
  by (auto simp: free_addresses_def)

lemma spare_loop_iter_at:
  assumes "length field = 32" and "p \<le> 256" and "length spare = 256" and "j \<le> p"
  shows "\<exists>spare'. spare_loop (iter_at field p) p spare j = Some (spare', j + length (free_addresses field p))
    \<and> length spare' = 256
    \<and> take (j + length (free_addresses field p)) spare' = take j spare @ free_addresses field p"
  using assms(2-4)
proof (induction arbitrary: spare j rule: inc_induct)
  case base
  then show ?case by (simp add: spare_loop.simps next_address_iter_end)
next
  case (step p)
  note unfold = spare_loop.simps [of "iter_at field p"] next_address_iter_at [OF assms(1) step.hyps(2)]
    free_addresses_step [OF step.hyps(2)]
  show ?case
  proof (cases "known field p")
    case True
    with step.IH [of spare j] step.prems show ?thesis by (simp add: unfold)
  next
    case False
    have j: "j < length spare" using step.prems step.hyps(2) by simp
    then have "take (Suc j) (spare[j := p]) = take j spare @ [p]"
      by (simp add: take_Suc_conv_app_nth)
    with step.IH [of "spare[j := p]" "Suc j"] step.prems j False show ?thesis
      by (simp add: unfold)
  qed
qed

lemma with_random_address_eq:
  assumes "identify_ok m"
  shows "with_random_address next_u32 (iter m) rng ports = Some
    (let free = free_addresses (addresses m) 0; (r, rng') = next_u32 rng
     in if free = [] then (None, rng)
        else (Some \<lparr>identified_address = of_nat (free ! (unat r mod length free)), server_ports = ports\<rparr>, rng'))"
proof -
  let ?free = "free_addresses (addresses m) 0"
  obtain r rng' where r: "next_u32 rng = (r, rng')" by fastforce
  obtain spare where spare: "spare_loop (iter m) 0 (replicate MAX_ADDRESSES 0) 0 = Some (spare, length ?free)"
    and len: "length spare = 256" and take: "take (length ?free) spare = ?free"
    using spare_loop_iter_at [of "addresses m" 0 "replicate MAX_ADDRESSES 0" 0] assms
    by (auto simp: identify_ok_def discovery_sizes iter_iter_at)
  show ?thesis
  proof (cases "?free = []")
    case True
    with spare show ?thesis by (simp add: with_random_address_def r Let_def)
  next
    case False
    let ?k = "unat r mod length ?free"
    have "unat (of_nat (length ?free) :: u32) = length ?free"
      using length_free_addresses [of "addresses m" 0] by (simp add: unat_of_nat)
    then have "unat (r mod of_nat (length ?free)) = ?k" by (simp add: unat_mod)
    moreover have k: "?k < length ?free" using False by simp
    moreover have "spare ! ?k = ?free ! ?k" using k take by (metis nth_take)
    moreover have "?k < length spare"
      using k len length_free_addresses [of "addresses m" 0] by linarith
    ultimately show ?thesis
      using False spare by (simp add: with_random_address_def r Let_def)
  qed
qed

lemma free_address_unset:
  assumes "identify_ok m"
  shows "a \<in> set (free_addresses (addresses m) 0) \<Longrightarrow> is_address_set m (of_nat a) = Some False"
    and "unat b \<in> set (free_addresses (addresses m) 0) \<longleftrightarrow> is_address_set m b = Some False"
  using field.isin_elems [OF assms] by (auto simp: free_addresses_mem known_addresses_def)

lemma with_random_address_cases:
  assumes "identify_ok m"
  shows "if known_addresses m = UNIV then with_random_address next_u32 (iter m) rng ports = Some (None, rng)
    else (\<exists>a rng'. a \<notin> known_addresses m \<and> with_random_address next_u32 (iter m) rng ports =
            Some (Some \<lparr>identified_address = a, server_ports = ports\<rparr>, rng'))"
proof -
  let ?free = "free_addresses (addresses m) 0"
  obtain r rng' where r: "next_u32 rng = (r, rng')" by fastforce
  have free: "unat b \<in> set ?free \<longleftrightarrow> b \<notin> known_addresses m" for b
    using free_address_unset(2) [OF assms] field.isin_elems [OF assms] by simp
  show ?thesis
  proof (cases "?free = []")
    case True
    then have "known_addresses m = UNIV" using free by auto
    with True show ?thesis by (simp add: with_random_address_eq [OF assms] r)
  next
    case False
    let ?a = "?free ! (unat r mod length ?free)"
    have "?a \<in> set ?free" using False by simp
    then have "of_nat ?a \<notin> known_addresses m"
      using free_address_unset(1) [OF assms] field.isin_elems [OF assms] by fastforce
    with False show ?thesis by (auto simp: with_random_address_eq [OF assms] r Let_def)
  qed
qed

text \<open>Wire sizes of the discovery messages.\<close>

sublocale postcard_format \<subseteq> identify: codec "ser_Identify pc" "de_Identify pc" identify_ok
  by unfold_locales (simp add: ser_Identify_def de_Identify_def identify_ok_def ser_array_id de_array_append
    de_then_def de_return_def)

sublocale postcard_format \<subseteq> identified: codec "ser_Identified pc" "de_Identified pc" "\<lambda>_. True"
  by unfold_locales (simp add: ser_Identified_def de_Identified_def wire)

lemma frame_len_packet: "n \<le> 33 \<Longrightarrow> frame_len n \<le> MIN_PACKET_SIZE"
  by (simp add: frame_len_def varint_len_1 discovery_sizes)

text \<open>A payload of up to \<open>MIN_PAYLOAD_SIZE\<close> bytes is carried by a packet of \<open>MIN_PACKET_SIZE\<close>.\<close>

context postcard_format
begin

lemma payload_arrives:
  assumes "heapless_vec ext" and "aead_cipher c" and "length p \<le> MIN_PAYLOAD_SIZE" and "length buf = MIN_PACKET_SIZE"
    and "wire_header h = h" and "filt h"
  obtains d where "to_datagram pc ext c h p buf = Some d" "length d = MIN_PACKET_SIZE"
    "from_datagram pc ext d filt c = Some (Inr (h, p))"
proof -
  have len: "varint_len (length p + 4) = 1" "length p + 4 < 2 ^ 32"
    using assms(3) by (simp_all add: varint_len_1 discovery_sizes)
  then have fits: "frame_len (length p) \<le> length buf"
    using assms(3,4) by (simp add: frame_len_def discovery_sizes)
  obtain ct where lct: "length ct = length p + 4" and d: "to_datagram pc ext c h p buf =
      Some (ser_DataFrame pc \<lparr>header = to_packed h, encrypted_payload = ct\<rparr> @ drop (frame_len (length p)) buf)"
      (is "_ = Some ?d")
    by (rule to_datagram_fits [OF assms(1,2) fits])
  have "length ?d = MIN_PACKET_SIZE"
    using fits assms(4) lct len(1) by (simp add: length_ser_DataFrame frame_len_def MIC_SIZE_def)
  moreover have "from_datagram pc ext ?d filt c = Some (Inr (h, p))"
    using from_to_datagram [OF assms(1,2) len(2) d, of filt] assms(5,6) by simp
  ultimately show ?thesis using d that by blast
qed

end

section \<open>Properties\<close>

text \<open>The bit field of a client that knows no server.\<close>

definition no_addresses :: Identify where
  "no_addresses = \<lparr>addresses = replicate MIN_PAYLOAD_SIZE 0\<rparr>"

lemma no_addresses_ok [simp]: "identify_ok no_addresses"
  by (simp add: identify_ok_def no_addresses_def)

lemma no_addresses_unset [simp]: "is_address_set no_addresses a = Some False"
proof -
  have "a \<notin> known_addresses no_addresses"
    by (simp add: known_addresses_def known_def no_addresses_def discovery_sizes)
  then show ?thesis by (simp add: field.isin_elems)
qed

text \<open>
  set_address never panics on a bit field of 32 bytes and adds exactly the one address, all the
  others keep their state.
\<close>

lemma set_then_is_address_set:
  assumes "identify_ok m"
  shows "\<exists>m'. set_address m a = Some m' \<and> identify_ok m' \<and>
    (\<forall>b. is_address_set m' b = Some (b = a \<or> is_address_set m b = Some True))"
  using field.ins_elems [OF assms, of a] field.isin_after_ins [OF assms, of a] by blast

lemma set_then_is_address_set_witness:
  "\<exists>m'. set_address no_addresses 9 = Some m' \<and> identify_ok m' \<and>
    (\<forall>b. is_address_set m' b = Some (b = 9 \<or> is_address_set no_addresses b = Some True))"
  by (rule set_then_is_address_set) simp

text \<open>
  The iterator over the bit field yields 256 values, the one for each address from 0 to 255 in
  order, each what is_address_set says of it.
\<close>

lemma iter_yields_addresses:
  assumes "identify_ok m"
  shows "fold_addresses (\<lambda>acc taken. acc @ [Some taken]) [] (iter m) =
    Some (map (\<lambda>a. is_address_set m (of_nat a)) [0..<256])"
proof -
  have "foldl (\<lambda>acc taken. acc @ [Some taken]) acc xs = acc @ map Some xs" for acc and xs :: "bool list"
    by (induction xs arbitrary: acc) auto
  moreover have "map (\<lambda>a. is_address_set m (of_nat a)) [0..<256] = map (\<lambda>a. Some (known (addresses m) a)) [0..<256]"
    using field.isin_elems [OF assms] by (auto simp: known_addresses_def)
  ultimately show ?thesis
    using assms by (simp add: iter_iter_at fold_addresses_iter_at identify_ok_def discovery_sizes)
qed

lemma iter_yields_addresses_witness:
  "fold_addresses (\<lambda>acc taken. acc @ [Some taken]) [] (iter no_addresses) =
    Some (map (\<lambda>a. is_address_set no_addresses (of_nat a)) [0..<256])"
  by (rule iter_yields_addresses) simp

text \<open>
  with_random_address never panics; it returns an address that is not in the bit field, with the
  ports given, or nothing when all 256 addresses are taken, and then it draws no random number.
\<close>

lemma with_random_address_spare:
  assumes "identify_ok m"
  shows "case with_random_address next_u32 (iter m) rng ports of
      None \<Rightarrow> False
    | Some (None, rng') \<Rightarrow> (\<forall>a. is_address_set m a = Some True) \<and> rng' = rng
    | Some (Some x, rng') \<Rightarrow> is_address_set m (identified_address x) = Some False \<and>
        server_ports x = ports \<and> rng' = snd (next_u32 rng)"
proof (cases "free_addresses (addresses m) 0 = []")
  case True
  then have "is_address_set m a = Some True" for a
    using free_address_unset(2) [OF assms, of a] field.isin_elems [OF assms, of a] by auto
  with True show ?thesis
    by (simp add: with_random_address_eq [OF assms] split: prod.split)
next
  case False
  let ?free = "free_addresses (addresses m) 0"
  have "is_address_set m (of_nat (?free ! (n mod length ?free))) = Some False" for n
    using False by (intro free_address_unset(1) [OF assms] nth_mem) simp
  with False show ?thesis
    by (cases "next_u32 rng") (simp add: with_random_address_eq [OF assms] Let_def)
qed

lemma with_random_address_spare_witness:
  "case with_random_address (\<lambda>n. (n, n + 1)) (iter no_addresses) 300 2 of
      None \<Rightarrow> False
    | Some (None, rng') \<Rightarrow> (\<forall>a. is_address_set no_addresses a = Some True) \<and> rng' = 300
    | Some (Some x, rng') \<Rightarrow> is_address_set no_addresses (identified_address x) = Some False \<and>
        server_ports x = 2 \<and> rng' = snd (300 :: u32, 300 + 1)"
  by (rule with_random_address_spare) simp

text \<open>Every address that is not in the bit field is returned for some random number.\<close>

lemma with_random_address_reaches_all:
  assumes "identify_ok m" and "a \<notin> known_addresses m"
  shows "\<exists>r. \<forall>next_u32 rng rng'. next_u32 rng = (r, rng') \<longrightarrow>
    with_random_address next_u32 (iter m) rng ports =
      Some (Some \<lparr>identified_address = a, server_ports = ports\<rparr>, rng')"
proof -
  let ?free = "free_addresses (addresses m) 0"
  have "unat a \<in> set ?free" using assms free_address_unset(2) by (simp add: is_address_set_known)
  then obtain k where k: "k < length ?free" "?free ! k = unat a"
    by (auto simp: in_set_conv_nth)
  have "unat (of_nat k :: u32) = k"
    using k(1) length_free_addresses [of "addresses m" 0] by (simp add: unat_of_nat)
  with k show ?thesis
    by (intro exI [of _ "of_nat k"]) (auto simp: with_random_address_eq [OF assms(1)] Let_def)
qed

text \<open>A frame around the largest discovery payload leaves one byte of the packet unused.\<close>

lemma packet_has_spare_byte:
  "frame_len MIN_PAYLOAD_SIZE + 1 = MIN_PACKET_SIZE \<and> HEADER_SIZE = 4 + varint_len (MIN_PAYLOAD_SIZE + MIC_SIZE) + 1"
  by (simp add: frame_len_def varint_len_1 discovery_sizes)

end
