(* ===== verification/Semver.thy ===== *)
theory Semver
  imports Rust_Std "HOL-Library.Product_Lexorder"
begin

text \<open>
  The version numbers of software updates (\<open>data/src/update.rs\<close>): the types \<open>PreRelease\<close> and
  \<open>Version\<close>, their \<open>Ord\<close> implementations, \<open>Display\<close> and \<open>FromStr\<close>. The two types are datatypes so
  that they can carry the order as an instance of \<open>linorder\<close>, as the Rust types carry \<open>Ord\<close>.
\<close>

section \<open>Versions and their order\<close>

datatype PreRelease = Alpha u8 | Beta u8

datatype Version = Version (major: u8) (minor: u8) (patch: u8) (pre: "PreRelease option")

fun cmp_pre_release :: "PreRelease \<Rightarrow> PreRelease \<Rightarrow> Ordering" where
  "cmp_pre_release (Alpha self_ident) (Alpha other_ident) = cmp_int self_ident other_ident"
| "cmp_pre_release (Alpha _) (Beta _) = Less"
| "cmp_pre_release (Beta _) (Alpha _) = Greater"
| "cmp_pre_release (Beta self_ident) (Beta other_ident) = cmp_int self_ident other_ident"

definition partial_cmp_pre_release :: "PreRelease \<Rightarrow> PreRelease \<Rightarrow> Ordering option" where
  "partial_cmp_pre_release self other = Some (cmp_pre_release self other)"

definition cmp_version :: "Version \<Rightarrow> Version \<Rightarrow> Ordering" where
  "cmp_version self other =
     then_cmp (then_cmp (then_cmp
       (cmp_int (major self) (major other))
       (cmp_int (minor self) (minor other)))
       (cmp_int (patch self) (patch other)))
       (case (pre self, pre other) of
          (None, None) \<Rightarrow> Equal
        | (None, Some _) \<Rightarrow> Greater
        | (Some _, None) \<Rightarrow> Less
        | (Some self_pre, Some other_pre) \<Rightarrow> cmp_pre_release self_pre other_pre)"

definition partial_cmp_version :: "Version \<Rightarrow> Version \<Rightarrow> Ordering option" where
  "partial_cmp_version self other = Some (cmp_version self other)"

text \<open>The operators \<open>>\<close> and \<open><\<close> of Rust go through \<open>partial_cmp\<close>.\<close>

definition version_gt :: "Version \<Rightarrow> Version \<Rightarrow> bool" where
  "version_gt a b \<longleftrightarrow> partial_cmp_version a b = Some Greater"

section \<open>Printing and parsing\<close>

definition display_version :: "Version \<Rightarrow> string" where
  "display_version v =
     display_u8 (major v) @ ''.'' @ display_u8 (minor v) @ ''.'' @ display_u8 (patch v) @
     (case pre v of
        Some (Alpha ident) \<Rightarrow> ''-alpha.'' @ display_u8 ident
      | Some (Beta ident) \<Rightarrow> ''-beta.'' @ display_u8 ident
      | None \<Rightarrow> [])"

datatype ParseVersionErr = ParseVersionErr

definition version_from_str :: "string \<Rightarrow> ParseVersionErr + Version" where
  "version_from_str s =
     try_with (ok_or ParseVersionErr (split_once ''.'' s)) (\<lambda>(l, r).
     try_with (ok_or ParseVersionErr (parse_u8 l)) (\<lambda>maj.
     try_with (ok_or ParseVersionErr (split_once ''.'' r)) (\<lambda>(l, r).
     try_with (ok_or ParseVersionErr (parse_u8 l)) (\<lambda>min.
     let r = (case split_once ''+'' r of Some (l, _) \<Rightarrow> l | None \<Rightarrow> r);
         (l, r) = (case split_once ''-'' r of Some (l, r) \<Rightarrow> (l, r) | None \<Rightarrow> (r, []))
     in try_with (ok_or ParseVersionErr (parse_u8 l)) (\<lambda>pat.
        try_with
          (case split_once ''alpha.'' r of
             Some (_, r) \<Rightarrow>
               try_with (ok_or ParseVersionErr (parse_u8 r)) (\<lambda>ident. Inr (Some (Alpha ident)))
           | None \<Rightarrow>
               (case split_once ''beta.'' r of
                  Some (_, r) \<Rightarrow>
                    try_with (ok_or ParseVersionErr (parse_u8 r)) (\<lambda>ident. Inr (Some (Beta ident)))
                | None \<Rightarrow> Inr None))
          (\<lambda>pre. Inr (Version maj min pat pre)))))))"

section \<open>The order is a lexicographic order\<close>

text \<open>
  Reference definition of the precedence: the numbers first, then the pre-release, where an alpha
  comes before a beta and every pre-release comes before the release itself.
\<close>

fun pre_rank :: "PreRelease option \<Rightarrow> nat \<times> nat" where
  "pre_rank (Some (Alpha i)) = (0, unat i)"
| "pre_rank (Some (Beta i)) = (1, unat i)"
| "pre_rank None = (2, 0)"

definition precedence :: "Version \<Rightarrow> nat \<times> nat \<times> nat \<times> nat \<times> nat" where
  "precedence v = (unat (major v), unat (minor v), unat (patch v), pre_rank (pre v))"

lemma cmp_int_unat: "cmp_int (unat a) (unat b) = cmp_int a b"
  by (simp add: cmp_int_def word_less_nat_alt)

lemma cmp_int_pair: "cmp_int (a, b) (c, d) = then_cmp (cmp_int a c) (cmp_int b d)"
proof (cases a c rule: linorder_cases)
  case less
  then show ?thesis by (auto simp: cmp_int_def)
next
  case equal
  then show ?thesis by (auto simp: cmp_int_def)
next
  case greater
  then show ?thesis by (auto simp: cmp_int_def)
qed

lemma then_cmp_assoc: "then_cmp (then_cmp a b) c = then_cmp a (then_cmp b c)"
  by (cases a) auto

lemma cmp_pre_rank:
  "cmp_int (pre_rank p) (pre_rank q) =
     (case (p, q) of
        (None, None) \<Rightarrow> Equal
      | (None, Some _) \<Rightarrow> Greater
      | (Some _, None) \<Rightarrow> Less
      | (Some x, Some y) \<Rightarrow> cmp_pre_release x y)"
  by (cases p rule: pre_rank.cases; cases q rule: pre_rank.cases)
     (auto simp: cmp_int_def word_less_nat_alt)

lemma cmp_version_precedence_key:
  "cmp_version a b = cmp_int (precedence a) (precedence b)"
  by (simp add: cmp_version_def precedence_def cmp_int_pair cmp_int_unat cmp_pre_rank then_cmp_assoc)

lemma precedence_inject [simp]: "precedence a = precedence b \<longleftrightarrow> a = b"
proof -
  have "pre_rank p = pre_rank q \<Longrightarrow> p = q" for p q
    by (cases p rule: pre_rank.cases; cases q rule: pre_rank.cases) auto
  then show ?thesis by (cases a; cases b) (auto simp: precedence_def)
qed

instantiation Version :: linorder
begin

definition less_eq_Version :: "Version \<Rightarrow> Version \<Rightarrow> bool" where
  "less_eq_Version a b \<longleftrightarrow> cmp_version a b \<noteq> Greater"

definition less_Version :: "Version \<Rightarrow> Version \<Rightarrow> bool" where
  "less_Version a b \<longleftrightarrow> cmp_version a b = Less"

instance
  by standard (auto simp: less_eq_Version_def less_Version_def cmp_version_precedence_key)

end

lemma version_gt_iff: "version_gt a b \<longleftrightarrow> b < a"
  by (auto simp: version_gt_def partial_cmp_version_def less_Version_def cmp_version_precedence_key)

lemma less_Version_precedence: "a < b \<longleftrightarrow> precedence a < precedence b" for a b :: Version
  by (simp add: less_Version_def cmp_version_precedence_key)

section \<open>Parsing inverts printing\<close>

text \<open>What follows the second dot of a printed version, and how the parser takes it apart.\<close>

definition pre_suffix :: "PreRelease option \<Rightarrow> string" where
  "pre_suffix p =
     (case p of
        Some (Alpha ident) \<Rightarrow> ''-alpha.'' @ display_u8 ident
      | Some (Beta ident) \<Rightarrow> ''-beta.'' @ display_u8 ident
      | None \<Rightarrow> [])"

lemma split_minus_suffix:
  "(case split_once ''-'' (display_u8 b @ pre_suffix p) of Some (l, r) \<Rightarrow> (l, r)
     | None \<Rightarrow> (display_u8 b @ pre_suffix p, [])) = (display_u8 b, tl (pre_suffix p))"
proof (cases p)
  case None
  have "split_once ''-'' (display_u8 b) = None"
    by (rule split_once_absent [of "CHR ''-''"]) auto
  with None show ?thesis by (simp add: pre_suffix_def)
next
  case (Some q)
  then show ?thesis
    using split_once_char [of "CHR ''-''" "display_u8 b"]
    by (auto simp: pre_suffix_def split: PreRelease.splits)
qed

lemma plus_not_in_suffix [simp]: "CHR ''+'' \<notin> set (pre_suffix p)"
  by (auto simp: pre_suffix_def split: option.splits PreRelease.splits)

lemma split_alpha [simp]:
  "split_once ''alpha.'' (''alpha.'' @ r) = Some ([], r)"
  by (rule split_once_prefix) simp

lemma split_beta [simp]:
  "split_once ''beta.'' (''beta.'' @ r) = Some ([], r)"
  by (rule split_once_prefix) simp

lemma split_alpha_beta:
  "split_once ''alpha.'' (''beta.'' @ display_u8 b) = None"
  by (rule split_once_absent [of "CHR ''l''"]) auto

lemma parse_pre_suffix:
  "(case split_once ''alpha.'' (tl (pre_suffix p)) of
      Some (_, r) \<Rightarrow>
        try_with (ok_or ParseVersionErr (parse_u8 r)) (\<lambda>ident. Inr (Some (Alpha ident)))
    | None \<Rightarrow>
        (case split_once ''beta.'' (tl (pre_suffix p)) of
           Some (_, r) \<Rightarrow>
             try_with (ok_or ParseVersionErr (parse_u8 r)) (\<lambda>ident. Inr (Some (Beta ident)))
         | None \<Rightarrow> Inr None)) = (Inr p :: ParseVersionErr + PreRelease option)"
proof (cases p)
  case None
  then show ?thesis by (simp add: pre_suffix_def)
next
  case (Some q)
  then show ?thesis
    using split_alpha split_beta split_alpha_beta
    by (cases q) (simp_all add: pre_suffix_def)
qed

lemma version_from_str_parts:
  assumes "(case split_once ''+'' r of Some (l, _) \<Rightarrow> l | None \<Rightarrow> r) = display_u8 c @ pre_suffix p"
  shows "version_from_str (display_u8 a @ ''.'' @ display_u8 b @ ''.'' @ r) = Inr (Version a b c p)"
  using assms split_once_char [of "CHR ''.''" "display_u8 a" "display_u8 b @ ''.'' @ r"]
    split_once_char [of "CHR ''.''" "display_u8 b" r]
  by (simp add: version_from_str_def split_minus_suffix parse_pre_suffix)

lemma display_version_parts:
  "display_version v =
     display_u8 (major v) @ ''.'' @ display_u8 (minor v) @ ''.'' @ display_u8 (patch v) @ pre_suffix (pre v)"
  by (simp add: display_version_def pre_suffix_def)

text \<open>
  C40. Every version is parsed from its printed form.
\<close>

theorem version_roundtrip: "version_from_str (display_version v) = Inr v"
proof -
  have "split_once ''+'' (display_u8 (patch v) @ pre_suffix (pre v)) = None"
    by (rule split_once_absent [of "CHR ''+''"]) auto
  then show ?thesis
    unfolding display_version_parts by (subst version_from_str_parts) auto
qed

text \<open>Build metadata after a plus sign does not change the version parsed.\<close>

lemma version_build_ignored: "version_from_str (display_version v @ ''+'' @ build) = Inr v"
proof -
  have "split_once ''+'' ((display_u8 (patch v) @ pre_suffix (pre v)) @ CHR ''+'' # build) =
      Some (display_u8 (patch v) @ pre_suffix (pre v), build)"
    by (rule split_once_char) auto
  then show ?thesis
    using version_from_str_parts
      [of "display_u8 (patch v) @ pre_suffix (pre v) @ ''+'' @ build" "patch v" "pre v" "major v" "minor v"]
    by (simp add: display_version_parts)
qed

text \<open>
  C31. The comparison of versions is that of major, minor and patch numbers and then of the
  pre-release, where alphas come before betas and both before the release.
\<close>

theorem version_precedence: "cmp_version a b = cmp_int (precedence a) (precedence b)"
  by (rule cmp_version_precedence_key)

text \<open>
  A version with a pre-release tag that is neither an alpha nor a beta is parsed as the release
  itself.
\<close>

lemma unknown_pre_release_is_release:
  assumes "split_once ''alpha.'' tag = None" and "split_once ''beta.'' tag = None"
    and "CHR ''+'' \<notin> set tag"
  shows "version_from_str (display_version (Version a b c None) @ ''-'' @ tag) = Inr (Version a b c None)"
proof -
  have "split_once ''+'' (display_u8 c @ CHR ''-'' # tag) = None"
    using assms(3) by (intro split_once_absent [of "CHR ''+''"]) auto
  moreover have "split_once ''-'' (display_u8 c @ CHR ''-'' # tag) = Some (display_u8 c, tag)"
    by (rule split_once_char) simp
  ultimately show ?thesis
    using assms(1,2) split_once_char [of "CHR ''.''" "display_u8 b" "display_u8 c @ ''-'' @ tag"]
      split_once_char [of "CHR ''.''" "display_u8 a" "display_u8 b @ ''.'' @ display_u8 c @ ''-'' @ tag"]
    by (simp add: version_from_str_def display_version_def)
qed

lemma unknown_pre_release_is_release_witness:
  "version_from_str (display_version (Version 1 2 3 None) @ ''-'' @ ''rc.1'') = Inr (Version 1 2 3 None)
   \<and> display_version (Version 1 2 3 None) = ''1.2.3''"
proof
  show "version_from_str (display_version (Version 1 2 3 None) @ ''-'' @ ''rc.1'') = Inr (Version 1 2 3 None)"
    by (rule unknown_pre_release_is_release) simp_all
  show "display_version (Version 1 2 3 None) = ''1.2.3''"
    by code_simp
qed

end
