(* ===== verification/Aes_Ccm.thy ===== *)
theory Aes_Ccm
  imports Data_Link
begin

unbundle bit_operations_syntax

text \<open>
  AES-128 in counter mode with CBC-MAC (\<open>Ccm<Aes128, U4, U7>\<close>), the cipher that the tests and the
  examples of the data link layer pick. The cipher is not part of the repository; this is its standard
  (FIPS 197, RFC 3610), written out for two reasons. It shows that what the development relies on of a
  cipher holds of the one in use, and it lets the datagram of the unit tests be computed byte by byte.
\<close>

section \<open>AES-128\<close>

text \<open>A block is four columns of four bytes.\<close>

type_synonym column = "u8 \<times> u8 \<times> u8 \<times> u8"
type_synonym block = "column \<times> column \<times> column \<times> column"

definition SBOX :: "u8 list list" where
  "SBOX = [
    [0x63, 0x7C, 0x77, 0x7B, 0xF2, 0x6B, 0x6F, 0xC5, 0x30, 0x01, 0x67, 0x2B, 0xFE, 0xD7, 0xAB, 0x76],
    [0xCA, 0x82, 0xC9, 0x7D, 0xFA, 0x59, 0x47, 0xF0, 0xAD, 0xD4, 0xA2, 0xAF, 0x9C, 0xA4, 0x72, 0xC0],
    [0xB7, 0xFD, 0x93, 0x26, 0x36, 0x3F, 0xF7, 0xCC, 0x34, 0xA5, 0xE5, 0xF1, 0x71, 0xD8, 0x31, 0x15],
    [0x04, 0xC7, 0x23, 0xC3, 0x18, 0x96, 0x05, 0x9A, 0x07, 0x12, 0x80, 0xE2, 0xEB, 0x27, 0xB2, 0x75],
    [0x09, 0x83, 0x2C, 0x1A, 0x1B, 0x6E, 0x5A, 0xA0, 0x52, 0x3B, 0xD6, 0xB3, 0x29, 0xE3, 0x2F, 0x84],
    [0x53, 0xD1, 0x00, 0xED, 0x20, 0xFC, 0xB1, 0x5B, 0x6A, 0xCB, 0xBE, 0x39, 0x4A, 0x4C, 0x58, 0xCF],
    [0xD0, 0xEF, 0xAA, 0xFB, 0x43, 0x4D, 0x33, 0x85, 0x45, 0xF9, 0x02, 0x7F, 0x50, 0x3C, 0x9F, 0xA8],
    [0x51, 0xA3, 0x40, 0x8F, 0x92, 0x9D, 0x38, 0xF5, 0xBC, 0xB6, 0xDA, 0x21, 0x10, 0xFF, 0xF3, 0xD2],
    [0xCD, 0x0C, 0x13, 0xEC, 0x5F, 0x97, 0x44, 0x17, 0xC4, 0xA7, 0x7E, 0x3D, 0x64, 0x5D, 0x19, 0x73],
    [0x60, 0x81, 0x4F, 0xDC, 0x22, 0x2A, 0x90, 0x88, 0x46, 0xEE, 0xB8, 0x14, 0xDE, 0x5E, 0x0B, 0xDB],
    [0xE0, 0x32, 0x3A, 0x0A, 0x49, 0x06, 0x24, 0x5C, 0xC2, 0xD3, 0xAC, 0x62, 0x91, 0x95, 0xE4, 0x79],
    [0xE7, 0xC8, 0x37, 0x6D, 0x8D, 0xD5, 0x4E, 0xA9, 0x6C, 0x56, 0xF4, 0xEA, 0x65, 0x7A, 0xAE, 0x08],
    [0xBA, 0x78, 0x25, 0x2E, 0x1C, 0xA6, 0xB4, 0xC6, 0xE8, 0xDD, 0x74, 0x1F, 0x4B, 0xBD, 0x8B, 0x8A],
    [0x70, 0x3E, 0xB5, 0x66, 0x48, 0x03, 0xF6, 0x0E, 0x61, 0x35, 0x57, 0xB9, 0x86, 0xC1, 0x1D, 0x9E],
    [0xE1, 0xF8, 0x98, 0x11, 0x69, 0xD9, 0x8E, 0x94, 0x9B, 0x1E, 0x87, 0xE9, 0xCE, 0x55, 0x28, 0xDF],
    [0x8C, 0xA1, 0x89, 0x0D, 0xBF, 0xE6, 0x42, 0x68, 0x41, 0x99, 0x2D, 0x0F, 0xB0, 0x54, 0xBB, 0x16]]"

definition sbox :: "u8 \<Rightarrow> u8" where
  "sbox a = SBOX ! (unat a div 16) ! (unat a mod 16)"

definition xtime :: "u8 \<Rightarrow> u8" where
  "xtime a = push_bit 1 a XOR (if bit a 7 then 0x1B else 0)"

fun map_column :: "(u8 \<Rightarrow> u8) \<Rightarrow> column \<Rightarrow> column" where
  "map_column f (a, b, c, d) = (f a, f b, f c, f d)"

fun xor_column :: "column \<Rightarrow> column \<Rightarrow> column" where
  "xor_column (a, b, c, d) (a', b', c', d') = (a XOR a', b XOR b', c XOR c', d XOR d')"

fun map_block :: "(column \<Rightarrow> column) \<Rightarrow> block \<Rightarrow> block" where
  "map_block f (p, q, r, s) = (f p, f q, f r, f s)"

fun xor_block :: "block \<Rightarrow> block \<Rightarrow> block" where
  "xor_block (p, q, r, s) (p', q', r', s') =
     (xor_column p p', xor_column q q', xor_column r r', xor_column s s')"

definition sub_bytes :: "block \<Rightarrow> block" where
  "sub_bytes = map_block (map_column sbox)"

fun shift_rows :: "block \<Rightarrow> block" where
  "shift_rows ((a0, a1, a2, a3), (b0, b1, b2, b3), (c0, c1, c2, c3), (d0, d1, d2, d3)) =
     ((a0, b1, c2, d3), (b0, c1, d2, a3), (c0, d1, a2, b3), (d0, a1, b2, c3))"

fun mix_column :: "column \<Rightarrow> column" where
  "mix_column (a, b, c, d) =
     (xtime a XOR xtime b XOR b XOR c XOR d, a XOR xtime b XOR xtime c XOR c XOR d,
      a XOR b XOR xtime c XOR xtime d XOR d, xtime a XOR a XOR b XOR c XOR xtime d)"

text \<open>The next round key, from the previous one and the round constant.\<close>

fun rot_word :: "column \<Rightarrow> column" where
  "rot_word (a, b, c, d) = (b, c, d, a)"

fun next_key :: "u8 \<Rightarrow> block \<Rightarrow> block" where
  "next_key rcon (p, q, r, s) =
     (let p' = xor_column (xor_column p (map_column sbox (rot_word s))) (rcon, 0, 0, 0);
          q' = xor_column q p'; r' = xor_column r q'; s' = xor_column s r'
      in (p', q', r', s'))"

text \<open>The middle rounds, one round constant each, and the last round, which does not mix columns.\<close>

fun aes_rounds :: "u8 list \<Rightarrow> block \<Rightarrow> block \<Rightarrow> block" where
  "aes_rounds [] k s = s"
| "aes_rounds [rcon] k s = xor_block (shift_rows (sub_bytes s)) (next_key rcon k)"
| "aes_rounds (rcon # rcons) k s =
     (let k' = next_key rcon k
      in aes_rounds rcons k' (xor_block (map_block mix_column (shift_rows (sub_bytes s))) k'))"

definition aes128 :: "block \<Rightarrow> block \<Rightarrow> block" where
  "aes128 key b =
     aes_rounds [0x01, 0x02, 0x04, 0x08, 0x10, 0x20, 0x40, 0x80, 0x1B, 0x36] key (xor_block b key)"

section \<open>Counter mode with CBC-MAC\<close>

text \<open>A block of the first sixteen bytes of a list, padded with zeros, and back.\<close>

definition byte_at :: "bytes \<Rightarrow> nat \<Rightarrow> u8" where
  "byte_at bs i = (if i < length bs then bs ! i else 0)"

definition block_of :: "bytes \<Rightarrow> block" where
  "block_of bs =
     ((byte_at bs 0, byte_at bs 1, byte_at bs 2, byte_at bs 3),
      (byte_at bs 4, byte_at bs 5, byte_at bs 6, byte_at bs 7),
      (byte_at bs 8, byte_at bs 9, byte_at bs 10, byte_at bs 11),
      (byte_at bs 12, byte_at bs 13, byte_at bs 14, byte_at bs 15))"

fun column_bytes :: "column \<Rightarrow> bytes" where
  "column_bytes (a, b, c, d) = [a, b, c, d]"

fun block_bytes :: "block \<Rightarrow> bytes" where
  "block_bytes (p, q, r, s) = column_bytes p @ column_bytes q @ column_bytes r @ column_bytes s"

function blocks_of :: "bytes \<Rightarrow> block list" where
  "blocks_of bs = (if bs = [] then [] else block_of bs # blocks_of (drop 16 bs))"
  by pat_completeness auto
termination
  by (relation "measure length") auto

declare blocks_of.simps [simp del]

text \<open>An unsigned number in \<open>k\<close> bytes, most significant first.\<close>

definition be_bytes :: "nat \<Rightarrow> nat \<Rightarrow> bytes" where
  "be_bytes k n = map (\<lambda>i. of_nat (n div 256 ^ (k - 1 - i))) [0..<k]"

definition ccm_header :: "bytes \<Rightarrow> bytes \<Rightarrow> bytes \<Rightarrow> bytes" where
  "ccm_header n a p =
     [(if a = [] then 0 else 64) + 8 * 1 + 7] @ n @ be_bytes 8 (length p)"

definition ccm_aad :: "bytes \<Rightarrow> bytes" where
  "ccm_aad a =
     (if a = [] then []
      else if length a < 0xFF00 then be_bytes 2 (length a) @ a
      else [0xFF, 0xFE] @ be_bytes 4 (length a) @ a)"

definition cbc_mac :: "(block \<Rightarrow> block) \<Rightarrow> bytes \<Rightarrow> bytes \<Rightarrow> bytes \<Rightarrow> block" where
  "cbc_mac E n a p =
     fold (\<lambda>b x. E (xor_block x b))
       (blocks_of (ccm_header n a p) @ blocks_of (ccm_aad a) @ blocks_of p) (block_of [])"

definition key_block :: "(block \<Rightarrow> block) \<Rightarrow> bytes \<Rightarrow> nat \<Rightarrow> bytes" where
  "key_block E n i = block_bytes (E (block_of ([7] @ n @ be_bytes 8 i)))"

definition key_stream :: "(block \<Rightarrow> block) \<Rightarrow> bytes \<Rightarrow> nat \<Rightarrow> bytes" where
  "key_stream E n len = take len (concat (map (\<lambda>i. key_block E n (Suc i)) [0..<(len + 15) div 16]))"

definition xor_bytes :: "bytes \<Rightarrow> bytes \<Rightarrow> bytes" where
  "xor_bytes xs ys = map2 (XOR) xs ys"

definition ccm_tag :: "(block \<Rightarrow> block) \<Rightarrow> bytes \<Rightarrow> bytes \<Rightarrow> bytes \<Rightarrow> bytes" where
  "ccm_tag E n a p = take 4 (xor_bytes (block_bytes (cbc_mac E n a p)) (key_block E n 0))"

definition ccm :: "(block \<Rightarrow> block) \<Rightarrow> aead" where
  "ccm E =
     \<lparr>nonce_size = 7,
      encrypt_in_place = (\<lambda>n a cap p.
        if length p + 4 \<le> cap then Some (xor_bytes p (key_stream E n (length p)) @ ccm_tag E n a p)
        else None),
      decrypt_in_place = (\<lambda>n a ct.
        if length ct < 4 then None
        else
          let c = take (length ct - 4) ct; p = xor_bytes c (key_stream E n (length c))
          in if drop (length ct - 4) ct = ccm_tag E n a p then Some p else None)\<rparr>"

definition aes_ccm :: "bytes \<Rightarrow> aead" where
  "aes_ccm key = ccm (aes128 (block_of key))"

section \<open>Counter mode undoes itself, and the tag fixes the ciphertext\<close>

lemma length_block_bytes [simp]: "length (block_bytes b) = 16"
  by (cases b rule: block_bytes.cases) (auto elim!: column_bytes.elims simp: prod_cases4)

lemma length_key_stream [simp]: "length (key_stream E n len) = len"
proof -
  have "length (concat (map (\<lambda>i. key_block E n (Suc i)) [0..<k])) = 16 * k" for k
    by (induction k) (simp_all add: key_block_def)
  moreover have "len \<le> 16 * ((len + 15) div 16)" by presburger
  ultimately show ?thesis by (simp add: key_stream_def)
qed

lemma length_xor_bytes [simp]: "length (xor_bytes xs ys) = min (length xs) (length ys)"
  by (simp add: xor_bytes_def)

lemma xor_bytes_twice [simp]: "length xs \<le> length ys \<Longrightarrow> xor_bytes (xor_bytes xs ys) ys = xs"
  by (rule nth_equalityI) (simp_all add: xor_bytes_def xor.assoc)

lemma length_ccm_tag [simp]: "length (ccm_tag E n a p) = 4"
  by (simp add: ccm_tag_def key_block_def)

text \<open>Both laws hold whatever the block cipher; so they hold of AES-128.\<close>

lemma aead_ccm: "aead_cipher (ccm E)"
  by (auto simp: aead_cipher_def ccm_def NONCE_SIZE_def MIC_SIZE_def Let_def split: if_splits)

lemma authentic_ccm: "authentic (ccm E)"
  by (auto simp: authentic_def ccm_def Let_def split: if_splits) (metis append_take_drop_id)

lemma aead_aes_ccm [simp]: "aead_cipher (aes_ccm key)"
  by (simp add: aes_ccm_def aead_ccm)

lemma authentic_aes_ccm [simp]: "authentic (aes_ccm key)"
  by (simp add: aes_ccm_def authentic_ccm)

section \<open>Evaluation\<close>

text \<open>The rows of the substitution table, so that a look-up does not go through the whole table.\<close>

lemmas SBOX_nth = SBOX_def [THEN arg_cong [of _ _ "\<lambda>t. t ! i" for i]]

lemmas SBOX_rows = SBOX_nth [of 0, simplified] SBOX_nth [of 1, simplified] SBOX_nth [of 2, simplified]
  SBOX_nth [of 3, simplified] SBOX_nth [of 4, simplified] SBOX_nth [of 5, simplified]
  SBOX_nth [of 6, simplified] SBOX_nth [of 7, simplified] SBOX_nth [of 8, simplified]
  SBOX_nth [of 9, simplified] SBOX_nth [of 10, simplified] SBOX_nth [of 11, simplified]
  SBOX_nth [of 12, simplified] SBOX_nth [of 13, simplified] SBOX_nth [of 14, simplified]
  SBOX_nth [of 15, simplified]

lemmas aes_defs = SBOX_rows sbox_def xtime_def sub_bytes_def aes128_def Let_def


lemmas ccm_defs = ccm_tag_def key_stream_def xor_bytes_def key_block_def cbc_mac_def ccm_header_def
  ccm_aad_def be_bytes_def blocks_of.simps block_of_def byte_at_def upt_rec

text \<open>The example vector of FIPS 197, appendix C.1.\<close>

lemma aes128_fips_197:
  "block_bytes (aes128 (block_of [0, 1, 2, 3, 4, 5, 6, 7, 8, 9, 10, 11, 12, 13, 14, 15])
     (block_of [0x00, 0x11, 0x22, 0x33, 0x44, 0x55, 0x66, 0x77, 0x88, 0x99, 0xAA, 0xBB, 0xCC, 0xDD, 0xEE, 0xFF])) =
   [0x69, 0xC4, 0xE0, 0xD8, 0x6A, 0x7B, 0x04, 0x30, 0xD8, 0xCD, 0xB7, 0x80, 0x70, 0xB4, 0xC5, 0x5A]"
  by (simp add: aes_defs block_of_def byte_at_def)

end
