(* ===== verification/Data_Tests.thy ===== *)
theory Data_Tests
  imports Discovery Semver Aes_Ccm
begin

unbundle bit_operations_syntax

text \<open>
  The unit tests of the data link layer (\<open>data/src/lib.rs\<close>, \<open>data/src/discovery.rs\<close> and
  \<open>data/src/update.rs\<close>, modules \<open>tests\<close>), each one a computation that panics when an assertion of the
  test fails. \<open>AesCcm\<close> is the constructor of the cipher from its key, a parameter like the other
  third-party code; with the standard cipher \<open>aes_ccm\<close> the datagram that the tests expect is the one
  that the model computes.
\<close>

section \<open>Datagrams\<close>

text \<open>A Rust byte string literal.\<close>

definition byte_string :: "string \<Rightarrow> bytes" where
  "byte_string s = map of_char s"

definition test_datagram_serialisation :: "'pe postcard \<Rightarrow> extend \<Rightarrow> (bytes \<Rightarrow> aead) \<Rightarrow> unit exec" where
  "test_datagram_serialisation pc ext AesCcm = (
     let key = byte_string ''0123456789ABCDEF'';
         cipher = AesCcm key;
         header = \<lparr>version = 0, source = Server, server_address = 255, server_port = 7, frame_counter = 1\<rparr>;
         payload_buf = byte_string ''some data'';
         datagram_buf = replicate 32 0
     in do {
       datagram_buf \<leftarrow> to_datagram pc ext cipher header payload_buf datagram_buf;
       assert (datagram_buf =
         [0, 1, 63, 252, 13, 145, 171, 66, 62, 129, 223, 68, 168, 6, 69, 126, 97, 64, 0, 0,
          0, 0, 0, 0, 0, 0, 0, 0, 0, 0, 0, 0])
     })"

definition test_datagram_deserialisation :: "'pe postcard \<Rightarrow> extend \<Rightarrow> (bytes \<Rightarrow> aead) \<Rightarrow> unit exec" where
  "test_datagram_deserialisation pc ext AesCcm = (
     let key = byte_string ''0123456789ABCDEF'';
         cipher = AesCcm key;
         datagram_buf =
           [0, 1, 63, 252, 13, 145, 171, 66, 62, 129, 223, 68, 168, 6, 69, 126, 97, 64, 0, 0, 0, 0,
            0, 0, 0, 0, 0, 0, 0, 0, 0, 0]
     in do {
       r \<leftarrow> from_datagram pc ext datagram_buf
         (\<lambda>h. source h = Server \<and> server_address h = 255 \<and> server_port h = 7) cipher;
       (header, payload_buf) \<leftarrow> unwrap r;
       assert (header =
         \<lparr>version = 0, source = Server, server_address = 255, server_port = 7, frame_counter = 1\<rparr>);
       assert (payload_buf = byte_string ''some data'')
     })"

section \<open>Discovery\<close>

text \<open>The random number generator of the tests, which always returns the one number.\<close>

record RngFixture =
  return_val :: u32

definition next_u32_fixture :: "RngFixture \<Rightarrow> u32 \<times> RngFixture" where
  "next_u32_fixture self = (return_val self, self)"

text \<open>\<open>iter.enumerate().skip(n).find(P)\<close>; \<open>i\<close> is the index of the next element.\<close>

function find_address ::
    "(nat \<times> bool \<Rightarrow> bool) \<Rightarrow> nat \<Rightarrow> nat \<Rightarrow> AddressesIter \<Rightarrow> (nat \<times> bool) option exec" where
  "find_address P n i it =
     (case next_address it of
        None \<Rightarrow> None
      | Some (None, _) \<Rightarrow> Some None
      | Some (Some x, it') \<Rightarrow>
          if n > 0 then find_address P (n - 1) (i + 1) it'
          else if P (i, x) then Some (Some (i, x))
          else find_address P n (i + 1) it')"
  by pat_completeness auto
termination
  by (relation "inv_image iter_measure (\<lambda>(P, n, i, it). it)") (auto intro: next_address_measure)

declare find_address.simps [simp del]

text \<open>The loops \<open>for address in lo..MAX_ADDRESSES\<close> of the tests.\<close>

definition set_from :: "nat \<Rightarrow> Identify \<Rightarrow> Identify exec" where
  "set_from lo identify = fold_exec (\<lambda>m a. set_address m (of_nat a)) [lo..<MAX_ADDRESSES] identify"

definition test_set_get_bits :: "unit exec" where
  "test_set_get_bits = (
     let identify = \<lparr>addresses = replicate MIN_PAYLOAD_SIZE 0\<rparr>
     in do {
       identify \<leftarrow> set_address identify 1;
       identify \<leftarrow> set_address identify 9;
       b0 \<leftarrow> index (addresses identify) 0;
       assert (b0 = 0b00000010);
       b1 \<leftarrow> index (addresses identify) 1;
       assert (b1 = 0b00000010);
       s1 \<leftarrow> is_address_set identify 1;
       assert s1;
       s9 \<leftarrow> is_address_set identify 9;
       assert s9;
       s10 \<leftarrow> is_address_set identify 10;
       assert (\<not> s10)
     })"

definition test_identified_with_none_free :: "unit exec" where
  "test_identified_with_none_free = (
     let identify = \<lparr>addresses = replicate MIN_PAYLOAD_SIZE 0\<rparr>
     in do {
       identify \<leftarrow> set_from 0 identify;
       (r, _) \<leftarrow> with_random_address next_u32_fixture (iter identify) \<lparr>return_val = 1\<rparr> 0b00000010;
       assert (r = None)
     })"

definition test_identified_with_one_free :: "unit exec" where
  "test_identified_with_one_free = (
     let identify = \<lparr>addresses = replicate MIN_PAYLOAD_SIZE 0\<rparr>
     in do {
       identify \<leftarrow> set_from 2 identify;
       (r, _) \<leftarrow> with_random_address next_u32_fixture (iter identify) \<lparr>return_val = 1\<rparr> 0b00000010;
       assert (r = Some \<lparr>identified_address = 1, server_ports = 0b00000010\<rparr>)
     })"

definition test_identified_with_three_free :: "unit exec" where
  "test_identified_with_three_free = (
     let identify = \<lparr>addresses = replicate MIN_PAYLOAD_SIZE 0\<rparr>
     in do {
       identify \<leftarrow> set_address identify 0;
       identify \<leftarrow> set_from 4 identify;
       (r, _) \<leftarrow> with_random_address next_u32_fixture (iter identify) \<lparr>return_val = 2\<rparr> 0b00000010;
       assert (r = Some \<lparr>identified_address = 3, server_ports = 0b00000010\<rparr>)
     })"

definition test_identified_with_all_but_first_free :: "unit exec" where
  "test_identified_with_all_but_first_free = (
     let identify = \<lparr>addresses = replicate MIN_PAYLOAD_SIZE 0\<rparr>
     in do {
       identify \<leftarrow> set_address identify 0;
       (r, _) \<leftarrow> with_random_address next_u32_fixture (iter identify) \<lparr>return_val = 254\<rparr> 0b00000010;
       assert (r = Some \<lparr>identified_address = 255, server_ports = 0b00000010\<rparr>)
     })"

definition test_iter_with_skip :: "unit exec" where
  "test_iter_with_skip = (
     let identify = \<lparr>addresses = replicate MIN_PAYLOAD_SIZE 0\<rparr>
     in do {
       identify \<leftarrow> set_address identify 0;
       identify \<leftarrow> set_address identify 3;
       r \<leftarrow> find_address (\<lambda>(_, is_set). is_set) 1 0 (iter identify);
       assert (r = Some (3, True))
     })"

section \<open>Versions\<close>

definition test_parse_versions :: "unit exec" where
  "test_parse_versions = do {
     v \<leftarrow> unwrap (version_from_str ''1.2.3'');
     assert (v = Version 1 2 3 None);
     v \<leftarrow> unwrap (version_from_str ''1.2.3-alpha.1'');
     assert (v = Version 1 2 3 (Some (Alpha 1)));
     v \<leftarrow> unwrap (version_from_str ''1.2.3-beta.1'');
     assert (v = Version 1 2 3 (Some (Beta 1)));
     v \<leftarrow> unwrap (version_from_str ''1.2.3-beta.1+some-additional-ident'');
     assert (v = Version 1 2 3 (Some (Beta 1)));
     v \<leftarrow> unwrap (version_from_str ''1.2.3+some-additional-ident'');
     assert (v = Version 1 2 3 None)
   }"

text \<open>\<open>assert!(a.parse().unwrap() < b.parse().unwrap())\<close>.\<close>

definition assert_parsed_lt :: "string \<Rightarrow> string \<Rightarrow> unit exec" where
  "assert_parsed_lt a b = do {
     v \<leftarrow> unwrap (version_from_str a);
     w \<leftarrow> unwrap (version_from_str b);
     assert (partial_cmp_version v w = Some Less)
   }"

definition test_compare_versions :: "unit exec" where
  "test_compare_versions = do {
     v \<leftarrow> unwrap (version_from_str ''1.0.0'');
     w \<leftarrow> unwrap (version_from_str ''1.0.0'');
     assert (v = w);
     assert_parsed_lt ''1.0.0'' ''2.0.0'';
     assert_parsed_lt ''1.1.0'' ''1.2.0'';
     assert_parsed_lt ''1.1.1'' ''1.1.2'';
     assert_parsed_lt ''1.0.0-alpha.1'' ''1.0.0'';
     assert_parsed_lt ''1.0.0-beta.1'' ''1.0.0'';
     assert_parsed_lt ''1.0.0-alpha.1'' ''1.0.0-beta.1'';
     assert_parsed_lt ''1.0.0-alpha.1'' ''1.0.0-alpha.2''
   }"

definition display_versions :: "unit exec" where
  "display_versions = do {
     v \<leftarrow> unwrap (version_from_str ''1.2.3'');
     assert (display_version v = ''1.2.3'');
     v \<leftarrow> unwrap (version_from_str ''1.2.3-alpha.4'');
     assert (display_version v = ''1.2.3-alpha.4'');
     v \<leftarrow> unwrap (version_from_str ''1.2.3-beta.4'');
     assert (display_version v = ''1.2.3-beta.4'')
   }"

section \<open>The tests pass\<close>

subsection \<open>Versions\<close>

lemma test_parse_versions_passes: "test_parse_versions = Some ()"
  by code_simp

lemma test_compare_versions_passes: "test_compare_versions = Some ()"
  by code_simp

lemma display_versions_passes: "display_versions = Some ()"
  by code_simp

subsection \<open>Discovery\<close>

lemma no_addresses_field: "\<lparr>addresses = replicate MIN_PAYLOAD_SIZE 0\<rparr> = no_addresses"
  by (simp add: no_addresses_def)

lemma known_no_addresses [simp]: "known_addresses no_addresses = {}"
  by (simp add: known_addresses_def known_def no_addresses_def discovery_sizes)

lemma set_from_adds:
  assumes "identify_ok m"
  obtains m' where "set_from lo m = Some m'" "identify_ok m'"
    "known_addresses m' = known_addresses m \<union> of_nat ` {lo..<256}"
proof -
  have "fold_exec (\<lambda>m a. set_address m (of_nat a)) as = fold_exec set_address (map of_nat as)" for as
  proof (induction as)
    case (Cons a as)
    then show ?case by (intro ext) simp
  qed (simp add: fun_eq_iff)
  then show ?thesis
    using field.ins_all [OF assms, of "map of_nat [lo..<256]"] that
    by (auto simp: set_from_def discovery_sizes)
qed

text \<open>What \<open>with_random_address\<close> returns, given the list of the addresses that are not taken.\<close>

lemma with_random_address_free:
  assumes "identify_ok m" and "filter (\<lambda>a. of_nat a \<notin> known_addresses m) [0..<256] = free"
  shows "with_random_address next_u32_fixture (iter m) \<lparr>return_val = r\<rparr> ports = Some
    (if free = [] then None
     else Some \<lparr>identified_address = of_nat (free ! (unat r mod length free)), server_ports = ports\<rparr>,
     \<lparr>return_val = r\<rparr>)"
proof -
  have "free_addresses (addresses m) 0 = filter (\<lambda>a. of_nat a \<notin> known_addresses m) [0..<256]"
    unfolding free_addresses_def by (rule filter_cong) (auto simp: known_addresses_def)
  then show ?thesis
    by (simp add: with_random_address_eq [OF assms(1)] assms(2) next_u32_fixture_def)
qed

lemma of_nat_u8_eq: "a < 256 \<Longrightarrow> b < 256 \<Longrightarrow> (of_nat a :: u8) = of_nat b \<longleftrightarrow> a = b"
  by (metis unat_of_nat_u8)

lemma of_nat_u8_image:
  "a < 256 \<Longrightarrow> hi \<le> 256 \<Longrightarrow> (of_nat a :: u8) \<in> of_nat ` {lo..<hi} \<longleftrightarrow> lo \<le> a \<and> a < hi"
  by (auto simp: image_iff of_nat_u8_eq)

lemma of_nat_u8_eq_0: "a < 256 \<Longrightarrow> (of_nat a :: u8) = 0 \<longleftrightarrow> a = 0"
  using of_nat_u8_eq [of a 0] by simp

lemma filter_upt_less: "k \<le> n \<Longrightarrow> filter (\<lambda>a. a < k) [0..<n] = [0..<k]"
proof (induction n)
  case (Suc n)
  then show ?case by (cases "k = Suc n") (auto simp: filter_id_conv)
qed simp

lemma filter_upt_pos: "filter (\<lambda>a. 0 < a) [0..<n] = [1..<n]"
  by (induction n) auto

lemma test_set_get_bits_passes: "test_set_get_bits = Some ()"
  by (simp add: test_set_get_bits_def set_address_def is_address_set_def discovery_sizes)

lemma test_iter_with_skip_passes: "test_iter_with_skip = Some ()"
  by (simp add: test_iter_with_skip_def set_address_def iter_def find_address.simps next_address_def
        discovery_sizes)

lemma none_free_passes: "test_identified_with_none_free = Some ()"
proof -
  obtain m where m: "set_from 0 no_addresses = Some m" "identify_ok m"
      "known_addresses m = of_nat ` {0..<256}"
    using set_from_adds [OF no_addresses_ok, of 0] by auto
  have "filter (\<lambda>a. of_nat a \<notin> known_addresses m) [0..<256] = []"
    by (simp add: m(3) filter_empty_conv of_nat_u8_image)
  from with_random_address_free [OF m(2) this] m(1) show ?thesis
    by (simp add: test_identified_with_none_free_def no_addresses_field)
qed

lemma one_free_passes: "test_identified_with_one_free = Some ()"
proof -
  obtain m where m: "set_from 2 no_addresses = Some m" "identify_ok m"
      "known_addresses m = of_nat ` {2..<256}"
    using set_from_adds [OF no_addresses_ok, of 2] by auto
  have "filter (\<lambda>a. of_nat a \<notin> known_addresses m) [0..<256] = filter (\<lambda>a. a < 2) [0..<256]"
    by (rule filter_cong) (auto simp: m(3) of_nat_u8_image)
  also have "\<dots> = [0..<2]"
    by (rule filter_upt_less) simp
  also have "\<dots> = [0, 1]"
    by (simp add: upt_rec)
  finally have free: "filter (\<lambda>a. of_nat a \<notin> known_addresses m) [0..<256] = [0, 1]" .
  show ?thesis
    using m(1) with_random_address_free [OF m(2) free]
    by (simp add: test_identified_with_one_free_def no_addresses_field)
qed

lemma set_address_0:
  obtains m where "set_address no_addresses 0 = Some m" "identify_ok m" "known_addresses m = {0}"
  using field.ins_elems [OF no_addresses_ok, of 0] by auto

lemma three_free_passes: "test_identified_with_three_free = Some ()"
proof -
  obtain m0 where m0: "set_address no_addresses 0 = Some m0" "identify_ok m0" "known_addresses m0 = {0}"
    by (rule set_address_0)
  obtain m where m: "set_from 4 m0 = Some m" "identify_ok m"
      "known_addresses m = insert 0 (of_nat ` {4..<256})"
    using set_from_adds [OF m0(2), of 4] m0(3) by auto
  have "filter (\<lambda>a. of_nat a \<notin> known_addresses m) [0..<256] = filter (\<lambda>a. 0 < a) (filter (\<lambda>a. a < 4) [0..<256])"
    unfolding filter_filter
    by (rule filter_cong) (auto simp: m(3) of_nat_u8_image of_nat_u8_eq_0)
  also have "\<dots> = filter (\<lambda>a. 0 < a) [0..<4]"
    by (subst filter_upt_less) simp_all
  also have "\<dots> = [1, 2, 3]"
    by (simp add: upt_rec)
  finally have free: "filter (\<lambda>a. of_nat a \<notin> known_addresses m) [0..<256] = [1, 2, 3]" .
  show ?thesis
    using m0(1) m(1) with_random_address_free [OF m(2) free]
    by (simp add: test_identified_with_three_free_def no_addresses_field)
qed

lemma all_but_first_free_passes: "test_identified_with_all_but_first_free = Some ()"
proof -
  obtain m where m: "set_address no_addresses 0 = Some m" "identify_ok m" "known_addresses m = {0}"
    by (rule set_address_0)
  have "filter (\<lambda>a. of_nat a \<notin> known_addresses m) [0..<256] = filter (\<lambda>a. 0 < a) [0..<256]"
    by (rule filter_cong) (auto simp: m(3) of_nat_u8_eq_0)
  also have "\<dots> = [1..<256]"
    by (rule filter_upt_pos)
  finally have free: "filter (\<lambda>a. of_nat a \<notin> known_addresses m) [0..<256] = [1..<256]" .
  show ?thesis
    using m(1) with_random_address_free [OF m(2) free]
    by (simp add: test_identified_with_all_but_first_free_def no_addresses_field)
qed

subsection \<open>Datagrams\<close>

text \<open>
  The cipher is run on the five blocks of the test: the three of the CBC-MAC (header, associated data,
  payload), the one that masks the tag, and the one that masks the payload.
\<close>

abbreviation (input) test_key :: block where "test_key \<equiv> ((48, 49, 50, 51), (52, 53, 54, 55), (56, 57, 65, 66), (67, 68, 69, 70))"

lemma test_block_1:
  "aes128 test_key
     ((79, 1, 0, 1), (63, 252, 9, 0), (0, 0, 0, 0), (0, 0, 0, 9)) =
   ((111, 134, 247, 87), (244, 32, 72, 6), (86, 87, 237, 199), (24, 173, 173, 154))"
  by (simp add: aes_defs)

lemma test_block_2:
  "aes128 test_key
     ((111, 130, 247, 86), (203, 220, 72, 6), (86, 87, 237, 199), (24, 173, 173, 154)) =
   ((226, 121, 60, 218), (59, 176, 172, 232), (160, 54, 124, 63), (139, 90, 247, 79))"
  by (simp add: aes_defs)

lemma test_block_3:
  "aes128 test_key
     ((145, 22, 81, 191), (27, 212, 205, 156), (193, 54, 124, 63), (139, 90, 247, 79)) =
   ((81, 11, 70, 9), (2, 130, 190, 106), (110, 250, 135, 218), (178, 124, 21, 30))"
  by (simp add: aes_defs)

lemma test_block_4:
  "aes128 test_key
     ((7, 1, 0, 1), (63, 252, 9, 0), (0, 0, 0, 0), (0, 0, 0, 0)) =
   ((20, 117, 39, 73), (86, 49, 23, 43), (131, 50, 69, 37), (173, 196, 113, 139))"
  by (simp add: aes_defs)

lemma test_block_5:
  "aes128 test_key
     ((7, 1, 0, 1), (63, 252, 9, 0), (0, 0, 0, 0), (0, 0, 0, 1)) =
   ((226, 196, 47, 91), (161, 187, 37, 220), (103, 226, 75, 136), (14, 110, 112, 172))"
  by (simp add: aes_defs)

lemmas test_blocks = test_block_1 test_block_2 test_block_3 test_block_4 test_block_5

lemma test_encrypt:
  "encrypt_in_place (aes_ccm (byte_string ''0123456789ABCDEF'')) [1, 0, 1, 63, 252, 9, 0] [0, 1, 63, 252] 32
     (byte_string ''some data'') =
   Some [145, 171, 66, 62, 129, 223, 68, 168, 6, 69, 126, 97, 64]"
  by (simp add: byte_string_def aes_ccm_def ccm_def ccm_defs test_blocks)

lemma test_header: "to_packed
    \<lparr>version = 0, source = Server, server_address = 255, server_port = 7, frame_counter = 1\<rparr> = (0, 1, 63, 252)"
  by (simp add: to_packed_def)

lemma replicate_numeral: "replicate (numeral k) x = x # replicate (pred_numeral k) x"
  by (simp add: numeral_eq_Suc)

lemma length_byte_string [simp]: "length (byte_string s) = length s"
  by (simp add: byte_string_def)

definition test_frame :: DataFrame where
  "test_frame = \<lparr>header = (0, 1, 63, 252),
     encrypted_payload = [145, 171, 66, 62, 129, 223, 68, 168, 6, 69, 126, 97, 64]\<rparr>"

lemma ser_test_frame: "ser_DataFrame postcard_v1 test_frame =
    [0, 1, 63, 252, 13, 145, 171, 66, 62, 129, 223, 68, 168, 6, 69, 126, 97, 64]"
  unfolding ser_DataFrame_def v1.ser_array_id by (simp add: test_frame_def v1_defs)

lemma datagram_serialisation_passes:
  "test_datagram_serialisation postcard_v1 vec_extend aes_ccm = Some ()"
  using ser_test_frame
  by (simp add: test_datagram_serialisation_def to_datagram_def test_header test_encrypt vec_extend_def
        aead_cipherD(1) test_frame_def v1.write_slice Let_def)
    (simp add: replicate_numeral)

lemma datagram_deserialisation_passes:
  "test_datagram_deserialisation postcard_v1 vec_extend aes_ccm = Some ()"
proof -
  let ?cipher = "aes_ccm (byte_string ''0123456789ABCDEF'')"
  have "from_bytes (de_DataFrame postcard_v1) (ser_DataFrame postcard_v1 test_frame @ replicate 14 0) = Inr test_frame"
    by (rule v1.frame.from_bytes_ser) (simp add: test_frame_def)
  then have frame: "from_bytes (de_DataFrame postcard_v1)
      [0, 1, 63, 252, 13, 145, 171, 66, 62, 129, 223, 68, 168, 6, 69, 126, 97, 64, 0, 0, 0, 0,
       0, 0, 0, 0, 0, 0, 0, 0, 0, 0] = Inr test_frame"
    by (simp add: ser_test_frame replicate_numeral)
  have "decrypt_in_place ?cipher [1, 0, 1, 63, 252, 9, 0] [0, 1, 63, 252]
      [145, 171, 66, 62, 129, 223, 68, 168, 6, 69, 126, 97, 64] = Some (byte_string ''some data'')"
    by (rule aead_cipherD(4) [OF aead_aes_ccm test_encrypt])
  then show ?thesis
    by (simp add: test_datagram_deserialisation_def from_datagram_def frame vec_extend_def
          aead_cipherD(1) MIC_SIZE_def test_frame_def Let_def)
qed

section \<open>Properties\<close>

text \<open>No test of \<open>data/src/lib.rs\<close> panics, with AES-CCM as the cipher.\<close>

lemma datagram_unit_tests_pass:
  "test_datagram_serialisation postcard_v1 vec_extend aes_ccm = Some () \<and>
   test_datagram_deserialisation postcard_v1 vec_extend aes_ccm = Some ()"
  using datagram_serialisation_passes datagram_deserialisation_passes by simp

text \<open>Nor does one of \<open>data/src/discovery.rs\<close> and \<open>data/src/update.rs\<close>.\<close>

lemma discovery_and_update_unit_tests_pass:
  "test_set_get_bits = Some () \<and> test_identified_with_none_free = Some () \<and>
   test_identified_with_one_free = Some () \<and> test_identified_with_three_free = Some () \<and>
   test_identified_with_all_but_first_free = Some () \<and> test_iter_with_skip = Some () \<and>
   test_parse_versions = Some () \<and> test_compare_versions = Some () \<and> display_versions = Some ()"
  by (simp add: test_set_get_bits_passes none_free_passes one_free_passes three_free_passes
        all_but_first_free_passes test_iter_with_skip_passes test_parse_versions_passes
        test_compare_versions_passes display_versions_passes)

end
