(* ===== verification/Discovery_Protocol.thy ===== *)
theory Discovery_Protocol
  imports Discovery Transition "HOL-Library.Multiset"
begin

text \<open>
  The discovery protocol (\<open>data/examples/discovery/main.rs\<close>): rounds in which the client broadcasts the
  addresses it knows, every server without a known address picks a random spare one and replies, and
  the client adds the addresses it heard exactly once. Parameters are the wire format \<open>pc\<close>,
  \<open>heapless\<close>'s \<open>ext\<close>, the cipher of the one network key and the random numbers. The time window of the
  client is the list of the datagrams that arrive in it.
\<close>

section \<open>The client\<close>

definition discovery_header :: "DataSource \<Rightarrow> u16 \<Rightarrow> Header" where
  "discovery_header src fc = \<lparr>version = 0, source = src, server_address = 0, server_port = 0, frame_counter = fc\<rparr>"

definition discovery_filter :: "DataSource \<Rightarrow> Header \<Rightarrow> bool" where
  "discovery_filter src h \<longleftrightarrow> server_address h = 0 \<and> server_port h = 0 \<and> source h = src"

definition create_client_request ::
    "'pe postcard \<Rightarrow> extend \<Rightarrow> aead \<Rightarrow> Identify \<Rightarrow> u16 \<Rightarrow> bytes \<Rightarrow> bytes exec" where
  "create_client_request pc ext cipher identify fc datagram_buf = do {
     payload \<leftarrow> unwrap (write_vec pc MIN_PAYLOAD_SIZE (ser_Identify pc identify));
     to_datagram pc ext cipher (discovery_header Client fc) payload datagram_buf
   }"

definition process_server_reply :: "'pe postcard \<Rightarrow> extend \<Rightarrow> aead \<Rightarrow> bytes \<Rightarrow> Identified option exec" where
  "process_server_reply pc ext cipher datagram_buf = do {
     r \<leftarrow> from_datagram pc ext datagram_buf (discovery_filter Server) cipher;
     Some (Option.bind (ok r) (\<lambda>(_, b). ok (from_bytes (de_Identified pc) b)))
   }"

text \<open>
  The loop over the replies of the window, and the loop over the counts after it. The counts are \<open>i32\<close>
  in the source, which fewer than \<open>2 ^ 31\<close> replies cannot exhaust.
\<close>

definition client_window ::
    "'pe postcard \<Rightarrow> extend \<Rightarrow> aead \<Rightarrow> bytes list \<Rightarrow> bool \<times> nat list \<Rightarrow> (bool \<times> nat list) exec" where
  "client_window pc ext cipher = fold_exec (\<lambda>(finished, counts) datagram. do {
     r \<leftarrow> process_server_reply pc ext cipher datagram;
     case r of
       Some identified \<Rightarrow> do {
         c \<leftarrow> index counts (unat (identified_address identified));
         counts \<leftarrow> store counts (unat (identified_address identified)) (c + 1);
         Some (finished, counts)
       }
     | None \<Rightarrow> Some (False, counts)
   })"

definition client_settle :: "nat list \<Rightarrow> bool \<times> Identify \<Rightarrow> (bool \<times> Identify) exec" where
  "client_settle counts = fold_exec (\<lambda>(finished, identify) (address, count).
     if count = 1 then do {
       identify \<leftarrow> set_address identify (of_nat address);
       Some (finished, identify)
     }
     else Some (if count > 1 then False else finished, identify)) (enumerate 0 counts)"

text \<open>
  The whole task: whether it is finished, the addresses known, and, where the channel took the
  request, the request and the number of servers found, as printed.
\<close>

definition discovery_client_task ::
    "'pe postcard \<Rightarrow> extend \<Rightarrow> aead \<Rightarrow> bool \<Rightarrow> bytes list \<Rightarrow> u16 \<Rightarrow> Identify
      \<Rightarrow> (bool \<times> Identify \<times> (bytes \<times> int) option) exec" where
  "discovery_client_task pc ext cipher send_ok arrived fc identify = do {
     datagram_buf \<leftarrow> create_client_request pc ext cipher identify fc (replicate MIN_PACKET_SIZE 0);
     if send_ok then do {
       (finished, counts) \<leftarrow> client_window pc ext cipher arrived (True, replicate MAX_ADDRESSES 0);
       (finished, identify) \<leftarrow> client_settle counts (finished, identify);
       n \<leftarrow> fold_addresses (\<lambda>a e. if e then a + 1 else a) (0 :: int) (iter identify);
       Some (finished, identify, Some (datagram_buf, n - 1))
     }
     else Some (True, identify, None)
   }"

section \<open>The server\<close>

definition process_client_request :: "'pe postcard \<Rightarrow> extend \<Rightarrow> aead \<Rightarrow> bytes \<Rightarrow> Identify option exec" where
  "process_client_request pc ext cipher datagram_buf = do {
     r \<leftarrow> from_datagram pc ext datagram_buf (discovery_filter Client) cipher;
     Some (Option.bind (ok r) (\<lambda>(_, b). ok (from_bytes (de_Identify pc) b)))
   }"

definition try_create_server_reply ::
    "'pe postcard \<Rightarrow> extend \<Rightarrow> aead \<Rightarrow> ('r \<Rightarrow> u32 \<times> 'r) \<Rightarrow> Identify \<Rightarrow> u16 \<Rightarrow> bytes \<Rightarrow> 'r
      \<Rightarrow> ((Identified \<times> bytes) option \<times> 'r) exec" where
  "try_create_server_reply pc ext cipher next_u32 identify fc datagram_buf rng = do {
     (r, rng) \<leftarrow> with_random_address next_u32 (iter identify) rng 2;
     case r of
       Some identified \<Rightarrow> do {
         payload \<leftarrow> unwrap (write_vec pc MIN_PAYLOAD_SIZE (ser_Identified pc identified));
         datagram_buf \<leftarrow> to_datagram pc ext cipher (discovery_header Server fc) payload datagram_buf;
         Some (Some (identified, datagram_buf), rng)
       }
     | None \<Rightarrow> Some (None, rng)
   }"

text \<open>One call of the task with the datagram it receives: its address after it, and the reply it sends.\<close>

definition discovery_server_task ::
    "'pe postcard \<Rightarrow> extend \<Rightarrow> aead \<Rightarrow> ('r \<Rightarrow> u32 \<times> 'r) \<Rightarrow> bytes \<Rightarrow> u16 \<Rightarrow> u8 option \<Rightarrow> 'r
      \<Rightarrow> (u8 option \<times> bytes option \<times> 'r) exec" where
  "discovery_server_task pc ext cipher next_u32 datagram fc own_address rng = do {
     r \<leftarrow> process_client_request pc ext cipher datagram;
     case r of
       None \<Rightarrow> Some (own_address, None, rng)
     | Some identify \<Rightarrow> do {
         reply_needed \<leftarrow> (case own_address of
             Some sa \<Rightarrow> do { taken \<leftarrow> is_address_set identify sa; Some (\<not> taken) }
           | None \<Rightarrow> Some True);
         if reply_needed then do {
           (r, rng) \<leftarrow> try_create_server_reply pc ext cipher next_u32 identify fc (replicate MIN_PACKET_SIZE 0) rng;
           case r of
             Some (identified, datagram_buf) \<Rightarrow> Some (Some (identified_address identified), Some datagram_buf, rng)
           | None \<Rightarrow> Some (own_address, None, rng)
         }
         else Some (own_address, None, rng)
       }
   }"

text \<open>The servers of the network, each with its frame counter and address, receiving one datagram.\<close>

fun servers_turn ::
    "'pe postcard \<Rightarrow> extend \<Rightarrow> aead \<Rightarrow> ('r \<Rightarrow> u32 \<times> 'r) \<Rightarrow> bytes \<Rightarrow> (u16 \<times> u8 option) list \<Rightarrow> 'r
      \<Rightarrow> ((u16 \<times> u8 option) list \<times> bytes list \<times> 'r) exec" where
  "servers_turn pc ext cipher next_u32 datagram [] rng = Some ([], [], rng)"
| "servers_turn pc ext cipher next_u32 datagram ((fc, own_address) # servers) rng = do {
     (own_address, reply, rng) \<leftarrow> discovery_server_task pc ext cipher next_u32 datagram fc own_address rng;
     (servers, replies, rng) \<leftarrow> servers_turn pc ext cipher next_u32 datagram servers rng;
     Some ((fc + 1, own_address) # servers, (case reply of Some d \<Rightarrow> [d] | None \<Rightarrow> []) @ replies, rng)
   }"

section \<open>Rounds\<close>

record Discovery =
  d_identify :: Identify
  d_counter :: u16
  d_servers :: "(u16 \<times> u8 option) list"
  d_finished :: bool

text \<open>
  The network of \<open>main\<close> before the first round: address 0 is reserved, no server has an address. The
  laws of the parameters are part of the predicate.
\<close>

definition discovery_init :: "'pe postcard \<Rightarrow> extend \<Rightarrow> aead \<Rightarrow> Discovery \<Rightarrow> bool" where
  "discovery_init pc ext cipher s \<longleftrightarrow> postcard_format pc \<and> heapless_vec ext \<and> aead_cipher cipher \<and>
     set_address \<lparr>addresses = replicate MIN_PAYLOAD_SIZE 0\<rparr> 0 = Some (d_identify s) \<and>
     d_counter s = 0 \<and> \<not> d_finished s \<and> d_servers s = replicate (length (d_servers s)) (0, None) \<and>
     length (d_servers s) \<le> 255"

text \<open>
  A round in which the request reaches every server and every reply the client, in any order. The
  client stops after the round that it finishes. A server also receives replies of the others, any
  number of them: it ignores them (\<open>server_ignores_replies\<close>), but counts them, so that the frame
  counters of the servers drift apart.
\<close>

inductive discovery_round ::
    "'pe postcard \<Rightarrow> extend \<Rightarrow> aead \<Rightarrow> ('r \<Rightarrow> u32 \<times> 'r) \<Rightarrow> Discovery \<Rightarrow> Discovery \<Rightarrow> bool"
  for pc :: "'pe postcard" and ext :: extend and cipher :: aead and next_u32 :: "'r \<Rightarrow> u32 \<times> 'r" where
  round: "\<not> d_finished s \<Longrightarrow>
    discovery_client_task pc ext cipher True arrived (d_counter s) (d_identify s) =
      Some (finished, identify, Some (request, found)) \<Longrightarrow>
    servers_turn pc ext cipher next_u32 request (d_servers s) rng = Some (servers, replies, rng') \<Longrightarrow>
    mset arrived = mset replies \<Longrightarrow>
    map snd servers' = map snd servers \<Longrightarrow>
    discovery_round pc ext cipher next_u32 s
      \<lparr>d_identify = identify, d_counter = d_counter s + 1, d_servers = servers', d_finished = finished\<rparr>"

section \<open>Messages arrive\<close>

lemma discovery_header_wire [simp]:
  "discovery_header src fc\<lparr>version := 0, server_port := server_port (discovery_header src fc) AND 7\<rparr> = discovery_header src fc"
  "discovery_filter src (discovery_header src fc)"
  by (simp_all add: discovery_header_def discovery_filter_def)

context postcard_format
begin

lemma process_server_reply_total:
  "heapless_vec ext \<Longrightarrow> aead_cipher c \<Longrightarrow> \<exists>r. process_server_reply pc ext c d = Some r"
  by (simp add: process_server_reply_def from_datagram_eq aead_cipherD(1))

lemma client_request_arrives:
  assumes "heapless_vec ext" and "aead_cipher c" and "identify_ok m"
  obtains d where "create_client_request pc ext c m fc (replicate MIN_PACKET_SIZE 0) = Some d"
    "process_client_request pc ext c d = Some (Some m)"
proof -
  have len: "length (ser_Identify pc m) \<le> MIN_PAYLOAD_SIZE"
    using assms(3) by (simp add: ser_Identify_def identify_ok_def wire)
  have "from_bytes (de_Identify pc) (ser_Identify pc m) = Inr m"
    using identify.from_bytes_ser [OF assms(3), of "[]"] by simp
  with payload_arrives [OF assms(1,2) len, of "replicate MIN_PACKET_SIZE 0" "discovery_header Client fc" "discovery_filter Client"]
    that len show ?thesis
    by (fastforce simp: create_client_request_def process_client_request_def write_vec)
qed

lemma server_reply_arrives:
  assumes "heapless_vec ext" and "aead_cipher c"
  obtains d where "to_datagram pc ext c (discovery_header Server fc) (ser_Identified pc i) (replicate MIN_PACKET_SIZE 0) = Some d"
    "process_server_reply pc ext c d = Some (Some i)"
    "unwrap (write_vec pc MIN_PAYLOAD_SIZE (ser_Identified pc i)) = Some (ser_Identified pc i)"
proof -
  have len: "length (ser_Identified pc i) \<le> MIN_PAYLOAD_SIZE"
    by (simp add: ser_Identified_def wire discovery_sizes)
  have "from_bytes (de_Identified pc) (ser_Identified pc i) = Inr i"
    using identified.from_bytes_ser [of i "[]"] by simp
  with payload_arrives [OF assms(1,2) len, of "replicate MIN_PACKET_SIZE 0" "discovery_header Server fc" "discovery_filter Server"]
    that len show ?thesis
    by (fastforce simp: process_server_reply_def write_vec)
qed

text \<open>
  A server with a known address is silent and keeps it. Any other picks an unknown one and tells the
  client, unless there is none left.
\<close>

lemma server_task_picks:
  assumes "heapless_vec ext" and "aead_cipher c"
    and "process_client_request pc ext c d = Some (Some m)" and "identify_ok m"
    and "\<forall>a. own = Some a \<longrightarrow> a \<notin> known_addresses m"
    and "with_random_address next_u32 (iter m) rng 2 = Some (Some \<lparr>identified_address = a, server_ports = 2\<rparr>, rng')"
  shows "\<exists>reply. discovery_server_task pc ext c next_u32 d fc own rng = Some (Some a, Some reply, rng') \<and>
    process_server_reply pc ext c reply = Some (Some \<lparr>identified_address = a, server_ports = 2\<rparr>)"
proof -
  obtain reply where "to_datagram pc ext c (discovery_header Server fc)
        (ser_Identified pc \<lparr>identified_address = a, server_ports = 2\<rparr>) (replicate MIN_PACKET_SIZE 0) = Some reply"
      "process_server_reply pc ext c reply = Some (Some \<lparr>identified_address = a, server_ports = 2\<rparr>)"
      "unwrap (write_vec pc MIN_PAYLOAD_SIZE (ser_Identified pc \<lparr>identified_address = a, server_ports = 2\<rparr>)) =
        Some (ser_Identified pc \<lparr>identified_address = a, server_ports = 2\<rparr>)"
    by (rule server_reply_arrives [OF assms(1,2)])
  then show ?thesis
    using assms(3-6) by (cases own) (auto simp: discovery_server_task_def try_create_server_reply_def is_address_set_known)
qed

lemma server_task_unknown:
  assumes "heapless_vec ext" and "aead_cipher c"
    and "process_client_request pc ext c d = Some (Some m)" and "identify_ok m"
    and "\<forall>a. own = Some a \<longrightarrow> a \<notin> known_addresses m" and "known_addresses m \<noteq> UNIV"
  shows "\<exists>a reply rng'. a \<notin> known_addresses m \<and>
    discovery_server_task pc ext c next_u32 d fc own rng = Some (Some a, Some reply, rng') \<and>
    process_server_reply pc ext c reply = Some (Some \<lparr>identified_address = a, server_ports = 2\<rparr>)"
proof -
  obtain a rng' where a: "a \<notin> known_addresses m" and
      pick: "with_random_address next_u32 (iter m) rng 2 = Some (Some \<lparr>identified_address = a, server_ports = 2\<rparr>, rng')"
    using with_random_address_cases [OF assms(4), of next_u32 rng 2] assms(6) by auto
  from server_task_picks [OF assms(1-5) pick, of fc] a show ?thesis by blast
qed

lemma server_task_keep:
  assumes "process_client_request pc ext c d = Some (Some m)" and "identify_ok m"
    and "known_addresses m = UNIV \<or> (\<exists>a \<in> known_addresses m. own = Some a)"
  shows "discovery_server_task pc ext c next_u32 d fc own rng = Some (own, None, rng)"
  using assms with_random_address_cases [OF assms(2), of next_u32 rng 2]
  by (cases own) (auto simp: discovery_server_task_def try_create_server_reply_def is_address_set_known)

text \<open>The address is a function of the number drawn, so equal draws give equal addresses.\<close>

lemma same_draw_same_address:
  assumes "heapless_vec ext" and "aead_cipher c" and "process_client_request pc ext c d = Some (Some m)" and "identify_ok m"
    and "known_addresses m \<noteq> UNIV" and "fst (next_u32 rng1) = fst (next_u32 rng2)"
  obtains a reply1 reply2 rng1' rng2' where "a \<notin> known_addresses m"
    "discovery_server_task pc ext c next_u32 d fc1 None rng1 = Some (Some a, Some reply1, rng1')"
    "discovery_server_task pc ext c next_u32 d fc2 None rng2 = Some (Some a, Some reply2, rng2')"
    "process_server_reply pc ext c reply1 = Some (Some \<lparr>identified_address = a, server_ports = 2\<rparr>)"
    "process_server_reply pc ext c reply2 = Some (Some \<lparr>identified_address = a, server_ports = 2\<rparr>)"
proof -
  obtain a rng1' where a: "a \<notin> known_addresses m"
      and pick1: "with_random_address next_u32 (iter m) rng1 2 = Some (Some \<lparr>identified_address = a, server_ports = 2\<rparr>, rng1')"
    using with_random_address_cases [OF assms(4), of next_u32 rng1 2] assms(5) by auto
  obtain rng2' where pick2: "with_random_address next_u32 (iter m) rng2 2 =
      Some (Some \<lparr>identified_address = a, server_ports = 2\<rparr>, rng2')"
    using pick1 assms(6) by (auto simp: with_random_address_eq [OF assms(4)] Let_def split_beta split: if_splits)
  show ?thesis
    using server_task_picks [OF assms(1-4) _ pick1, of None fc1] server_task_picks [OF assms(1-4) _ pick2, of None fc2]
      a that by auto
qed

text \<open>What the client reads as a reply is nothing to the servers.\<close>

lemma server_ignores_replies:
  assumes "heapless_vec ext" and "aead_cipher c" and "process_server_reply pc ext c d = Some (Some i)"
  shows "discovery_server_task pc ext c next_u32 d fc own rng = Some (own, None, rng)"
proof -
  note eq = from_datagram_eq [OF assms(1) aead_cipherD(1) [OF assms(2)], of d]
  have "process_client_request pc ext c d = Some None"
    using assms(3)
    by (auto simp: process_server_reply_def process_client_request_def eq discovery_filter_def split: sum.splits if_splits)
  then show ?thesis by (simp add: discovery_server_task_def)
qed

end

section \<open>What the client makes of the replies\<close>

text \<open>The addresses of the replies that could be read.\<close>

definition heard :: "Identified option list \<Rightarrow> u8 list" where
  "heard rs = map identified_address (List.map_filter id rs)"

abbreviation replies_read :: "'pe postcard \<Rightarrow> extend \<Rightarrow> aead \<Rightarrow> bytes list \<Rightarrow> Identified option list \<Rightarrow> bool" where
  "replies_read pc ext c \<equiv> list_all2 (\<lambda>d r. process_server_reply pc ext c d = Some r)"

lemma heard_simps [simp]:
  "heard [] = []" "heard (None # rs) = heard rs" "heard (Some i # rs) = identified_address i # heard rs"
  by (simp_all add: heard_def List.map_filter_simps)

lemma client_window_counts:
  assumes "replies_read pc ext c ds rs" and "length counts = 256"
  shows "client_window pc ext c ds (f, counts) =
    Some (f \<and> None \<notin> set rs, map (\<lambda>a. counts ! a + count_list (heard rs) (of_nat a)) [0..<256])"
  using assms
proof (induction ds rs arbitrary: f counts rule: list_all2_induct)
  case Nil
  have "map ((!) counts) [0..<256] = counts" using Nil by (metis map_nth)
  then show ?case by (simp add: client_window_def)
next
  case (Cons d ds r rs)
  show ?case
  proof (cases r)
    case None
    then show ?thesis using Cons by (simp add: client_window_def)
  next
    case (Some i)
    let ?a = "unat (identified_address i)"
    have "(counts[?a := Suc (counts ! ?a)]) ! b + count_list (heard rs) (of_nat b) =
        counts ! b + count_list (heard (r # rs)) (of_nat b)" if "b < 256" for b
    proof (cases "b = ?a")
      case True
      then show ?thesis using Cons.prems Some by simp
    next
      case False
      then have "identified_address i \<noteq> of_nat b" using that by auto
      with False Some show ?thesis by simp
    qed
    then have eq: "map (\<lambda>b. (counts[?a := Suc (counts ! ?a)]) ! b + count_list (heard rs) (of_nat b)) [0..<256] =
        map (\<lambda>b. counts ! b + count_list (heard (r # rs)) (of_nat b)) [0..<256]"
      by (intro map_cong) simp_all
    have "client_window pc ext c (d # ds) (f, counts) = client_window pc ext c ds (f, counts[?a := Suc (counts ! ?a)])"
      using Cons.hyps(1) Cons.prems Some by (simp add: client_window_def)
    also have "\<dots> = Some (f \<and> None \<notin> set rs,
        map (\<lambda>b. (counts[?a := Suc (counts ! ?a)]) ! b + count_list (heard rs) (of_nat b)) [0..<256])"
      using Cons.prems by (intro Cons.IH) simp
    finally show ?thesis unfolding eq using Some by simp
  qed
qed

lemma client_settle_loop:
  assumes "identify_ok m"
  shows "\<exists>m'. fold_exec (\<lambda>(finished, identify) (address, count).
      if count = 1 then do { identify \<leftarrow> set_address identify (of_nat address); Some (finished, identify) }
      else Some (if count > 1 then False else finished, identify)) xs (f, m) =
        Some (f \<and> (\<forall>(a, n) \<in> set xs. n \<le> (1 :: nat)), m')
    \<and> identify_ok m' \<and> known_addresses m' = known_addresses m \<union> {of_nat a |a. (a, 1) \<in> set xs}"
  using assms
proof (induction xs arbitrary: f m)
  case Nil
  then show ?case by simp
next
  case (Cons x xs)
  obtain a n where x: "x = (a, n)" by (cases x)
  show ?case
  proof (cases "n = 1")
    case True
    obtain m1 where m1: "set_address m (of_nat a) = Some m1" "identify_ok m1"
        "known_addresses m1 = insert (of_nat a) (known_addresses m)"
      by (rule set_address_known [OF Cons.prems])
    obtain m2 where "fold_exec (\<lambda>(finished, identify) (address, count).
      if count = 1 then do { identify \<leftarrow> set_address identify (of_nat address); Some (finished, identify) }
      else Some (if count > 1 then False else finished, identify)) xs (f, m1) =
        Some (f \<and> (\<forall>(a, n) \<in> set xs. n \<le> 1), m2)" "identify_ok m2"
        "known_addresses m2 = known_addresses m1 \<union> {of_nat a |a. (a, 1) \<in> set xs}"
      using Cons.IH [OF m1(2)] by blast
    then show ?thesis using True m1 by (intro exI [of _ m2]) (auto simp: x)
  next
    case False
    obtain m2 where "fold_exec (\<lambda>(finished, identify) (address, count).
      if count = 1 then do { identify \<leftarrow> set_address identify (of_nat address); Some (finished, identify) }
      else Some (if count > 1 then False else finished, identify)) xs (f \<and> \<not> n > 1, m) =
        Some ((f \<and> \<not> n > 1) \<and> (\<forall>(a, n) \<in> set xs. n \<le> 1), m2)" "identify_ok m2"
        "known_addresses m2 = known_addresses m \<union> {of_nat a |a. (a, 1) \<in> set xs}"
      using Cons.IH [OF Cons.prems] by blast
    then show ?thesis using False by (intro exI [of _ m2]) (cases "n > 1"; auto simp: x)
  qed
qed

lemma client_settle_counts:
  assumes "identify_ok m" and "length counts = 256"
  shows "\<exists>m'. client_settle counts (f, m) = Some (f \<and> (\<forall>a :: u8. counts ! unat a \<le> 1), m')
    \<and> identify_ok m' \<and> known_addresses m' = known_addresses m \<union> {a. counts ! unat a = 1}"
proof -
  have mem: "(a, n) \<in> set (enumerate 0 counts) \<longleftrightarrow> a < 256 \<and> counts ! a = n" for a n
    using assms(2) by (auto simp: in_set_enumerate_eq)
  have ex: "(\<exists>a < 256. P a) \<longleftrightarrow> (\<exists>a :: u8. P (unat a))" for P
    by (metis unat_of_nat_u8 unat_u8_less)
  have "(\<forall>(a, n) \<in> set (enumerate 0 counts). n \<le> (1 :: nat)) \<longleftrightarrow> (\<forall>a :: u8. counts ! unat a \<le> 1)"
    using ex [of "\<lambda>a. \<not> counts ! a \<le> 1"] by (auto simp: mem)
  moreover have "{of_nat a |a. (a, 1) \<in> set (enumerate 0 counts)} = {a :: u8. counts ! unat a = 1}"
    by (auto simp: mem) (metis unat_u8_less u8_of_nat_unat)
  ultimately show ?thesis
    using client_settle_loop [OF assms(1), of "enumerate 0 counts" f] by (simp add: client_settle_def)
qed

lemma count_known:
  assumes "identify_ok m"
  shows "fold_addresses (\<lambda>a e. if e then a + 1 else a) (0 :: int) (iter m) = Some (int (card (known_addresses m)))"
proof -
  have "foldl (\<lambda>a e. if e then a + 1 else a) n xs = n + int (length (filter id xs))" for n and xs :: "bool list"
    by (induction xs arbitrary: n) auto
  moreover have "length (filter id (map (known (addresses m)) [0..<256])) = card (known_addresses m)"
  proof -
    have "length (filter id (map (known (addresses m)) [0..<256])) = card {a. a < 256 \<and> known (addresses m) a}"
      by (simp add: length_filter_map distinct_card [symmetric] flip: set_filter) (simp add: atLeast0LessThan lessThan_def conj_commute)
    also have "{a. a < 256 \<and> known (addresses m) a} = unat ` known_addresses m"
      by (auto simp: known_addresses_def image_iff) (metis unat_of_nat_u8)
    also have "card (unat ` known_addresses m) = card (known_addresses m)"
      by (rule card_image) (simp add: inj_on_def)
    finally show ?thesis .
  qed
  ultimately show ?thesis
    using assms by (simp add: iter_iter_at fold_addresses_iter_at identify_ok_def discovery_sizes)
qed

context postcard_format
begin

lemma replies_read_total:
  assumes "heapless_vec ext" and "aead_cipher c"
  shows "\<exists>rs. replies_read pc ext c ds rs"
  using process_server_reply_total [OF assms]
  by (intro exI [of _ "map (\<lambda>d. the (process_server_reply pc ext c d)) ds"])
     (auto simp: list_all2_map2 list.rel_refl_strong)

text \<open>The whole task, on whatever datagrams arrive: it never panics.\<close>

lemma client_task_result:
  assumes "heapless_vec ext" and "aead_cipher c" and "identify_ok m" and "replies_read pc ext c arrived rs"
  obtains m' request where
    "discovery_client_task pc ext c True arrived fc m =
       Some (None \<notin> set rs \<and> (\<forall>a. count_list (heard rs) a \<le> 1), m',
             Some (request, int (card (known_addresses m')) - 1))"
    "identify_ok m'" "known_addresses m' = known_addresses m \<union> {a. count_list (heard rs) a = 1}"
    "process_client_request pc ext c request = Some (Some m)"
    "create_client_request pc ext c m fc (replicate MIN_PACKET_SIZE 0) = Some request"
proof -
  let ?counts = "map (\<lambda>a. replicate MAX_ADDRESSES 0 ! a + count_list (heard rs) (of_nat a)) [0..<256]"
  have counts: "?counts ! unat a = count_list (heard rs) a" for a
    by (simp add: MAX_ADDRESSES_def)
  obtain request where request: "create_client_request pc ext c m fc (replicate MIN_PACKET_SIZE 0) = Some request"
      "process_client_request pc ext c request = Some (Some m)"
    by (rule client_request_arrives [OF assms(1-3)])
  obtain m' where m': "client_settle ?counts (None \<notin> set rs, m) =
        Some (None \<notin> set rs \<and> (\<forall>a :: u8. ?counts ! unat a \<le> 1), m')" "identify_ok m'"
      "known_addresses m' = known_addresses m \<union> {a. ?counts ! unat a = 1}"
    using client_settle_counts [OF assms(3), of ?counts "None \<notin> set rs"] by auto
  have "client_window pc ext c arrived (True, replicate MAX_ADDRESSES 0) = Some (None \<notin> set rs, ?counts)"
    using client_window_counts [OF assms(4), of "replicate MAX_ADDRESSES 0" True] by (simp add: MAX_ADDRESSES_def)
  then have "discovery_client_task pc ext c True arrived fc m =
       Some (None \<notin> set rs \<and> (\<forall>a. count_list (heard rs) a \<le> 1), m',
             Some (request, int (card (known_addresses m')) - 1))"
    using request(1) m'(1) count_known [OF m'(2)] by (simp only: discovery_client_task_def counts) simp
  then show ?thesis using that m'(2,3) request by (simp only: counts)
qed

lemma client_task_single:
  assumes "heapless_vec ext" and "aead_cipher c" and "identify_ok m"
    and "process_server_reply pc ext c reply = Some (Some i)"
  obtains m' request found where
    "discovery_client_task pc ext c True [reply] fc m = Some (True, m', Some (request, found))" "identify_ok m'"
    "known_addresses m' = insert (identified_address i) (known_addresses m)"
    "create_client_request pc ext c m fc (replicate MIN_PACKET_SIZE 0) = Some request"
proof -
  have rs: "replies_read pc ext c [reply] [Some i]" using assms(4) by simp
  have once: "(\<forall>a. count_list (heard [Some i]) a \<le> 1) = True" "{a. count_list (heard [Some i]) a = 1} = {identified_address i}"
    by auto
  show ?thesis
    by (rule client_task_result [OF assms(1-3) rs, of fc, unfolded once]) (use that in auto)
qed

text \<open>Two replies with one address settle nothing.\<close>

lemma client_task_pair:
  assumes "heapless_vec ext" and "aead_cipher c" and "identify_ok m"
    and "process_server_reply pc ext c reply = Some (Some i)" and "process_server_reply pc ext c reply' = Some (Some i)"
  obtains m' request found where
    "discovery_client_task pc ext c True [reply, reply'] fc m = Some (False, m', Some (request, found))" "identify_ok m'"
    "known_addresses m' = known_addresses m"
    "create_client_request pc ext c m fc (replicate MIN_PACKET_SIZE 0) = Some request"
proof -
  have rs: "replies_read pc ext c [reply, reply'] [Some i, Some i]" using assms(4,5) by simp
  have "count_list (heard [Some i, Some i]) a = (if a = identified_address i then 2 else 0)" for a by simp
  then have twice: "(\<forall>a. count_list (heard [Some i, Some i]) a \<le> 1) = False" "{a. count_list (heard [Some i, Some i]) a = 1} = {}"
    by (auto simp del: heard_simps)
  show ?thesis
    by (rule client_task_result [OF assms(1-3) rs, of fc, unfolded twice]) (use that in auto)
qed

end

section \<open>What a round does to the addresses\<close>

text \<open>
  One round, by the addresses alone: \<open>K\<close> are the known ones, \<open>os\<close> the servers' before and \<open>os'\<close> after,
  \<open>news\<close> those picked.
\<close>

inductive settles :: "u8 set \<Rightarrow> u8 option list \<Rightarrow> u8 option list \<Rightarrow> u8 list \<Rightarrow> bool" for K :: "u8 set" where
  settles_Nil: "settles K [] [] []"
| settles_keep: "K = UNIV \<or> (\<exists>a \<in> K. own = Some a) \<Longrightarrow> settles K os os' news \<Longrightarrow> settles K (own # os) (own # os') news"
| settles_pick: "\<forall>a. own = Some a \<longrightarrow> a \<notin> K \<Longrightarrow> b \<notin> K \<Longrightarrow> settles K os os' news
    \<Longrightarrow> settles K (own # os) (Some b # os') (b # news)"

lemma settles_length: "settles K os os' news \<Longrightarrow> length os' = length os"
  by (induction rule: settles.induct) auto

text \<open>A known address is held by those who held it; an unknown one by those who picked it.\<close>

lemma settles_count:
  assumes "settles K os os' news" and "K \<noteq> UNIV"
  shows "count_list os' (Some a) = (if a \<in> K then count_list os (Some a) else count_list news a)"
  using assms by (induction rule: settles.induct) auto

lemma settles_full: "settles K os os' news \<Longrightarrow> K = UNIV \<Longrightarrow> os' = os \<and> news = []"
  by (induction rule: settles.induct) auto

lemma settles_members:
  assumes "settles K os os' news" and "K \<noteq> UNIV" and "own \<in> set os'"
  shows "\<exists>a. own = Some a \<and> (a \<in> K \<or> a \<in> set news)"
  using assms by (induction rule: settles.induct) auto

context postcard_format
begin

lemma servers_turn_total:
  assumes "heapless_vec ext" and "aead_cipher c"
    and "process_client_request pc ext c d = Some (Some m)" and "identify_ok m"
  shows "\<exists>servers' replies rng'. servers_turn pc ext c next_u32 d servers rng = Some (servers', replies, rng')"
proof (induction servers arbitrary: rng)
  case Nil
  then show ?case by simp
next
  case (Cons x servers)
  obtain fc own where x: "x = (fc, own)" by (cases x)
  let ?K = "known_addresses m"
  have "\<exists>own' reply rng1. discovery_server_task pc ext c next_u32 d fc own rng = Some (own', reply, rng1)"
  proof (cases "?K = UNIV \<or> (\<exists>a \<in> ?K. own = Some a)")
    case True
    then show ?thesis using server_task_keep [OF assms(3,4) True, of next_u32 fc rng] by blast
  next
    case False
    then show ?thesis using server_task_unknown [OF assms, of own next_u32 fc rng] by blast
  qed
  then obtain own' reply rng1 where task: "discovery_server_task pc ext c next_u32 d fc own rng = Some (own', reply, rng1)"
    by blast
  from Cons.IH [of rng1] show ?case by (auto simp: x task)
qed

lemma servers_turn_settles:
  assumes "heapless_vec ext" and "aead_cipher c"
    and "process_client_request pc ext c d = Some (Some m)" and "identify_ok m"
    and "servers_turn pc ext c next_u32 d servers rng = Some (servers', replies, rng')"
  shows "\<exists>is. replies_read pc ext c replies (map Some is) \<and>
    settles (known_addresses m) (map snd servers) (map snd servers') (map identified_address is)"
  using assms(5)
proof (induction servers arbitrary: rng servers' replies)
  case Nil
  then show ?case by (auto intro: settles.intros)
next
  case (Cons x servers)
  obtain fc own where x: "x = (fc, own)" by (cases x)
  from Cons.prems obtain own' reply rng1 rest rs where
      task: "discovery_server_task pc ext c next_u32 d fc own rng = Some (own', reply, rng1)"
    and turn: "servers_turn pc ext c next_u32 d servers rng1 = Some (rest, rs, rng')"
    and eq: "servers' = (fc + 1, own') # rest" "replies = (case reply of Some d \<Rightarrow> [d] | None \<Rightarrow> []) @ rs"
    by (auto simp: x bind_eq_Some_conv)
  obtain "is" where IH: "replies_read pc ext c rs (map Some is)"
      "settles (known_addresses m) (map snd servers) (map snd rest) (map identified_address is)"
    using Cons.IH [OF turn] by blast
  let ?K = "known_addresses m"
  consider (keep) "?K = UNIV \<or> (\<exists>a \<in> ?K. own = Some a)" | (pick) "\<forall>a. own = Some a \<longrightarrow> a \<notin> ?K" "?K \<noteq> UNIV"
    by (cases own) auto
  then show ?case
  proof cases
    case keep
    then have "own' = own" "reply = None"
      using task server_task_keep [OF assms(3,4) keep, of next_u32 fc rng] by auto
    then show ?thesis using IH keep eq by (intro exI [of _ "is"]) (auto simp: x intro: settles_keep)
  next
    case pick
    obtain a r rng2 where "a \<notin> ?K" and "discovery_server_task pc ext c next_u32 d fc own rng = Some (Some a, Some r, rng2)"
        "process_server_reply pc ext c r = Some (Some \<lparr>identified_address = a, server_ports = 2\<rparr>)"
      using server_task_unknown [OF assms(1-4) pick, of next_u32 fc rng] by blast
    then show ?thesis
      using IH task pick(1) eq
      by (intro exI [of _ "\<lparr>identified_address = a, server_ports = 2\<rparr> # is"]) (auto simp: x intro: settles_pick)
  qed
qed

end

section \<open>The invariant of the rounds\<close>

text \<open>Every known address but the reserved one is held by exactly one server.\<close>

definition owned :: "u8 set \<Rightarrow> u8 option list \<Rightarrow> bool" where
  "owned K os \<longleftrightarrow> 0 \<in> K \<and> count_list os (Some 0) = 0 \<and> (\<forall>a \<in> K - {0}. count_list os (Some a) = 1)"

lemma settles_owned:
  assumes "settles K os os' news" and "owned K os"
  shows "owned (K \<union> {a. count_list news a = 1}) os'"
proof (cases "K = UNIV")
  case True
  then show ?thesis using assms settles_full by auto
next
  case False
  then show ?thesis using assms settles_count [OF assms(1)] by (auto simp: owned_def)
qed

lemma owned_full:
  assumes "owned UNIV os" and "length os \<le> 255" and "own \<in> set os"
  shows "own \<noteq> None"
proof -
  have "Some ` (UNIV - {0}) \<subseteq> set os"
  proof
    fix x :: "u8 option" assume "x \<in> Some ` (UNIV - {0})"
    then have "count_list os x = 1" using assms(1) by (auto simp: owned_def)
    then show "x \<in> set os" by (metis count_notin zero_neq_one)
  qed
  moreover have "card (Some ` (UNIV - {0 :: u8})) = 255"
    by (simp add: card_image card_word)
  ultimately have "Some ` (UNIV - {0}) = set os"
    using assms(2) card_length [of os] by (intro card_seteq) auto
  then show ?thesis using assms(3) by auto
qed

lemma settles_finished:
  assumes "settles K os os' news" and "owned K os" and "length os \<le> 255"
    and "\<forall>a. count_list news a \<le> 1" and "own \<in> set os'"
  shows "\<exists>a \<in> K \<union> {a. count_list news a = 1}. own = Some a"
proof (cases "K = UNIV")
  case True
  then have "os' = os" using assms(1) settles_full by blast
  then show ?thesis using owned_full assms True by (cases own) auto
next
  case False
  obtain a where a: "own = Some a" "a \<in> K \<or> a \<in> set news"
    using settles_members [OF assms(1) False assms(5)] by blast
  have "count_list news a = 1" if "a \<in> set news"
    using assms(4) that by (metis count_list_0_iff le_less less_one)
  with a show ?thesis by auto
qed

lemma owned_distinct:
  assumes "owned K os" and "\<forall>own \<in> set os. \<exists>a \<in> K. own = Some a"
  shows "distinct os"
proof -
  have "count_list os own = 1" if "own \<in> set os" for own
  proof -
    obtain a where a: "own = Some a" "a \<in> K" using assms(2) \<open>own \<in> set os\<close> by blast
    have "Some 0 \<notin> set os" using assms(1) by (simp add: owned_def count_list_0_iff)
    then have "a \<noteq> 0" using a(1) \<open>own \<in> set os\<close> by blast
    then show ?thesis using assms(1) a by (simp add: owned_def)
  qed
  then have "count (mset os) own = (if own \<in> set os then 1 else 0)" for own
    by (cases "own \<in> set os") (simp_all add: count_mset)
  then show ?thesis by (subst distinct_count_atmost_1) blast
qed

lemma heard_order:
  assumes "replies_read pc ext c ds rs" and "replies_read pc ext c ds' rs'" and "mset ds = mset ds'"
  shows "mset rs = mset rs'"
proof -
  have "rs = map (\<lambda>d. the (process_server_reply pc ext c d)) ds" if "replies_read pc ext c ds rs" for ds rs
    using that by (induction rule: list_all2_induct) auto
  from this [OF assms(1)] this [OF assms(2)] show ?thesis using assms(3) by simp
qed

lemma count_heard: "mset rs = mset rs' \<Longrightarrow> count_list (heard rs) a = count_list (heard rs') a"
  by (simp add: heard_def List.map_filter_def flip: count_mset)

definition addressing :: "'pe postcard \<Rightarrow> extend \<Rightarrow> aead \<Rightarrow> Discovery \<Rightarrow> bool" where
  "addressing pc ext c s \<longleftrightarrow> postcard_format pc \<and> heapless_vec ext \<and> aead_cipher c \<and>
     identify_ok (d_identify s) \<and> length (d_servers s) \<le> 255 \<and>
     owned (known_addresses (d_identify s)) (map snd (d_servers s)) \<and>
     (d_finished s \<longrightarrow>
        (\<forall>own \<in> set (map snd (d_servers s)). \<exists>a \<in> known_addresses (d_identify s). own = Some a))"

lemma addressing_round:
  assumes "addressing pc ext c s" and "discovery_round pc ext c next_u32 s s'"
  shows "addressing pc ext c s'"
  using assms(2)
proof cases
  case (round arrived finished identify request found rng servers replies rng' servers')
  have laws: "postcard_format pc" "heapless_vec ext" "aead_cipher c" "identify_ok (d_identify s)"
    and own: "owned (known_addresses (d_identify s)) (map snd (d_servers s))" "length (d_servers s) \<le> 255"
    using assms(1) by (auto simp: addressing_def)
  obtain rs where rs: "replies_read pc ext c arrived rs"
    using postcard_format.replies_read_total [OF laws(1-3)] by blast
  obtain m' request' where m': "discovery_client_task pc ext c True arrived (d_counter s) (d_identify s) =
       Some (None \<notin> set rs \<and> (\<forall>a. count_list (heard rs) a \<le> 1), m',
             Some (request', int (card (known_addresses m')) - 1))"
      "identify_ok m'"
      "known_addresses m' = known_addresses (d_identify s) \<union> {a. count_list (heard rs) a = 1}"
      "process_client_request pc ext c request' = Some (Some (d_identify s))"
    by (rule postcard_format.client_task_result [OF laws(1-4) rs])
  obtain "is" where "is": "replies_read pc ext c replies (map Some is)"
      "settles (known_addresses (d_identify s)) (map snd (d_servers s)) (map snd servers') (map identified_address is)"
    using postcard_format.servers_turn_settles [OF laws(1-3) _ laws(4), of request next_u32 "d_servers s" rng servers replies rng']
      round m'(1,4) by auto
  have "count_list (heard rs) a = count_list (map identified_address is) a" for a
    using count_heard [OF heard_order [OF rs "is"(1)], of a] round(5) by (simp add: heard_def List.map_filter_def comp_def)
  with m' round(1-5) settles_owned [OF "is"(2) own(1)] settles_finished [OF "is"(2) own(1)] settles_length [OF "is"(2)] own(2) laws
  show ?thesis by (auto simp: addressing_def)
qed

lemma first_identify:
  "\<exists>m. set_address \<lparr>addresses = replicate MIN_PAYLOAD_SIZE 0\<rparr> 0 = Some m \<and> identify_ok m \<and> known_addresses m = {0}"
proof -
  let ?zero = "\<lparr>addresses = replicate MIN_PAYLOAD_SIZE 0\<rparr>"
  have "identify_ok ?zero" by (simp add: identify_ok_def)
  then obtain m where "set_address ?zero 0 = Some m" "identify_ok m" "known_addresses m = insert 0 (known_addresses ?zero)"
    by (rule set_address_known)
  moreover have "known_addresses ?zero = {}" by (auto simp: known_addresses_def known_def discovery_sizes)
  ultimately show ?thesis by simp
qed

lemma addressing_init:
  assumes "discovery_init pc ext c s"
  shows "addressing pc ext c s"
proof -
  have "identify_ok (d_identify s) \<and> known_addresses (d_identify s) = {0}"
    using first_identify assms by (auto simp: discovery_init_def)
  moreover have "map snd (d_servers s) = replicate (length (d_servers s)) None"
    using assms unfolding discovery_init_def by (metis map_replicate snd_conv)
  moreover have "count_list (replicate n None) (Some a) = 0" for n and a :: u8
    by (induction n) auto
  ultimately show ?thesis using assms by (simp add: addressing_def discovery_init_def owned_def)
qed

lemma addressing_finished:
  assumes inv: "addressing pc ext c s" and "d_finished s"
  shows "distinct (map snd (d_servers s)) \<and>
    (\<forall>own \<in> set (map snd (d_servers s)). \<exists>a. own = Some a \<and> a \<noteq> 0 \<and> is_address_set (d_identify s) a = Some True)"
proof -
  from inv have own: "owned (known_addresses (d_identify s)) (map snd (d_servers s))"
    and all: "\<forall>own \<in> set (map snd (d_servers s)). \<exists>a \<in> known_addresses (d_identify s). own = Some a"
    and "identify_ok (d_identify s)"
    using assms(2) by (auto simp: addressing_def)
  then have "is_address_set (d_identify s) a = Some (a \<in> known_addresses (d_identify s))" for a
    by (simp add: is_address_set_known)
  moreover have "Some 0 \<notin> set (map snd (d_servers s))"
    using own by (simp add: owned_def count_list_0_iff)
  ultimately show ?thesis using owned_distinct [OF own all] all by metis
qed

interpretation addressing_rounds: inductive_invariant
  "discovery_init pc ext c" "discovery_round pc ext c next_u32" "addressing pc ext c"
  for pc :: "'pe postcard" and ext :: extend and c :: aead and next_u32 :: "'r \<Rightarrow> u32 \<times> 'r"
  by unfold_locales (rule addressing_init, assumption, rule addressing_round)

section \<open>Properties\<close>

text \<open>A network of one server.\<close>

definition example_network :: Discovery where
  "example_network =
     \<lparr>d_identify = \<lparr>addresses = (replicate MIN_PAYLOAD_SIZE 0)[0 := 1]\<rparr>, d_counter = 0,
      d_servers = [(0, None)], d_finished = False\<rparr>"

lemma example_network_init: "discovery_init postcard_v1 vec_extend (check_cipher [7]) example_network"
  using v1.postcard_format_axioms
  by (simp add: discovery_init_def example_network_def set_address_def discovery_sizes)

lemma example_network_finishes:
  "\<exists>s. reachable (discovery_init postcard_v1 vec_extend (check_cipher [7]))
        (discovery_round postcard_v1 vec_extend (check_cipher [7]) (\<lambda>n :: u32. (n, n + 1))) s
      \<and> d_finished s \<and> length (d_servers s) = 1"
proof -
  let ?c = "check_cipher [7]" and ?next = "\<lambda>n :: u32. (n, n + 1)" and ?m = "d_identify example_network"
  have inv: "addressing postcard_v1 vec_extend ?c example_network"
    by (rule addressing_init [OF example_network_init])
  then have ok: "identify_ok ?m" by (simp add: addressing_def)
  have "1 \<notin> known_addresses ?m" by (simp add: known_addresses_def known_def example_network_def discovery_sizes)
  then have spare: "known_addresses ?m \<noteq> UNIV" by blast
  obtain request where request:
      "create_client_request postcard_v1 vec_extend ?c ?m 0 (replicate MIN_PACKET_SIZE 0) = Some request"
      "process_client_request postcard_v1 vec_extend ?c request = Some (Some ?m)"
    using v1.client_request_arrives [of vec_extend ?c ?m 0] ok by auto
  obtain a reply rng' where server:
      "discovery_server_task postcard_v1 vec_extend ?c ?next request 0 None 5 = Some (Some a, Some reply, rng')"
      "process_server_reply postcard_v1 vec_extend ?c reply = Some (Some \<lparr>identified_address = a, server_ports = 2\<rparr>)"
    using v1.server_task_unknown [of vec_extend ?c request ?m None ?next 0 5] request(2) ok spare by auto
  then have turn: "servers_turn postcard_v1 vec_extend ?c ?next request (d_servers example_network) 5 =
      Some ([(1, Some a)], [reply], rng')"
    by (simp add: example_network_def)
  obtain m' request' found where
      "discovery_client_task postcard_v1 vec_extend ?c True [reply] 0 ?m = Some (True, m', Some (request', found))"
      "create_client_request postcard_v1 vec_extend ?c ?m 0 (replicate MIN_PACKET_SIZE 0) = Some request'"
    by (rule v1.client_task_single [OF _ _ ok server(2), of 0]) simp_all
  then have round: "discovery_round postcard_v1 vec_extend ?c ?next example_network
      \<lparr>d_identify = m', d_counter = d_counter example_network + 1, d_servers = [(1, Some a)], d_finished = True\<rparr>"
    using request(1) by (intro discovery_round.round [OF _ _ turn refl refl]) (auto simp: example_network_def)
  have "reachable (discovery_init postcard_v1 vec_extend ?c) (discovery_round postcard_v1 vec_extend ?c ?next)
      \<lparr>d_identify = m', d_counter = d_counter example_network + 1, d_servers = [(1, Some a)], d_finished = True\<rparr>"
    using reachable_init round by (rule reachable_step) (rule example_network_init)
  then show ?thesis by (intro exI conjI) (assumption, simp_all)
qed

text \<open>
  C3. When discovery finishes in a network of at most 255 servers whose datagrams all arrive,
  every server has an address, it is not the reserved address 0, it is marked in the client's bit
  field, and no two servers have the same one.
\<close>

theorem discovery_unique_addresses:
  assumes "reachable (discovery_init pc ext c) (discovery_round pc ext c next_u32) s" and "d_finished s"
  shows "distinct (map snd (d_servers s)) \<and>
    (\<forall>own \<in> set (map snd (d_servers s)). \<exists>a. own = Some a \<and> a \<noteq> 0 \<and> is_address_set (d_identify s) a = Some True)"
  using addressing_rounds.invariant [OF assms(1)] assms(2) by (rule addressing_finished)

theorem discovery_unique_addresses_witness:
  "\<exists>s :: Discovery. length (d_servers s) = 1 \<and> distinct (map snd (d_servers s)) \<and>
    (\<forall>own \<in> set (map snd (d_servers s)). \<exists>a. own = Some a \<and> a \<noteq> 0 \<and> is_address_set (d_identify s) a = Some True)"
proof -
  from example_network_finishes obtain s where
    s: "reachable (discovery_init postcard_v1 vec_extend (check_cipher [7]))
        (discovery_round postcard_v1 vec_extend (check_cipher [7]) (\<lambda>n :: u32. (n, n + 1))) s
      \<and> d_finished s \<and> length (d_servers s) = 1" ..
  have *: "d_finished s" "length (d_servers s) = 1" using s by simp_all
  from conjI [OF *(2) discovery_unique_addresses [OF conjunct1 [OF s] *(1)]] show ?thesis ..
qed

text \<open>
  In every reachable state in which the client is not finished another round can take place:
  neither the client nor any server panics in it.
\<close>

lemma discovery_never_stuck:
  assumes "reachable (discovery_init pc ext c) (discovery_round pc ext c next_u32) s" and "\<not> d_finished s"
  shows "\<exists>s'. discovery_round pc ext c next_u32 s s'"
proof -
  have "addressing pc ext c s" by (rule addressing_rounds.invariant [OF assms(1)])
  then have laws: "postcard_format pc" "heapless_vec ext" "aead_cipher c" "identify_ok (d_identify s)"
    by (auto simp: addressing_def)
  obtain request where request:
      "create_client_request pc ext c (d_identify s) (d_counter s) (replicate MIN_PACKET_SIZE 0) = Some request"
      "process_client_request pc ext c request = Some (Some (d_identify s))"
    by (rule postcard_format.client_request_arrives [OF laws])
  obtain servers replies rng' where turn:
      "servers_turn pc ext c next_u32 request (d_servers s) undefined = Some (servers, replies, rng')"
    using postcard_format.servers_turn_total [OF laws(1-3) request(2) laws(4), of next_u32 "d_servers s" undefined] by blast
  obtain rs where rs: "replies_read pc ext c replies rs"
    using postcard_format.replies_read_total [OF laws(1-3)] by blast
  obtain m' request' where
      "discovery_client_task pc ext c True replies (d_counter s) (d_identify s) =
         Some (None \<notin> set rs \<and> (\<forall>a. count_list (heard rs) a \<le> 1), m',
               Some (request', int (card (known_addresses m')) - 1))"
      "create_client_request pc ext c (d_identify s) (d_counter s) (replicate MIN_PACKET_SIZE 0) = Some request'"
    by (rule postcard_format.client_task_result [OF laws rs])
  then show ?thesis using discovery_round.round [OF assms(2) _ turn refl refl] request(1) by fastforce
qed

lemma discovery_never_stuck_witness:
  "\<exists>s'. discovery_round postcard_v1 vec_extend (check_cipher [7]) (\<lambda>n :: u32. (n, n + 1)) example_network s'"
proof (rule discovery_never_stuck)
  show "reachable (discovery_init postcard_v1 vec_extend (check_cipher [7]))
      (discovery_round postcard_v1 vec_extend (check_cipher [7]) (\<lambda>n :: u32. (n, n + 1))) example_network"
    by (rule reachable_init) (rule example_network_init)
qed (simp add: example_network_def)

text \<open>
  C18. The client's discovery task on any datagrams arriving in its window never panics: it is
  finished exactly when every datagram was a readable reply and no address was heard twice; it
  adds exactly the addresses heard once; the number it prints is that of the addresses known
  beside the reserved one; and servers read its request as the bit field it started with.
\<close>

theorem discovery_client_result:
  assumes "postcard_format pc" and "heapless_vec ext" and "aead_cipher c" and "identify_ok m"
  shows "\<exists>rs m' request. list_all2 (\<lambda>d r. process_server_reply pc ext c d = Some r) arrived rs
    \<and> discovery_client_task pc ext c True arrived fc m =
        Some (None \<notin> set rs \<and> (\<forall>a. count_list (heard rs) a \<le> 1), m',
              Some (request, int (card {a. is_address_set m' a = Some True}) - 1))
    \<and> (\<forall>a. is_address_set m' a = Some (is_address_set m a = Some True \<or> count_list (heard rs) a = 1))
    \<and> process_client_request pc ext c request = Some (Some m)"
proof -
  obtain rs where rs: "replies_read pc ext c arrived rs"
    using postcard_format.replies_read_total [OF assms(1-3)] by blast
  obtain m' request where
    "discovery_client_task pc ext c True arrived fc m =
       Some (None \<notin> set rs \<and> (\<forall>a. count_list (heard rs) a \<le> 1), m',
             Some (request, int (card (known_addresses m')) - 1))"
    "identify_ok m'" "known_addresses m' = known_addresses m \<union> {a. count_list (heard rs) a = 1}"
    "process_client_request pc ext c request = Some (Some m)"
    by (rule postcard_format.client_task_result [OF assms rs])
  then show ?thesis
    using rs assms(4) by (intro exI [of _ rs] exI [of _ m'] exI [of _ request]) (simp add: is_address_set_known Un_def)
qed

theorem discovery_client_result_witness:
  "\<exists>rs m' request.
      list_all2 (\<lambda>d r. process_server_reply postcard_v1 vec_extend (check_cipher [7]) d = Some r) [[], [1, 2, 3]] rs
    \<and> discovery_client_task postcard_v1 vec_extend (check_cipher [7]) True [[], [1, 2, 3]] 9 no_addresses =
        Some (None \<notin> set rs \<and> (\<forall>a. count_list (heard rs) a \<le> 1), m',
              Some (request, int (card {a. is_address_set m' a = Some True}) - 1))
    \<and> (\<forall>a. is_address_set m' a = Some (is_address_set no_addresses a = Some True \<or> count_list (heard rs) a = 1))
    \<and> process_client_request postcard_v1 vec_extend (check_cipher [7]) request = Some (Some no_addresses)"
  by (rule discovery_client_result) (simp_all add: v1.postcard_format_axioms)

text \<open>
  C35. Two servers without an address that hear the same request and draw the same random number
  take the same spare address as their own and reply with it. If both replies reach the client it
  does not finish and does not mark the address. If only one of them does, whichever, the client
  is finished and marks the address, and from then on each of the two servers, asked with any bit
  field in which it is marked, keeps it and stays silent: both have the address for good.
\<close>

theorem lost_reply_duplicates_address:
  assumes "postcard_format pc" and "heapless_vec ext" and "aead_cipher c" and "identify_ok m"
    and "known_addresses m \<noteq> UNIV" and "fst (next_u32 rng1) = fst (next_u32 rng2)"
  shows "\<exists>request a reply1 reply2 rng1' rng2'. is_address_set m a = Some False \<and>
    create_client_request pc ext c m fc (replicate MIN_PACKET_SIZE 0) = Some request \<and>
    discovery_server_task pc ext c next_u32 request fc1 None rng1 = Some (Some a, Some reply1, rng1') \<and>
    discovery_server_task pc ext c next_u32 request fc2 None rng2 = Some (Some a, Some reply2, rng2') \<and>
    (\<forall>reply \<in> {reply1, reply2}. \<exists>m' found.
       discovery_client_task pc ext c True [reply] fc m = Some (True, m', Some (request, found)) \<and>
       is_address_set m' a = Some True) \<and>
    (\<exists>m' found. discovery_client_task pc ext c True [reply1, reply2] fc m = Some (False, m', Some (request, found)) \<and>
       is_address_set m' a = Some False) \<and>
    (\<forall>later m' fc' rng. process_client_request pc ext c later = Some (Some m') \<and> identify_ok m' \<and> is_address_set m' a = Some True \<longrightarrow>
       discovery_server_task pc ext c next_u32 later fc' (Some a) rng = Some (Some a, None, rng))"
proof -
  obtain request where request: "create_client_request pc ext c m fc (replicate MIN_PACKET_SIZE 0) = Some request"
      "process_client_request pc ext c request = Some (Some m)"
    by (rule postcard_format.client_request_arrives [OF assms(1-4)])
  obtain a reply1 reply2 rng1' rng2' where a: "a \<notin> known_addresses m"
      and picks: "discovery_server_task pc ext c next_u32 request fc1 None rng1 = Some (Some a, Some reply1, rng1')"
        "discovery_server_task pc ext c next_u32 request fc2 None rng2 = Some (Some a, Some reply2, rng2')"
      and replies: "process_server_reply pc ext c reply1 = Some (Some \<lparr>identified_address = a, server_ports = 2\<rparr>)"
        "process_server_reply pc ext c reply2 = Some (Some \<lparr>identified_address = a, server_ports = 2\<rparr>)"
    by (rule postcard_format.same_draw_same_address [OF assms(1-3) request(2) assms(4-6)])
  have one: "\<exists>m' found. discovery_client_task pc ext c True [reply] fc m = Some (True, m', Some (request, found)) \<and>
      is_address_set m' a = Some True" if "reply \<in> {reply1, reply2}" for reply
  proof -
    have "process_server_reply pc ext c reply = Some (Some \<lparr>identified_address = a, server_ports = 2\<rparr>)"
      using that replies by auto
    from assms(1-4) this obtain m' request' found where
        "discovery_client_task pc ext c True [reply] fc m = Some (True, m', Some (request', found))" "identify_ok m'"
        "a \<in> known_addresses m'" "create_client_request pc ext c m fc (replicate MIN_PACKET_SIZE 0) = Some request'"
      by (rule postcard_format.client_task_single) auto
    with request(1) show ?thesis by (simp add: is_address_set_known)
  qed
  have both: "\<exists>m' found. discovery_client_task pc ext c True [reply1, reply2] fc m = Some (False, m', Some (request, found)) \<and>
      is_address_set m' a = Some False"
  proof -
    from assms(1-4) replies obtain m' request' found where
        "discovery_client_task pc ext c True [reply1, reply2] fc m = Some (False, m', Some (request', found))" "identify_ok m'"
        "known_addresses m' = known_addresses m" "create_client_request pc ext c m fc (replicate MIN_PACKET_SIZE 0) = Some request'"
      by (rule postcard_format.client_task_pair)
    with request(1) a show ?thesis by (simp add: is_address_set_known)
  qed
  have "discovery_server_task pc ext c next_u32 later fc' (Some a) rng = Some (Some a, None, rng)"
    if "process_client_request pc ext c later = Some (Some m')" "identify_ok m'" "is_address_set m' a = Some True" for later m' fc' rng
    using postcard_format.server_task_keep [OF assms(1) that(1,2), of "Some a" next_u32 fc' rng] that(2,3)
    by (auto simp: is_address_set_known)
  moreover have "is_address_set m a = Some False" using a assms(4) by (simp add: is_address_set_known)
  ultimately show ?thesis using request(1) picks one both by blast
qed

theorem lost_reply_duplicates_address_witness:
  "\<exists>request a reply1 reply2 rng1 rng2.
    discovery_server_task postcard_v1 vec_extend (check_cipher [7]) (\<lambda>n :: u32. (n, n + 1)) request 0 None 5 =
      Some (Some a, Some reply1, rng1) \<and>
    discovery_server_task postcard_v1 vec_extend (check_cipher [7]) (\<lambda>n :: u32. (n, n + 1)) request 1 None 5 =
      Some (Some a, Some reply2, rng2) \<and>
    (\<exists>m' found. discovery_client_task postcard_v1 vec_extend (check_cipher [7]) True [reply1] 9 no_addresses =
       Some (True, m', Some (request, found)) \<and> is_address_set m' a = Some True)"
proof -
  have "known_addresses no_addresses \<noteq> UNIV" using is_address_set_known [of no_addresses] by auto
  from lost_reply_duplicates_address [OF v1.postcard_format_axioms _ _ _ this, of vec_extend "check_cipher [7]"
      "\<lambda>n :: u32. (n, n + 1)" 5 5 9 0 1]
  show ?thesis by simp blast
qed

end
