(* ===== verification/Discovery_Main.thy ===== *)
theory Discovery_Main
  imports Discovery_Protocol
begin

text \<open>
  The discovery example as a whole (\<open>data/examples/discovery/main.rs\<close>): \<open>main\<close> spawns the servers and
  runs the rounds until the client is finished. It refines the rounds of \<open>Discovery_Protocol\<close>, and it
  can finish in one second from every state it can get into: the random numbers that let every server
  pick an address of its own always exist.
\<close>

section \<open>The program\<close>

text \<open>
  The servers in a round. Server \<open>i\<close> receives the request if it has subscribed to the channel by then
  (\<open>hears i\<close>), and \<open>overhears i\<close> replies of the others after it, which it ignores but counts.
\<close>

fun network_turn ::
    "'pe postcard \<Rightarrow> extend \<Rightarrow> aead \<Rightarrow> ('r \<Rightarrow> u32 \<times> 'r) \<Rightarrow> bytes \<Rightarrow> (nat \<Rightarrow> bool) \<Rightarrow> (nat \<Rightarrow> u16) \<Rightarrow> nat
      \<Rightarrow> (u16 \<times> u8 option) list \<Rightarrow> 'r \<Rightarrow> ((u16 \<times> u8 option) list \<times> bytes list \<times> 'r) exec" where
  "network_turn pc ext cipher next_u32 datagram hears overhears i [] rng = Some ([], [], rng)"
| "network_turn pc ext cipher next_u32 datagram hears overhears i ((fc, own_address) # servers) rng = do {
     (fc, own_address, reply, rng) \<leftarrow>
       (if hears i then do {
          (own_address, reply, rng) \<leftarrow> discovery_server_task pc ext cipher next_u32 datagram fc own_address rng;
          Some (fc + 1, own_address, reply, rng)
        }
        else Some (fc, own_address, None, rng));
     (servers, replies, rng) \<leftarrow> network_turn pc ext cipher next_u32 datagram hears overhears (Suc i) servers rng;
     Some ((fc + overhears i, own_address) # servers, (case reply of Some d \<Rightarrow> [d] | None \<Rightarrow> []) @ replies, rng)
   }"

text \<open>
  The loop of \<open>main\<close>, in round \<open>k\<close>, and the number of seconds it prints, whose addition panics when
  it overflows. The channel accepts the request, since \<open>main\<close> holds a receiver of its own.
\<close>

partial_function (option) discovery_loop ::
    "'pe postcard \<Rightarrow> extend \<Rightarrow> aead \<Rightarrow> ('r \<Rightarrow> u32 \<times> 'r) \<Rightarrow> (nat \<Rightarrow> nat \<Rightarrow> bool) \<Rightarrow> (nat \<Rightarrow> nat \<Rightarrow> u16) \<Rightarrow> nat
      \<Rightarrow> Identify \<Rightarrow> u16 \<Rightarrow> (u16 \<times> u8 option) list \<Rightarrow> 'r \<Rightarrow> (u16 \<times> Identify \<times> (u16 \<times> u8 option) list) option" where
  "discovery_loop pc ext cipher next_u32 hears overhears k identify fc servers rng =
     Option.bind (create_client_request pc ext cipher identify fc (replicate MIN_PACKET_SIZE 0)) (\<lambda>request.
     Option.bind (network_turn pc ext cipher next_u32 request (hears k) (overhears k) 0 servers rng)
       (\<lambda>(servers, replies, rng).
     Option.bind (discovery_client_task pc ext cipher True replies fc identify) (\<lambda>(finished, identify, _).
       if finished then (if fc = - 1 then None else Some (fc + 1, identify, servers))
       else discovery_loop pc ext cipher next_u32 hears overhears (Suc k) identify (fc + 1) servers rng)))"

text \<open>\<open>main\<close> with \<open>n\<close> servers, where the source has 255.\<close>

definition discovery_main ::
    "'pe postcard \<Rightarrow> extend \<Rightarrow> aead \<Rightarrow> ('r \<Rightarrow> u32 \<times> 'r) \<Rightarrow> (nat \<Rightarrow> nat \<Rightarrow> bool) \<Rightarrow> (nat \<Rightarrow> nat \<Rightarrow> u16) \<Rightarrow> nat \<Rightarrow> 'r
      \<Rightarrow> (u16 \<times> Identify \<times> (u16 \<times> u8 option) list) option" where
  "discovery_main pc ext cipher next_u32 hears overhears n rng = do {
     identify \<leftarrow> set_address \<lparr>addresses = replicate MIN_PAYLOAD_SIZE 0\<rparr> 0;
     discovery_loop pc ext cipher next_u32 hears overhears 0 identify 0 (replicate n (0, None)) rng
   }"

section \<open>It refines the rounds\<close>

definition counted :: "(nat \<Rightarrow> u16) \<Rightarrow> nat \<Rightarrow> (u16 \<times> u8 option) list \<Rightarrow> (u16 \<times> u8 option) list" where
  "counted overhears i servers = map (\<lambda>(j, fc, own). (fc + overhears j, own)) (enumerate i servers)"

lemma counted_simps [simp]:
  "counted overhears i [] = []"
  "counted overhears i ((fc, own) # servers) = (fc + overhears i, own) # counted overhears (Suc i) servers"
  by (simp_all add: counted_def)

lemma map_snd_counted [simp]: "map snd (counted overhears i servers) = map snd servers"
  by (induction servers arbitrary: i) auto

lemma network_turn_hears:
  assumes "\<forall>i. hears i"
  shows "network_turn pc ext c next_u32 d hears overhears i servers rng =
    map_option (\<lambda>(servers, replies, rng). (counted overhears i servers, replies, rng))
      (servers_turn pc ext c next_u32 d servers rng)"
  using assms
  by (induction servers arbitrary: i rng) (auto simp: bind_eq_Some_conv split: Option.bind_split prod.splits)

lemma network_turn_unheard:
  assumes "\<forall>j. i \<le> j \<and> j < i + length servers \<longrightarrow> \<not> hears j"
  shows "network_turn pc ext c next_u32 d hears overhears i servers rng = Some (counted overhears i servers, [], rng)"
  using assms by (induction servers arbitrary: i) auto

lemma network_turn_length:
  "network_turn pc ext c next_u32 d hears overhears i servers rng = Some (servers', replies, rng') \<Longrightarrow>
    length servers' = length servers"
proof (induction servers arbitrary: i rng servers' replies)
  case (Cons x servers)
  then show ?case by (cases x) (auto simp: bind_eq_Some_conv split: if_splits)
qed simp

lemma client_task_request:
  assumes "discovery_client_task pc ext c True arrived fc m = Some (finished, m', sent)"
    and "create_client_request pc ext c m fc (replicate MIN_PACKET_SIZE 0) = Some request"
  shows "\<exists>found. sent = Some (request, found)"
  using assms by (auto simp: discovery_client_task_def bind_eq_Some_conv)

lemma discovery_loop_refines:
  assumes "discovery_loop pc ext c next_u32 hears overhears k m fc servers rng = Some res"
    and "\<forall>k i. hears k i" and "reachable (discovery_init pc ext c) (discovery_round pc ext c next_u32)
      \<lparr>d_identify = m, d_counter = fc, d_servers = servers, d_finished = False\<rparr>"
  shows "\<exists>n. reachable (discovery_init pc ext c) (discovery_round pc ext c next_u32)
      \<lparr>d_identify = fst (snd res), d_counter = n, d_servers = snd (snd res), d_finished = True\<rparr> \<and>
      length (snd (snd res)) = length servers"
  using assms
proof (induction rule: discovery_loop.raw_induct [rotated, consumes 1])
  case (1 loop pc ext c next_u32 hears overhears k m fc servers rng res)
  let ?s = "\<lparr>d_identify = m, d_counter = fc, d_servers = servers, d_finished = False\<rparr>"
  obtain request servers1 replies rng1 finished m1 sent where
      request: "create_client_request pc ext c m fc (replicate MIN_PACKET_SIZE 0) = Some request"
    and turn: "network_turn pc ext c next_u32 request (hears k) (overhears k) 0 servers rng = Some (servers1, replies, rng1)"
    and client: "discovery_client_task pc ext c True replies fc m = Some (finished, m1, sent)"
    and rest: "(if finished then (if fc = - 1 then None else Some (fc + 1, m1, servers1))
       else loop pc ext c next_u32 hears overhears (Suc k) m1 (fc + 1) servers1 rng1) = Some res"
    using 1(2) by (auto simp: bind_eq_Some_conv)
  obtain servers0 where servers0: "servers_turn pc ext c next_u32 request servers rng = Some (servers0, replies, rng1)"
      "servers1 = counted (overhears k) 0 servers0"
    using turn network_turn_hears [of "hears k" pc ext c next_u32 request "overhears k" 0 servers rng] 1(3) by auto
  obtain found where "sent = Some (request, found)" using client_task_request [OF client request] ..
  then have "discovery_round pc ext c next_u32 ?s
      \<lparr>d_identify = m1, d_counter = fc + 1, d_servers = servers1, d_finished = finished\<rparr>"
    using discovery_round.round [of ?s pc ext c replies finished m1 request found next_u32 rng servers0 replies rng1 servers1]
      client servers0 by simp
  then have reached: "reachable (discovery_init pc ext c) (discovery_round pc ext c next_u32)
      \<lparr>d_identify = m1, d_counter = fc + 1, d_servers = servers1, d_finished = finished\<rparr>"
    using reachable_step [OF 1(4)] by blast
  show ?case
  proof (cases finished)
    case True
    then show ?thesis using rest reached network_turn_length [OF turn] by (auto split: if_splits)
  next
    case False
    then show ?thesis using rest reached 1(1) [OF _ 1(3)] network_turn_length [OF turn] by auto
  qed
qed

section \<open>It can finish\<close>

text \<open>Random numbers from a list, which is long enough in what follows.\<close>

fun random_list :: "u32 list \<Rightarrow> u32 \<times> u32 list" where
  "random_list [] = (0, [])"
| "random_list (r # rs) = (r, rs)"

text \<open>The servers that will pick an address when \<open>K\<close> are the known ones.\<close>

definition pickers :: "u8 set \<Rightarrow> u8 option list \<Rightarrow> u8 option list" where
  "pickers K os = filter (\<lambda>own. \<forall>a. own = Some a \<longrightarrow> a \<notin> K) os"

lemma pickers_simps [simp]:
  "pickers K [] = []"
  "pickers K (own # os) = (if \<forall>a. own = Some a \<longrightarrow> a \<notin> K then own # pickers K os else pickers K os)"
  by (simp_all add: pickers_def)

text \<open>There are as many spare addresses as servers without a known one.\<close>

lemma pickers_bound:
  assumes "owned K os" and "length os \<le> 255"
  shows "length (pickers K os) \<le> card (- K)"
proof -
  let ?holders = "filter (\<lambda>own. \<not> (\<forall>a. own = Some a \<longrightarrow> a \<notin> K)) os"
  have "Some ` (K - {0}) \<subseteq> set ?holders"
  proof
    fix x assume "x \<in> Some ` (K - {0})"
    then obtain a where a: "x = Some a" "a \<in> K - {0}" by blast
    then have "count_list os x = 1" using assms(1) by (simp add: owned_def)
    then have "x \<in> set os" by (metis count_notin zero_neq_one)
    with a show "x \<in> set ?holders" by auto
  qed
  then have "card (K - {0}) \<le> length ?holders"
    using card_mono [of "set ?holders" "Some ` (K - {0})"] card_length [of ?holders] by (simp add: card_image)
  moreover have "card (K - {0}) = card K - 1" "card (- K) = 256 - card K" "card K \<le> 256"
    using assms(1) card_mono [of UNIV K] by (simp_all add: owned_def Compl_eq_Diff_UNIV card_Diff_subset card_word)
  moreover have "length (pickers K os) + length ?holders = length os"
    unfolding pickers_def using sum_length_filter_compl by blast
  moreover have "0 < card K" using assms(1) by (auto simp: owned_def card_gt_0_iff)
  ultimately show ?thesis using assms(2) by linarith
qed

context postcard_format
begin

lemma lucky_turn:
  assumes laws: "heapless_vec ext" "aead_cipher c"
    and d: "process_client_request pc ext c d = Some (Some m)" "identify_ok m"
    and "set xs \<inter> known_addresses m = {}" and "length xs = length (pickers (known_addresses m) (map snd servers))"
  shows "\<exists>rs servers' replies. servers_turn pc ext c random_list d servers rs = Some (servers', replies, []) \<and>
    replies_read pc ext c replies (map (\<lambda>a. Some \<lparr>identified_address = a, server_ports = 2\<rparr>) xs)"
  using assms(5,6)
proof (induction servers arbitrary: xs)
  case Nil
  then show ?case by (intro exI [of _ "[]"]) simp
next
  case (Cons x servers)
  let ?K = "known_addresses m"
  obtain fc own where x: "x = (fc, own)" by (cases x)
  show ?case
  proof (cases "\<forall>a. own = Some a \<longrightarrow> a \<notin> ?K")
    case True
    then obtain a ys where xs: "xs = a # ys" using Cons.prems(2) by (cases xs) (simp_all add: x)
    obtain rs servers' replies where turn: "servers_turn pc ext c random_list d servers rs = Some (servers', replies, [])"
        "replies_read pc ext c replies (map (\<lambda>a. Some \<lparr>identified_address = a, server_ports = 2\<rparr>) ys)"
      using Cons.IH [of ys] Cons.prems True by (auto simp: x xs)
    have "a \<notin> ?K" using Cons.prems(1) xs by simp
    obtain r where r: "\<forall>next_u32 rng (rng' :: u32 list). next_u32 rng = (r, rng') \<longrightarrow>
        with_random_address next_u32 (iter m) rng 2 = Some (Some \<lparr>identified_address = a, server_ports = 2\<rparr>, rng')"
      using with_random_address_reaches_all [OF d(2) \<open>a \<notin> ?K\<close>, of 2] by (rule exE)
    have "with_random_address random_list (iter m) (r # rs) 2 = Some (Some \<lparr>identified_address = a, server_ports = 2\<rparr>, rs)"
      by (rule r [rule_format]) simp
    from server_task_picks [OF laws d True this, of fc] obtain reply where
      "discovery_server_task pc ext c random_list d fc own (r # rs) = Some (Some a, Some reply, rs)"
      "process_server_reply pc ext c reply = Some (Some \<lparr>identified_address = a, server_ports = 2\<rparr>)"
      by blast
    with turn show ?thesis by (intro exI [of _ "r # rs"]) (simp add: x xs)
  next
    case False
    then have "discovery_server_task pc ext c random_list d fc own rng = Some (own, None, rng)" for rng
      by (intro server_task_keep [OF d]) blast
    moreover obtain rs servers' replies where "servers_turn pc ext c random_list d servers rs = Some (servers', replies, [])"
        "replies_read pc ext c replies (map (\<lambda>a. Some \<lparr>identified_address = a, server_ports = 2\<rparr>) xs)"
      using Cons.IH [of xs] Cons.prems False by (auto simp: x)
    ultimately show ?thesis by (intro exI [of _ rs]) (simp add: x)
  qed
qed

end

lemma count_list_distinct: "distinct xs \<Longrightarrow> count_list xs a \<le> 1"
  by (induction xs) auto

lemma lucky_round:
  assumes "addressing pc ext c s"
  obtains request rs servers replies m' found where
    "create_client_request pc ext c (d_identify s) (d_counter s) (replicate MIN_PACKET_SIZE 0) = Some request"
    "servers_turn pc ext c random_list request (d_servers s) rs = Some (servers, replies, [])"
    "discovery_client_task pc ext c True replies (d_counter s) (d_identify s) = Some (True, m', Some (request, found))"
proof -
  let ?K = "known_addresses (d_identify s)"
  let ?n = "length (pickers ?K (map snd (d_servers s)))"
  from assms have laws: "postcard_format pc" "heapless_vec ext" "aead_cipher c" "identify_ok (d_identify s)"
    and "?n \<le> card (- ?K)"
    by (auto simp: addressing_def intro!: pickers_bound)
  then obtain X where X: "X \<subseteq> - ?K" "card X = ?n" "finite X" by (metis obtain_subset_with_card_n)
  then obtain xs where xs: "set xs = X" "distinct xs" using finite_distinct_list by blast
  then have n: "set xs \<inter> ?K = {}" "length xs = ?n" using X distinct_card [of xs] by auto
  obtain request where request:
      "create_client_request pc ext c (d_identify s) (d_counter s) (replicate MIN_PACKET_SIZE 0) = Some request"
      "process_client_request pc ext c request = Some (Some (d_identify s))"
    by (rule postcard_format.client_request_arrives [OF laws])
  obtain rs servers replies where turn:
      "servers_turn pc ext c random_list request (d_servers s) rs = Some (servers, replies, [])"
    and read: "replies_read pc ext c replies (map (\<lambda>a. Some \<lparr>identified_address = a, server_ports = 2\<rparr>) xs)"
    using postcard_format.lucky_turn [OF laws(1-3) request(2) laws(4) n] by blast
  have heard: "heard (map (\<lambda>a. Some \<lparr>identified_address = a, server_ports = 2\<rparr>) xs) = xs"
    by (induction xs) simp_all
  obtain m' request' where "discovery_client_task pc ext c True replies (d_counter s) (d_identify s) =
       Some (None \<notin> set (map (\<lambda>a. Some \<lparr>identified_address = a, server_ports = 2\<rparr>) xs) \<and>
             (\<forall>a. count_list (heard (map (\<lambda>a. Some \<lparr>identified_address = a, server_ports = 2\<rparr>) xs)) a \<le> 1), m',
             Some (request', int (card (known_addresses m')) - 1))"
    by (rule postcard_format.client_task_result [OF laws read])
  then have "discovery_client_task pc ext c True replies (d_counter s) (d_identify s) =
       Some (True, m', Some (request', int (card (known_addresses m')) - 1))"
    using count_list_distinct [OF xs(2)] by (simp add: heard image_iff)
  with client_task_request [OF this request(1)] that [OF request(1) turn] show ?thesis by blast
qed

section \<open>Properties\<close>

text \<open>
  C16. Discovery can always finish: from every state of the rounds in which the client is not
  finished yet, there are random numbers with which the next round is the last one, since there
  are as many spare addresses as servers without a known one and every spare address is drawn for
  some number.
\<close>

theorem discovery_can_finish:
  assumes "reachable (discovery_init pc ext c) (discovery_round pc ext c next_u32) s" and "\<not> d_finished s"
  shows "\<exists>s'. discovery_round pc ext c random_list s s' \<and> d_finished s'"
proof -
  have "addressing pc ext c s" by (rule addressing_rounds.invariant [OF assms(1)])
  then obtain request rs servers replies m' found where
    "servers_turn pc ext c random_list request (d_servers s) rs = Some (servers, replies, [])"
    "discovery_client_task pc ext c True replies (d_counter s) (d_identify s) = Some (True, m', Some (request, found))"
    by (rule lucky_round)
  from discovery_round.round [OF assms(2) this(2,1) refl refl] show ?thesis by fastforce
qed

theorem discovery_can_finish_witness:
  "\<exists>s'. discovery_round postcard_v1 vec_extend (check_cipher [7]) random_list example_network s' \<and> d_finished s'"
proof (rule discovery_can_finish)
  show "reachable (discovery_init postcard_v1 vec_extend (check_cipher [7]))
      (discovery_round postcard_v1 vec_extend (check_cipher [7]) (\<lambda>n :: u32. (n, n + 1))) example_network"
    by (rule reachable_init) (rule example_network_init)
qed (simp add: example_network_def)

text \<open>
  The discovery example as a whole, with at most 255 servers that hear every request: there are random
  numbers with which it ends after one second, and whenever it ends, whatever the random numbers and
  however many replies of others the servers overhear, all servers are there with an address each, none
  of them the reserved one or one of another, all marked in the client's bit field.
\<close>

lemma discovery_main_outcome:
  assumes "postcard_format pc" and "heapless_vec ext" and "aead_cipher c" and "n \<le> 255" and "\<forall>k i. hears k i"
  shows "(\<exists>rs m servers. discovery_main pc ext c random_list hears overhears n rs = Some (1, m, servers)) \<and>
    (\<forall>rng seconds m servers. discovery_main pc ext c next_u32 hears overhears n rng = Some (seconds, m, servers) \<longrightarrow>
       length servers = n \<and> distinct (map snd servers) \<and>
       (\<forall>own \<in> set (map snd servers). \<exists>a. own = Some a \<and> a \<noteq> 0 \<and> is_address_set m a = Some True))"
proof -
  obtain m0 where m0: "set_address \<lparr>addresses = replicate MIN_PAYLOAD_SIZE 0\<rparr> 0 = Some m0" using first_identify by blast
  let ?s = "\<lparr>d_identify = m0, d_counter = 0, d_servers = replicate n (0, None), d_finished = False\<rparr>"
  have init: "discovery_init pc ext c ?s" using m0 assms by (simp add: discovery_init_def)
  obtain request rs servers replies m' found where
    "create_client_request pc ext c m0 0 (replicate MIN_PACKET_SIZE 0) = Some request"
    "servers_turn pc ext c random_list request (replicate n (0, None)) rs = Some (servers, replies, [])"
    "discovery_client_task pc ext c True replies 0 m0 = Some (True, m', Some (request, found))"
    by (rule lucky_round [OF addressing_init [OF init], simplified]) blast
  then have "discovery_main pc ext c random_list hears overhears n rs = Some (1, m', counted (overhears 0) 0 servers)"
    using m0 assms(5) by (simp add: discovery_main_def discovery_loop.simps [of _ _ _ _ _ _ 0] network_turn_hears)
  moreover have "length servers = n \<and> distinct (map snd servers) \<and>
       (\<forall>own \<in> set (map snd servers). \<exists>a. own = Some a \<and> a \<noteq> 0 \<and> is_address_set m a = Some True)"
    if main: "discovery_main pc ext c next_u32 hears overhears n rng = Some (seconds, m, servers)" for rng seconds m servers
  proof -
    have "discovery_loop pc ext c next_u32 hears overhears 0 m0 0 (replicate n (0, None)) rng = Some (seconds, m, servers)"
      using main m0 by (simp add: discovery_main_def)
    moreover have "reachable (discovery_init pc ext c) (discovery_round pc ext c next_u32) ?s"
      using init by (rule reachable_init)
    ultimately obtain k where
      reached: "reachable (discovery_init pc ext c) (discovery_round pc ext c next_u32)
        \<lparr>d_identify = m, d_counter = k, d_servers = servers, d_finished = True\<rparr>" and len: "length servers = n"
      using discovery_loop_refines [OF _ assms(5)] by fastforce
    from addressing_finished [OF addressing_rounds.invariant [OF reached]] len show ?thesis by simp
  qed
  ultimately show ?thesis by blast
qed

lemma discovery_main_example:
  "\<exists>rs m servers. discovery_main postcard_v1 vec_extend (check_cipher [7]) random_list (\<lambda>_ _. True) (\<lambda>_ _. 3) 255 rs =
      Some (1, m, servers) \<and> length servers = 255 \<and> distinct (map snd servers) \<and>
      (\<forall>own \<in> set (map snd servers). \<exists>a. own = Some a \<and> a \<noteq> 0 \<and> is_address_set m a = Some True)"
proof -
  note all = discovery_main_outcome [of postcard_v1 vec_extend "check_cipher [7]" 255 "\<lambda>_ _. True" "\<lambda>_ _. 3" random_list,
      OF v1.postcard_format_axioms heapless_vec_extend aead_check_cipher le_refl, simplified]
  obtain rs m servers where main: "discovery_main postcard_v1 vec_extend (check_cipher [7]) random_list (\<lambda>_ _. True)
      (\<lambda>_ _. 3) 255 rs = Some (1, m, servers)"
    using conjunct1 [OF all] by (elim exE)
  from conjunct2 [OF all, rule_format, OF main] main
  show ?thesis by (intro exI [of _ rs] exI [of _ m] exI [of _ servers]) simp
qed

text \<open>
  C36. When no server has subscribed to the channel before the first request, discovery ends after
  one second with success, no address found and no server with an address: silence is taken for
  the end.
\<close>

theorem discovery_main_unheard:
  assumes "postcard_format pc" and "heapless_vec ext" and "aead_cipher c" and "\<forall>i < n. \<not> hears 0 i"
  shows "\<exists>m servers. discovery_main pc ext c next_u32 hears overhears n rng = Some (1, m, servers) \<and>
    map snd servers = replicate n None \<and> (\<forall>a. is_address_set m a = Some (a = 0))"
proof -
  obtain m0 where m0: "set_address \<lparr>addresses = replicate MIN_PAYLOAD_SIZE 0\<rparr> 0 = Some m0" "identify_ok m0"
      "known_addresses m0 = {0}" using first_identify by blast
  have none: "replies_read pc ext c [] []" by simp
  obtain m' request where m': "discovery_client_task pc ext c True [] 0 m0 =
       Some (None \<notin> set ([] :: Identified option list) \<and> (\<forall>a. count_list (heard []) a \<le> 1), m', Some (request, int (card (known_addresses m')) - 1))"
      "identify_ok m'" "known_addresses m' = known_addresses m0 \<union> {a. count_list (heard []) a = 1}"
      "process_client_request pc ext c request = Some (Some m0)"
      "create_client_request pc ext c m0 0 (replicate MIN_PACKET_SIZE 0) = Some request"
    by (rule postcard_format.client_task_result [OF assms(1-3) m0(2) none, where fc = 0])
  have "network_turn pc ext c next_u32 request (hears 0) (overhears 0) 0 (replicate n (0, None)) rng =
      Some (counted (overhears 0) 0 (replicate n (0, None)), [], rng)"
    using assms(4) by (intro network_turn_unheard) simp
  with m' m0 show ?thesis
    by (simp add: discovery_main_def discovery_loop.simps [of _ _ _ _ _ _ 0] is_address_set_known)
qed

theorem discovery_main_unheard_witness:
  "\<exists>m servers. discovery_main postcard_v1 vec_extend (check_cipher [7]) (\<lambda>n :: u32. (n, n + 1))
      (\<lambda>k _. 0 < k) (\<lambda>_ _. 0) 255 5 = Some (1, m, servers) \<and>
    map snd servers = replicate 255 None \<and> (\<forall>a. is_address_set m a = Some (a = 0))"
  by (rule discovery_main_unheard) (simp_all add: v1.postcard_format_axioms)

end
