(* ===== verification/Discovery_Time.thy ===== *)
theory Discovery_Time
  imports Discovery_Main Rust_Std
begin

text \<open>
  The discovery example in time (\<open>data/examples/discovery/main.rs\<close>): the servers sleep 900
  milliseconds before they reply, the client listens for 1000 after each request. What is done between
  the two takes time as well, which arguments say. As long as that is less than the 100 milliseconds the
  windows differ by, every server is listening again before the next request and every reply is in the
  window of its own request, so that the program keeps to the rounds of \<open>Discovery_Protocol\<close>; the
  number of seconds it prints is then the time it took.
\<close>

section \<open>The program\<close>

definition CLIENT_TIME_WINDOW :: nat where "CLIENT_TIME_WINDOW = 1000 * MILLISECOND"

definition SERVER_REPLY_WINDOW :: nat where "SERVER_REPLY_WINDOW = 900 * MILLISECOND"

text \<open>
  The latencies of a run, by round and server: from the sending of a request to its handling by a
  server, from the end of the server's sleep to its reply, and from the end of the server's task to
  its next subscription; and how much later than it should the client's window closes in a round.
\<close>

record Latency =
  lat_handle :: "nat \<Rightarrow> nat \<Rightarrow> nat"
  lat_reply :: "nat \<Rightarrow> nat \<Rightarrow> nat"
  lat_listen :: "nat \<Rightarrow> nat \<Rightarrow> nat"
  lat_close :: "nat \<Rightarrow> nat"

text \<open>
  The servers in round \<open>k\<close>, whose request was sent at time \<open>sent\<close>, each with its frame counter, its
  address and the time from which it is listening; and their replies with the times of sending. A server
  that is not listening yet misses the request.
\<close>

fun timed_turn ::
    "'pe postcard \<Rightarrow> extend \<Rightarrow> aead \<Rightarrow> ('r \<Rightarrow> u32 \<times> 'r) \<Rightarrow> bytes \<Rightarrow> Latency \<Rightarrow> nat \<Rightarrow> nat \<Rightarrow> nat
      \<Rightarrow> (u16 \<times> u8 option \<times> nat) list \<Rightarrow> 'r \<Rightarrow> ((u16 \<times> u8 option \<times> nat) list \<times> (nat \<times> bytes) list \<times> 'r) exec" where
  "timed_turn pc ext cipher next_u32 datagram lat k sent i [] rng = Some ([], [], rng)"
| "timed_turn pc ext cipher next_u32 datagram lat k sent i ((fc, own_address, listens) # servers) rng = do {
     (server, replies, rng) \<leftarrow>
       (if listens \<le> sent then do {
          (own_address, reply, rng) \<leftarrow> discovery_server_task pc ext cipher next_u32 datagram fc own_address rng;
          let handled = sent + lat_handle lat k i;
              replied = handled + SERVER_REPLY_WINDOW + lat_reply lat k i
          in Some (case reply of
               Some d \<Rightarrow> ((fc + 1, own_address, replied + lat_listen lat k i), [(replied, d)], rng)
             | None \<Rightarrow> ((fc + 1, own_address, handled + lat_listen lat k i), [], rng))
        }
        else Some ((fc, own_address, listens), [], rng));
     (servers, replies', rng) \<leftarrow> timed_turn pc ext cipher next_u32 datagram lat k sent (Suc i) servers rng;
     Some (server # servers, replies @ replies', rng)
   }"

text \<open>
  Server \<open>i\<close> also receives \<open>overhears i\<close> replies of the others, one per run of its task, the last of
  them no later than \<open>last_reply\<close>. It ignores and counts them, and subscribes again.
\<close>

definition overhear ::
    "Latency \<Rightarrow> nat \<Rightarrow> (nat \<Rightarrow> u16) \<Rightarrow> nat \<Rightarrow> nat \<times> u16 \<times> u8 option \<times> nat \<Rightarrow> u16 \<times> u8 option \<times> nat" where
  "overhear lat k overhears last_reply = (\<lambda>(i, fc, own_address, listens).
     (fc + overhears i, own_address,
      if overhears i = 0 then listens else max listens (last_reply + lat_listen lat k i)))"

text \<open>
  The loop of \<open>main\<close> in round \<open>k\<close>, from the time \<open>sent\<close> of its request. \<open>flying\<close> are replies to earlier
  requests that were not sent yet when the window closed. The result has the time of the end first.
\<close>

partial_function (option) timed_loop ::
    "'pe postcard \<Rightarrow> extend \<Rightarrow> aead \<Rightarrow> ('r \<Rightarrow> u32 \<times> 'r) \<Rightarrow> Latency \<Rightarrow> (nat \<Rightarrow> nat \<Rightarrow> u16) \<Rightarrow> nat \<Rightarrow> nat
      \<Rightarrow> Identify \<Rightarrow> u16 \<Rightarrow> (u16 \<times> u8 option \<times> nat) list \<Rightarrow> (nat \<times> bytes) list \<Rightarrow> 'r
      \<Rightarrow> (nat \<times> u16 \<times> Identify \<times> (u16 \<times> u8 option \<times> nat) list) option" where
  "timed_loop pc ext cipher next_u32 lat overhears k sent identify fc servers flying rng =
     Option.bind (create_client_request pc ext cipher identify fc (replicate MIN_PACKET_SIZE 0)) (\<lambda>request.
     Option.bind (timed_turn pc ext cipher next_u32 request lat k sent 0 servers rng) (\<lambda>(servers, replies, rng).
     let close = sent + CLIENT_TIME_WINDOW + lat_close lat k;
         (inside, outside) = partition (\<lambda>(t, _). t < close) (flying @ replies);
         servers = map (overhear lat k (overhears k) (fold max (map fst replies) 0)) (enumerate 0 servers)
     in Option.bind (discovery_client_task pc ext cipher True (map snd (sort_key fst inside)) fc identify)
          (\<lambda>(finished, identify, _).
        if finished then (if fc = - 1 then None else Some (close, fc + 1, identify, servers))
        else timed_loop pc ext cipher next_u32 lat overhears (Suc k) close identify (fc + 1) servers outside rng)))"

text \<open>\<open>main\<close>, started at \<open>t0\<close>, with a server for each element of \<open>starts\<close>, the time of its first subscription.\<close>

definition timed_main ::
    "'pe postcard \<Rightarrow> extend \<Rightarrow> aead \<Rightarrow> ('r \<Rightarrow> u32 \<times> 'r) \<Rightarrow> Latency \<Rightarrow> (nat \<Rightarrow> nat \<Rightarrow> u16) \<Rightarrow> nat \<Rightarrow> nat list \<Rightarrow> 'r
      \<Rightarrow> (nat \<times> u16 \<times> Identify \<times> (u16 \<times> u8 option \<times> nat) list) option" where
  "timed_main pc ext cipher next_u32 lat overhears t0 starts rng = do {
     identify \<leftarrow> set_address \<lparr>addresses = replicate MIN_PAYLOAD_SIZE 0\<rparr> 0;
     timed_loop pc ext cipher next_u32 lat overhears 0 t0 identify 0 (map (\<lambda>t. (0, None, t)) starts) [] rng
   }"

section \<open>In time, it keeps to the rounds\<close>

definition punctual :: "Latency \<Rightarrow> bool" where
  "punctual lat \<longleftrightarrow> (\<forall>k i j. lat_handle lat k i + lat_reply lat k i + lat_listen lat k j < CLIENT_TIME_WINDOW - SERVER_REPLY_WINDOW)"

definition untimed :: "u16 \<times> u8 option \<times> nat \<Rightarrow> u16 \<times> u8 option" where
  "untimed = (\<lambda>(fc, own_address, _). (fc, own_address))"

definition listening :: "nat \<Rightarrow> (u16 \<times> u8 option \<times> nat) list \<Rightarrow> bool" where
  "listening t = list_all (\<lambda>(_, _, listens). listens \<le> t)"

lemma untimed_simp [simp]: "untimed (fc, own, t) = (fc, own)"
  by (simp add: untimed_def)

lemma listening_simps [simp]:
  "listening t []" "listening t ((fc, own, listens) # servers) \<longleftrightarrow> listens \<le> t \<and> listening t servers"
  by (simp_all add: listening_def)

lemma punctualD:
  assumes "punctual lat"
  shows "sent + lat_handle lat k i + SERVER_REPLY_WINDOW + lat_reply lat k i + lat_listen lat k j < sent + CLIENT_TIME_WINDOW"
    and "sent + lat_handle lat k i + lat_listen lat k j < sent + CLIENT_TIME_WINDOW"
proof -
  have "lat_handle lat k i + lat_reply lat k i + lat_listen lat k j < CLIENT_TIME_WINDOW - SERVER_REPLY_WINDOW"
    using assms by (simp add: punctual_def)
  then show "sent + lat_handle lat k i + SERVER_REPLY_WINDOW + lat_reply lat k i + lat_listen lat k j < sent + CLIENT_TIME_WINDOW"
    and "sent + lat_handle lat k i + lat_listen lat k j < sent + CLIENT_TIME_WINDOW"
    by linarith+
qed

text \<open>Servers that are all listening take the turn of the rounds, and what they do is over before the window.\<close>

lemma timed_turn_rounds:
  assumes "timed_turn pc ext c next_u32 d lat k sent i servers rng = Some (servers', replies, rng')"
    and "listening sent servers" and "punctual lat"
  shows "servers_turn pc ext c next_u32 d (map untimed servers) rng = Some (map untimed servers', map snd replies, rng') \<and>
    listening (sent + CLIENT_TIME_WINDOW) servers' \<and>
    (\<forall>(t, _) \<in> set replies. \<forall>j. t + lat_listen lat k j < sent + CLIENT_TIME_WINDOW)"
  using assms(1,2)
proof (induction servers arbitrary: i rng servers' replies)
  case (Cons server servers)
  obtain fc own listens where server: "server = (fc, own, listens)" by (cases server)
  then obtain own1 reply rng1 servers1 replies1 where
      task: "discovery_server_task pc ext c next_u32 d fc own rng = Some (own1, reply, rng1)"
    and rest: "timed_turn pc ext c next_u32 d lat k sent (Suc i) servers rng1 = Some (servers1, replies1, rng')"
    and result: "servers' = (fc + 1, own1, sent + lat_handle lat k i +
         (case reply of Some _ \<Rightarrow> SERVER_REPLY_WINDOW + lat_reply lat k i | None \<Rightarrow> 0) + lat_listen lat k i) # servers1"
      "replies = (case reply of Some d \<Rightarrow> [(sent + lat_handle lat k i + SERVER_REPLY_WINDOW + lat_reply lat k i, d)] | None \<Rightarrow> []) @ replies1"
    using Cons.prems by (auto simp: bind_eq_Some_conv Let_def add.assoc split: option.splits)
  note punct = punctualD [OF assms(3), of sent k i]
  show ?case
    using Cons.IH [OF rest] Cons.prems(2) task less_imp_le [OF punct(1) [of i]] less_imp_le [OF punct(2) [of i]] punct(1)
    by (cases reply) (auto simp: server result add.assoc)
qed simp

lemma timed_turn_total:
  assumes "servers_turn pc ext c next_u32 d (map untimed servers) rng = Some (servers0, replies0, rng')" and "listening sent servers"
  shows "\<exists>servers' replies. timed_turn pc ext c next_u32 d lat k sent i servers rng = Some (servers', replies, rng')"
  using assms
proof (induction servers arbitrary: i rng servers0 replies0)
  case (Cons server servers)
  obtain fc own listens where server: "server = (fc, own, listens)" by (cases server)
  then obtain own1 reply rng1 servers1 replies1 where
      task: "discovery_server_task pc ext c next_u32 d fc own rng = Some (own1, reply, rng1)"
    and rest: "servers_turn pc ext c next_u32 d (map untimed servers) rng1 = Some (servers1, replies1, rng')"
    using Cons.prems(1) by (auto simp: bind_eq_Some_conv)
  obtain servers' replies where "timed_turn pc ext c next_u32 d lat k sent (Suc i) servers rng1 = Some (servers', replies, rng')"
    using Cons.IH [OF rest, of "Suc i"] Cons.prems(2) server by auto
  then show ?case using task Cons.prems(2) by (cases reply) (auto simp: server Let_def)
qed simp

lemma overhear_rounds:
  fixes overhears :: "nat \<Rightarrow> u16" and i :: nat
  assumes "listening (sent + CLIENT_TIME_WINDOW) servers" and "\<forall>(t, _) \<in> set replies. \<forall>j. t + lat_listen lat k j < sent + CLIENT_TIME_WINDOW"
    and "punctual lat"
  defines "servers' \<equiv> map (overhear lat k overhears (fold max (map fst replies) 0)) (enumerate i servers)"
  shows "map (snd \<circ> untimed) servers' = map (snd \<circ> untimed) servers" and "listening (sent + CLIENT_TIME_WINDOW) servers'"
proof -
  have bound: "fold max ts t + lat_listen lat k j < sent + CLIENT_TIME_WINDOW"
    if "\<forall>t \<in> set ts. t + lat_listen lat k j < sent + CLIENT_TIME_WINDOW" "t + lat_listen lat k j < sent + CLIENT_TIME_WINDOW" for ts t j
    using that by (induction ts arbitrary: t) (auto simp: max_def)
  have "0 + lat_listen lat k j < sent + CLIENT_TIME_WINDOW" for j
    using punctualD(2) [OF assms(3), of sent k 0 j] by linarith
  moreover have "\<forall>t \<in> set (map fst replies). t + lat_listen lat k j < sent + CLIENT_TIME_WINDOW" for j
    using assms(2) by auto
  ultimately have last: "fold max (map fst replies) 0 + lat_listen lat k j \<le> sent + CLIENT_TIME_WINDOW" for j
    using bound less_imp_le by blast
  show "map (snd \<circ> untimed) servers' = map (snd \<circ> untimed) servers"
    unfolding servers'_def by (induction servers arbitrary: i) (auto simp: overhear_def)
  show "listening (sent + CLIENT_TIME_WINDOW) servers'"
    unfolding servers'_def using assms(1) last by (induction servers arbitrary: i) (auto simp: overhear_def)
qed

text \<open>One turn of the loop is a round.\<close>

lemma timed_round:
  fixes overhears :: "nat \<Rightarrow> u16"
  assumes "timed_turn pc ext c next_u32 request lat k sent 0 servers rng = Some (servers1, replies, rng1)"
    and "listening sent servers" and "punctual lat"
  defines "close \<equiv> sent + CLIENT_TIME_WINDOW + lat_close lat k"
    and "servers2 \<equiv> map (overhear lat k overhears (fold max (map fst replies) 0)) (enumerate 0 servers1)"
  shows "partition (\<lambda>(t, _). t < close) replies = (replies, [])" and "listening close servers2"
    and "length servers2 = length servers"
    and "create_client_request pc ext c m fc (replicate MIN_PACKET_SIZE 0) = Some request \<Longrightarrow>
      discovery_client_task pc ext c True (map snd (sort_key fst replies)) fc m = Some (finished, m1, s) \<Longrightarrow>
      discovery_round pc ext c next_u32 \<lparr>d_identify = m, d_counter = fc, d_servers = map untimed servers, d_finished = False\<rparr>
        \<lparr>d_identify = m1, d_counter = fc + 1, d_servers = map untimed servers2, d_finished = finished\<rparr>"
proof -
  from timed_turn_rounds [OF assms(1-3)] have
    turn: "servers_turn pc ext c next_u32 request (map untimed servers) rng = Some (map untimed servers1, map snd replies, rng1)"
    and listen: "listening (sent + CLIENT_TIME_WINDOW) servers1"
    and early: "\<forall>(t, _) \<in> set replies. \<forall>j. t + lat_listen lat k j < sent + CLIENT_TIME_WINDOW" by blast+
  note over = overhear_rounds [OF listen early assms(3), of overhears 0, folded servers2_def]
  have "\<forall>(t, _) \<in> set replies. t < close" using early by (fastforce simp: close_def)
  then show "partition (\<lambda>(t, _). t < close) replies = (replies, [])"
    by (auto simp: filter_id_conv filter_empty_conv)
  show "listening close servers2" using over(2) by (fastforce simp: close_def listening_def list_all_iff)
  show "length servers2 = length servers"
    using network_turn_length [of pc ext c next_u32 request "\<lambda>_. True" "\<lambda>_. 0" 0 "map untimed servers" rng]
      network_turn_hears [of "\<lambda>_. True" pc ext c next_u32 request "\<lambda>_. 0" 0 "map untimed servers" rng] turn
    by (simp add: servers2_def counted_def)
  have "map snd (map untimed servers2) = map snd (map untimed servers1)" using over(1) by simp
  moreover assume "create_client_request pc ext c m fc (replicate MIN_PACKET_SIZE 0) = Some request"
    and client: "discovery_client_task pc ext c True (map snd (sort_key fst replies)) fc m = Some (finished, m1, s)"
  moreover from this obtain found where "s = Some (request, found)" using client_task_request by blast
  ultimately show "discovery_round pc ext c next_u32 \<lparr>d_identify = m, d_counter = fc, d_servers = map untimed servers, d_finished = False\<rparr>
        \<lparr>d_identify = m1, d_counter = fc + 1, d_servers = map untimed servers2, d_finished = finished\<rparr>"
    using discovery_round.round [of "\<lparr>d_identify = m, d_counter = fc, d_servers = map untimed servers, d_finished = False\<rparr>"
        pc ext c "map snd (sort_key fst replies)" finished m1 request found next_u32 rng "map untimed servers1" "map snd replies" rng1
        "map untimed servers2"] turn
    by simp
qed

text \<open>The time that the rounds from \<open>k\<close> on take, \<open>n\<close> of them.\<close>

definition elapsed :: "Latency \<Rightarrow> nat \<Rightarrow> nat \<Rightarrow> nat" where
  "elapsed lat k n = sum_list (map (\<lambda>j. CLIENT_TIME_WINDOW + lat_close lat j) [k..<k + n])"

lemma elapsed_simps [simp]:
  "elapsed lat k 0 = 0" "elapsed lat k (Suc n) = CLIENT_TIME_WINDOW + lat_close lat k + elapsed lat (Suc k) n"
  by (simp_all add: elapsed_def upt_conv_Cons del: upt_Suc)

lemma timed_loop_refines:
  assumes "timed_loop pc ext c next_u32 lat overhears k sent m fc servers flying rng = Some res"
    and "flying = []" and "punctual lat" and "listening sent servers"
    and "reachable (discovery_init pc ext c) (discovery_round pc ext c next_u32)
      \<lparr>d_identify = m, d_counter = fc, d_servers = map untimed servers, d_finished = False\<rparr>"
  shows "\<exists>n j. reachable (discovery_init pc ext c) (discovery_round pc ext c next_u32)
      \<lparr>d_identify = fst (snd (snd res)), d_counter = n, d_servers = map untimed (snd (snd (snd res))), d_finished = True\<rparr> \<and>
      length (snd (snd (snd res))) = length servers \<and> fst res = sent + elapsed lat k j \<and> fst (snd res) = fc + of_nat j"
  using assms
proof (induction rule: timed_loop.raw_induct [rotated, consumes 1])
  case (1 loop pc ext c next_u32 lat overhears k sent m fc servers flying rng res)
  obtain request servers1 replies rng1 where
      request: "create_client_request pc ext c m fc (replicate MIN_PACKET_SIZE 0) = Some request"
    and turn: "timed_turn pc ext c next_u32 request lat k sent 0 servers rng = Some (servers1, replies, rng1)"
    using 1(2) by (auto simp: bind_eq_Some_conv)
  define close where "close = sent + CLIENT_TIME_WINDOW + lat_close lat k"
  define servers2 where "servers2 = map (overhear lat k (overhears k) (fold max (map fst replies) 0)) (enumerate 0 servers1)"
  note round = timed_round(1) [OF turn 1(5,4), folded close_def]
    timed_round(2-4) [OF turn 1(5,4), where overhears = "overhears k", folded close_def servers2_def]
  obtain finished m1 s where
      client: "discovery_client_task pc ext c True (map snd (sort_key fst replies)) fc m = Some (finished, m1, s)"
    and rest: "(if finished then (if fc = - 1 then None else Some (close, fc + 1, m1, servers2))
       else loop pc ext c next_u32 lat overhears (Suc k) close m1 (fc + 1) servers2 [] rng1) = Some res"
    using 1(2) request turn round(1) 1(3) unfolding close_def servers2_def
    by (auto simp: bind_eq_Some_conv Let_def simp del: partition_filter_conv)
  have reached: "reachable (discovery_init pc ext c) (discovery_round pc ext c next_u32)
      \<lparr>d_identify = m1, d_counter = fc + 1, d_servers = map untimed servers2, d_finished = finished\<rparr>"
    using reachable_step [OF 1(6) round(4) [OF request client]] .
  show ?case
  proof (cases finished)
    case True
    then show ?thesis
      using rest reached round(3) by (intro exI [of _ "fc + 1"] exI [of _ 1]) (auto simp: close_def split: if_splits)
  next
    case False
    then obtain n j where "reachable (discovery_init pc ext c) (discovery_round pc ext c next_u32)
      \<lparr>d_identify = fst (snd (snd res)), d_counter = n, d_servers = map untimed (snd (snd (snd res))), d_finished = True\<rparr>"
      "length (snd (snd (snd res))) = length servers2" "fst res = close + elapsed lat (Suc k) j"
      "fst (snd res) = fc + 1 + of_nat j"
      using 1(1) [of pc ext c next_u32 lat overhears "Suc k" close m1 "fc + 1" servers2 "[]" rng1 res] rest reached round(2) 1(4)
      by auto
    then show ?thesis
      using round(3) by (intro exI [of _ n] exI [of _ "Suc j"]) (simp add: close_def)
  qed
qed

section \<open>It can finish in a second\<close>

text \<open>Whether the client is finished does not depend on the order of the replies.\<close>

lemma client_finished_reordered:
  assumes "postcard_format pc" and "heapless_vec ext" and "aead_cipher c" and "identify_ok m"
    and "discovery_client_task pc ext c True replies fc m = Some (finished, m', sent)" and "mset replies' = mset replies"
  shows "\<exists>m' sent. discovery_client_task pc ext c True replies' fc m = Some (finished, m', sent)"
proof -
  obtain rs rs' where rs: "replies_read pc ext c replies rs" and rs': "replies_read pc ext c replies' rs'"
    using postcard_format.replies_read_total [OF assms(1-3)] by metis
  then have same: "mset rs' = mset rs" using heard_order assms(6) by blast
  have "finished \<longleftrightarrow> None \<notin> set rs \<and> (\<forall>a. count_list (heard rs) a \<le> 1)"
    by (rule postcard_format.client_task_result [OF assms(1-4) rs, where fc = fc]) (use assms(5) in simp)
  moreover have "\<exists>m' sent. discovery_client_task pc ext c True replies' fc m =
      Some (None \<notin> set rs' \<and> (\<forall>a. count_list (heard rs') a \<le> 1), m', sent)"
    by (rule postcard_format.client_task_result [OF assms(1-4) rs', where fc = fc]) blast
  ultimately show ?thesis using same count_heard [OF same] mset_eq_setD [OF same] by simp
qed

lemma servers_started:
  fixes starts :: "nat list"
  assumes "\<forall>t \<in> set starts. t \<le> t0"
  shows "map untimed (map (\<lambda>t. (0, None, t)) starts) = replicate (length starts) (0, None)"
    and "listening t0 (map (\<lambda>t. (0, None, t)) starts)"
  using assms by (simp_all add: comp_def map_replicate_const listening_def list_all_iff)

lemma timed_main_lucky:
  assumes "discovery_init pc ext c \<lparr>d_identify = m0, d_counter = 0, d_servers = replicate (length starts) (0, None), d_finished = False\<rparr>"
    and "\<forall>t \<in> set starts. t \<le> t0" and "punctual lat"
  shows "\<exists>rs m servers. timed_main pc ext c random_list lat overhears t0 starts rs =
    Some (t0 + CLIENT_TIME_WINDOW + lat_close lat 0, 1, m, servers)"
proof -
  let ?servers = "map (\<lambda>t. (0, None, t)) starts :: (u16 \<times> u8 option \<times> nat) list"
  have laws: "postcard_format pc" "heapless_vec ext" "aead_cipher c" "identify_ok m0"
    using addressing_init [OF assms(1)] by (simp_all add: addressing_def)
  note start = servers_started [OF assms(2)]
  obtain request rs servers0 replies0 m' found where
    request: "create_client_request pc ext c m0 0 (replicate MIN_PACKET_SIZE 0) = Some request"
    and turn0: "servers_turn pc ext c random_list request (map untimed ?servers) rs = Some (servers0, replies0, [])"
    and client0: "discovery_client_task pc ext c True replies0 0 m0 = Some (True, m', Some (request, found))"
    unfolding start(1) by (rule lucky_round [OF addressing_init [OF assms(1)], simplified]) blast
  obtain servers1 replies where
    turn: "timed_turn pc ext c random_list request lat 0 t0 0 ?servers rs = Some (servers1, replies, [])"
    using timed_turn_total [OF turn0 start(2)] by blast
  have "map snd replies = replies0" using timed_turn_rounds [OF turn start(2) assms(3)] turn0 by simp
  then have "mset (map snd (sort_key fst replies)) = mset replies0" by (metis mset_map mset_sort)
  then obtain m1 s where "discovery_client_task pc ext c True (map snd (sort_key fst replies)) 0 m0 = Some (True, m1, s)"
    using client_finished_reordered [OF laws client0] by blast
  then show ?thesis
    using request turn assms(1) timed_round(1) [OF turn start(2) assms(3)]
    by (intro exI [of _ rs])
       (simp add: timed_main_def discovery_init_def timed_loop.simps [of _ _ _ _ _ _ 0] Let_def del: partition_filter_conv)
qed

definition example_latency :: Latency where
  "example_latency = \<lparr>lat_handle = \<lambda>_ _. 20 * MILLISECOND, lat_reply = \<lambda>_ i. (i mod 30) * MILLISECOND,
     lat_listen = \<lambda>_ _. 40 * MILLISECOND, lat_close = \<lambda>_. MILLISECOND\<rparr>"

lemma example_punctual: "punctual example_latency"
proof -
  have "i mod 30 < 40" for i :: nat by (rule less_trans [of _ 30]) simp_all
  then show ?thesis
    by (simp add: punctual_def example_latency_def CLIENT_TIME_WINDOW_def SERVER_REPLY_WINDOW_def MILLISECOND_def)
qed

section \<open>Properties\<close>

text \<open>
  C17. The discovery example as a whole, in time, with at most 255 servers that subscribe before
  the first request. As long as handling a request, replying and subscribing again together take
  less than the 100 milliseconds by which the client's window is longer than the servers' sleep,
  the program refines the rounds of the protocol: there are random numbers with which it ends when
  its first window closes, and whenever it ends, whatever the random numbers, the order of the
  replies and what the servers overhear, all servers have an address each, none the reserved one
  or one of another, all marked in the client's bit field; and the seconds it prints are, modulo
  2^16, the number of windows that its run took.
\<close>

theorem discovery_in_time:
  assumes "postcard_format pc" and "heapless_vec ext" and "aead_cipher c" and "length starts \<le> 255"
    and "\<forall>t \<in> set starts. t \<le> t0" and "punctual lat"
  shows "(\<exists>rs m servers. timed_main pc ext c random_list lat overhears t0 starts rs =
      Some (t0 + CLIENT_TIME_WINDOW + lat_close lat 0, 1, m, servers)) \<and>
    (\<forall>rng end seconds m servers. timed_main pc ext c next_u32 lat overhears t0 starts rng = Some (end, seconds, m, servers) \<longrightarrow>
       length servers = length starts \<and> distinct (map (snd \<circ> untimed) servers) \<and>
       (\<forall>own \<in> set (map (snd \<circ> untimed) servers). \<exists>a. own = Some a \<and> a \<noteq> 0 \<and> is_address_set m a = Some True) \<and>
       (\<exists>n. seconds = of_nat n \<and> end = t0 + elapsed lat 0 n))"
proof -
  obtain m0 where m0: "set_address \<lparr>addresses = replicate MIN_PAYLOAD_SIZE 0\<rparr> 0 = Some m0" using first_identify by blast
  let ?s = "\<lparr>d_identify = m0, d_counter = 0, d_servers = replicate (length starts) (0, None), d_finished = False\<rparr>"
  let ?servers = "map (\<lambda>t. (0, None, t)) starts :: (u16 \<times> u8 option \<times> nat) list"
  have init: "discovery_init pc ext c ?s" using m0 assms by (simp add: discovery_init_def)
  note start = servers_started [OF assms(5)]
  have "length servers = length starts \<and> distinct (map (snd \<circ> untimed) servers) \<and>
       (\<forall>own \<in> set (map (snd \<circ> untimed) servers). \<exists>a. own = Some a \<and> a \<noteq> 0 \<and> is_address_set m a = Some True) \<and>
       (\<exists>n. seconds = of_nat n \<and> end = t0 + elapsed lat 0 n)"
    if main: "timed_main pc ext c next_u32 lat overhears t0 starts rng = Some (end, seconds, m, servers)" for rng "end" seconds m servers
  proof -
    have "timed_loop pc ext c next_u32 lat overhears 0 t0 m0 0 ?servers [] rng = Some (end, seconds, m, servers)"
      using main m0 by (simp add: timed_main_def)
    from timed_loop_refines [OF this refl assms(6) start(2)] start(1) reachable_init [of "discovery_init pc ext c", OF init]
    obtain k n where reached: "reachable (discovery_init pc ext c) (discovery_round pc ext c next_u32)
        \<lparr>d_identify = m, d_counter = k, d_servers = map untimed servers, d_finished = True\<rparr>"
      and rest: "length servers = length starts" "end = t0 + elapsed lat 0 n" "seconds = of_nat n"
      by fastforce
    from addressing_finished [OF addressing_rounds.invariant [OF reached]] rest show ?thesis by auto
  qed
  then show ?thesis using timed_main_lucky [OF init assms(5,6)] by blast
qed

theorem discovery_in_time_witness:
  "\<exists>rs m servers. timed_main postcard_v1 vec_extend (check_cipher [7]) random_list example_latency (\<lambda>_ _. 3) 5 (replicate 255 4) rs =
      Some (1001000005, 1, m, servers) \<and> length servers = 255 \<and> distinct (map (snd \<circ> untimed) servers)"
proof -
  have starts: "length (replicate 255 (4 :: nat)) \<le> 255" "\<forall>t \<in> set (replicate 255 (4 :: nat)). t \<le> 5" by simp_all
  note all = discovery_in_time [of postcard_v1 vec_extend "check_cipher [7]" "replicate 255 4" 5 example_latency
      "\<lambda>_ _. 3" random_list, OF v1.postcard_format_axioms heapless_vec_extend aead_check_cipher starts example_punctual]
  have close: "5 + CLIENT_TIME_WINDOW + lat_close example_latency 0 = 1001000005"
    by (simp add: CLIENT_TIME_WINDOW_def example_latency_def MILLISECOND_def)
  obtain rs m servers where main: "timed_main postcard_v1 vec_extend (check_cipher [7]) random_list example_latency
      (\<lambda>_ _. 3) 5 (replicate 255 4) rs = Some (1001000005, 1, m, servers)"
    using conjunct1 [OF all] unfolding close by (elim exE)
  from conjunct2 [OF all, rule_format, OF main] main
  show ?thesis by (intro exI [of _ rs] exI [of _ m] exI [of _ servers]) simp
qed

end
