(* ===== verification/Float64.thy ===== *)
theory Float64
  imports Complex_Main
begin

text \<open>
  The binary64 floating point numbers of Rust (\<open>f64\<close>) and the operations on them that the sources use:
  the conversion from \<open>i32\<close>, \<open>+\<close>, \<open>-\<close>, \<open>*\<close>, \<open>/\<close>, \<open>round\<close>, \<open>powi\<close> and the saturating cast to \<open>i32\<close>. A finite
  number is its sign and its magnitude; arithmetic is exact and then rounded to the nearest
  representable magnitude, ties to even, with gradual underflow and overflow to infinity.
\<close>

section \<open>Rounding\<close>

definition pow2 :: "int \<Rightarrow> rat" where
  "pow2 e = 2 powi e"

text \<open>The nearest integer, ties to even.\<close>

definition half_even :: "rat \<Rightarrow> int" where
  "half_even x =
     (let n = \<lfloor>x\<rfloor>; d = x - of_int n
      in if d < 1 / 2 then n else if d > 1 / 2 then n + 1 else if even n then n else n + 1)"

datatype f64 = NaN | Infinity bool | Finite bool rat

text \<open>
  A representable magnitude is \<open>m * 2 ^ e\<close> with \<open>m < 2 ^ 53\<close> and \<open>-1074 \<le> e \<le> 971\<close>. The exponent of a
  number is the least one whose range reaches it.
\<close>

definition MIN_EXPONENT :: int where "MIN_EXPONENT = - 1074"

definition MAX_EXPONENT :: int where "MAX_EXPONENT = 971"

definition f64_exponent :: "rat \<Rightarrow> int option" where
  "f64_exponent q = find (\<lambda>e. q < pow2 (e + 53)) [MIN_EXPONENT..MAX_EXPONENT]"

definition round_f64 :: "bool \<Rightarrow> rat \<Rightarrow> f64" where
  "round_f64 s q =
     (case f64_exponent q of
        None \<Rightarrow> Infinity s
      | Some e \<Rightarrow>
          let r = of_int (half_even (q / pow2 e)) * pow2 e
          in if r < pow2 1024 then Finite s r else Infinity s)"

section \<open>Operations\<close>

definition f64_of_i32 :: "int \<Rightarrow> f64" where
  "f64_of_i32 n = Finite (n < 0) \<bar>of_int n\<bar>"

fun f64_neg :: "f64 \<Rightarrow> f64" where
  "f64_neg NaN = NaN"
| "f64_neg (Infinity s) = Infinity (\<not> s)"
| "f64_neg (Finite s q) = Finite (\<not> s) q"

fun signed :: "bool \<Rightarrow> rat \<Rightarrow> rat" where
  "signed s q = (if s then - q else q)"

text \<open>The sum of two numbers of opposite sign and equal magnitude is a positive zero.\<close>

fun f64_add :: "f64 \<Rightarrow> f64 \<Rightarrow> f64" where
  "f64_add (Finite s a) (Finite t b) =
     (let x = signed s a + signed t b
      in if x = 0 then Finite (s \<and> t) 0 else round_f64 (x < 0) \<bar>x\<bar>)"
| "f64_add (Finite s a) (Infinity t) = Infinity t"
| "f64_add (Infinity s) (Finite t b) = Infinity s"
| "f64_add (Infinity s) (Infinity t) = (if s = t then Infinity s else NaN)"
| "f64_add _ _ = NaN"

definition f64_sub :: "f64 \<Rightarrow> f64 \<Rightarrow> f64" where
  "f64_sub x y = f64_add x (f64_neg y)"

fun f64_mul :: "f64 \<Rightarrow> f64 \<Rightarrow> f64" where
  "f64_mul (Finite s a) (Finite t b) = round_f64 (s \<noteq> t) (a * b)"
| "f64_mul (Finite s a) (Infinity t) = (if a = 0 then NaN else Infinity (s \<noteq> t))"
| "f64_mul (Infinity s) (Finite t b) = (if b = 0 then NaN else Infinity (s \<noteq> t))"
| "f64_mul (Infinity s) (Infinity t) = Infinity (s \<noteq> t)"
| "f64_mul _ _ = NaN"

fun f64_div :: "f64 \<Rightarrow> f64 \<Rightarrow> f64" where
  "f64_div (Finite s a) (Finite t b) =
     (if b = 0 then (if a = 0 then NaN else Infinity (s \<noteq> t)) else round_f64 (s \<noteq> t) (a / b))"
| "f64_div (Finite s a) (Infinity t) = Finite (s \<noteq> t) 0"
| "f64_div (Infinity s) (Finite t b) = Infinity (s \<noteq> t)"
| "f64_div _ _ = NaN"

text \<open>\<open>f64::round\<close>: the nearest integer, ties away from zero.\<close>

fun f64_round :: "f64 \<Rightarrow> f64" where
  "f64_round (Finite s q) = Finite s (of_int \<lfloor>q + 1 / 2\<rfloor>)"
| "f64_round x = x"

definition I32_MIN :: int where "I32_MIN = - (2 ^ 31)"

definition I32_MAX :: int where "I32_MAX = 2 ^ 31 - 1"

text \<open>\<open>x as i32\<close>: truncates, saturates, and takes a NaN to zero.\<close>

fun f64_as_i32 :: "f64 \<Rightarrow> int" where
  "f64_as_i32 NaN = 0"
| "f64_as_i32 (Infinity s) = (if s then I32_MIN else I32_MAX)"
| "f64_as_i32 (Finite s q) = max I32_MIN (min I32_MAX (if s then - \<lfloor>q\<rfloor> else \<lfloor>q\<rfloor>))"

text \<open>
  \<open>f64::powi\<close> has no fixed result: the order of its multiplications, and so of the roundings, is left
  open. \<open>powi_value x k r\<close> says that \<open>r\<close> is a product of \<open>k\<close> factors \<open>x\<close> in some order; an admissible
  \<open>powi\<close> returns such a value, \<open>1\<close> for the exponent \<open>0\<close>, and the reciprocal for a negative exponent.
\<close>

abbreviation f64_one :: f64 where "f64_one \<equiv> Finite False 1"

inductive powi_value :: "f64 \<Rightarrow> nat \<Rightarrow> f64 \<Rightarrow> bool" for x where
  factor: "powi_value x 1 x"
| product: "powi_value x j a \<Longrightarrow> powi_value x k b \<Longrightarrow> powi_value x (j + k) (f64_mul a b)"

definition powi_spec :: "(f64 \<Rightarrow> int \<Rightarrow> f64) \<Rightarrow> bool" where
  "powi_spec pw \<longleftrightarrow>
     (\<forall>x n. n = 0 \<longrightarrow> pw x n = f64_one) \<and>
     (\<forall>x n. n > 0 \<longrightarrow> powi_value x (nat n) (pw x n)) \<and>
     (\<forall>x n. n < 0 \<longrightarrow> (\<exists>r. powi_value x (nat (- n)) r \<and> pw x n = f64_div f64_one r))"

text \<open>One such function: multiply from left to right.\<close>

fun powi_product :: "f64 \<Rightarrow> nat \<Rightarrow> f64" where
  "powi_product x 0 = f64_one"
| "powi_product x (Suc 0) = x"
| "powi_product x (Suc (Suc k)) = f64_mul (powi_product x (Suc k)) x"

definition powi_left :: "f64 \<Rightarrow> int \<Rightarrow> f64" where
  "powi_left x n =
     (if n \<ge> 0 then powi_product x (nat n) else f64_div f64_one (powi_product x (nat (- n))))"

lemma powi_product_value: "0 < k \<Longrightarrow> powi_value x k (powi_product x k)"
proof (induction x k rule: powi_product.induct)
  case (3 x k)
  then have "powi_value x (Suc k + 1) (f64_mul (powi_product x (Suc k)) x)"
    by (intro product factor) simp
  then show ?case by simp
qed (auto intro: factor [simplified])

lemma powi_spec_left: "powi_spec powi_left"
proof -
  have "\<exists>r. powi_value x (nat (- n)) r \<and> f64_div f64_one (powi_product x (nat (- n))) = f64_div f64_one r"
    if "n < 0" for x n
    using powi_product_value [of "nat (- n)" x] that by auto
  then show ?thesis by (auto simp: powi_spec_def powi_left_def intro: powi_product_value)
qed

section \<open>The error of rounding\<close>

lemma pow2_pos [simp]: "0 < pow2 e" "0 \<le> pow2 e" "pow2 e \<noteq> 0"
  by (simp_all add: pow2_def)

lemma pow2_add: "pow2 (a + b) = pow2 a * pow2 b"
  by (simp add: pow2_def power_int_add)

lemma pow2_mono: "a \<le> b \<Longrightarrow> pow2 a \<le> pow2 b"
  by (simp add: pow2_def power_int_increasing)

lemma half_even_error: "\<bar>of_int (half_even x) - x\<bar> \<le> 1 / 2"
  using floor_correct [of x] by (auto simp: half_even_def Let_def abs_le_iff)

lemma half_even_of_int [simp]: "half_even (of_int k) = k"
  by (simp add: half_even_def)

lemma half_even_le: "x \<le> of_int k \<Longrightarrow> half_even x \<le> k"
proof -
  assume "x \<le> of_int k"
  then have "\<lfloor>x\<rfloor> \<le> k" and "x - of_int \<lfloor>x\<rfloor> \<ge> 1 / 2 \<Longrightarrow> \<lfloor>x\<rfloor> < k"
    by linarith+
  then show ?thesis by (auto simp: half_even_def Let_def)
qed

lemma half_even_ge: "of_int k \<le> x \<Longrightarrow> k \<le> half_even x"
  by (auto simp: half_even_def Let_def) linarith+

lemma f64_exponent_least:
  assumes "q < pow2 (k + 53)" and "MIN_EXPONENT \<le> k" and "k \<le> MAX_EXPONENT"
  obtains e where "f64_exponent q = Some e" "MIN_EXPONENT \<le> e" "e \<le> k"
proof -
  have "f64_exponent q \<noteq> None"
    using assms unfolding f64_exponent_def find_None_iff by auto
  then obtain e where e: "f64_exponent q = Some e" by blast
  then obtain i where i: "i < length [MIN_EXPONENT..MAX_EXPONENT]" "e = [MIN_EXPONENT..MAX_EXPONENT] ! i"
      "\<forall>j<i. \<not> q < pow2 ([MIN_EXPONENT..MAX_EXPONENT] ! j + 53)"
    unfolding f64_exponent_def find_Some_iff by blast
  then have eq: "e = MIN_EXPONENT + int i" by simp
  have "e \<le> k"
  proof (rule ccontr)
    assume "\<not> e \<le> k"
    then have "nat (k - MIN_EXPONENT) < i" using eq assms(2) by linarith
    moreover from this have "[MIN_EXPONENT..MAX_EXPONENT] ! nat (k - MIN_EXPONENT) = k" using i(1) assms(2) by simp
    ultimately show False using i(3) assms(1) by auto
  qed
  with e eq show ?thesis by (intro that) auto
qed

text \<open>
  Rounding keeps a magnitude below an integer bound, and moves it by at most half a unit of the last
  place: at most \<open>2 ^ (k - 1)\<close> when it is below \<open>2 ^ (k + 53)\<close>.
\<close>

lemma round_f64_bounds:
  assumes "0 \<le> q" and "q \<le> of_int b" and "q < pow2 (k + 53)" and "- 1074 \<le> k" and "k \<le> 0"
  obtains r where "round_f64 s q = Finite s r" "0 \<le> r" "r \<le> of_int b" "\<bar>r - q\<bar> \<le> pow2 (k - 1)"
proof -
  obtain e where e: "f64_exponent q = Some e" "e \<le> k"
    using f64_exponent_least [OF assms(3)] assms(4,5) by (auto simp: MIN_EXPONENT_def MAX_EXPONENT_def)
  let ?n = "half_even (q / pow2 e)"
  let ?r = "of_int ?n * pow2 e"
  obtain d where d: "int d = - e" using e(2) assms(5) by (metis order.trans neg_0_le_iff_le zero_le_imp_eq_int)
  have scale: "of_int b / pow2 e = of_int (b * 2 ^ d)"
  proof -
    have "e = - int d" using d by simp
    then show ?thesis by (simp add: pow2_def power_int_minus divide_inverse)
  qed
  have "q / pow2 e \<le> of_int (b * 2 ^ d)"
    unfolding scale [symmetric] using assms(2) by (simp add: divide_right_mono)
  then have "?n \<le> b * 2 ^ d" by (rule half_even_le)
  then have "?r \<le> of_int (b * 2 ^ d) * pow2 e"
    by (intro mult_right_mono) (simp_all only: of_int_le_iff pow2_pos)
  also have "\<dots> = of_int b" unfolding scale [symmetric] by simp
  finally have le: "?r \<le> of_int b" .
  have "0 \<le> ?n" using assms(1) by (intro half_even_ge) simp
  then have ge: "0 \<le> ?r" by simp
  have "?r - q = (of_int ?n - q / pow2 e) * pow2 e" by (simp add: left_diff_distrib)
  then have "\<bar>?r - q\<bar> = \<bar>of_int ?n - q / pow2 e\<bar> * pow2 e" by (simp only: abs_mult) simp
  also have "\<dots> \<le> 1 / 2 * pow2 e"
    by (intro mult_right_mono half_even_error) simp
  also have "\<dots> = pow2 (e - 1)"
    by (simp add: pow2_def power_int_diff)
  also have "\<dots> \<le> pow2 (k - 1)"
    using e(2) by (intro pow2_mono) simp
  finally have err: "\<bar>?r - q\<bar> \<le> pow2 (k - 1)" .
  have "pow2 (k - 1) \<le> 1" "pow2 (k + 53) \<le> pow2 53"
    using assms(5) pow2_mono [of "k - 1" 0] pow2_mono [of "k + 53" 53] by (simp_all add: pow2_def)
  then have "?r < pow2 53 + 1" using err assms(3) by linarith
  also have "\<dots> < pow2 1024" by (simp add: pow2_def)
  finally have "round_f64 s q = Finite s ?r" by (simp add: round_f64_def e(1))
  with le ge err show ?thesis by (intro that)
qed

text \<open>A representable magnitude is not changed.\<close>

lemma round_f64_exact:
  assumes "0 \<le> b" and "b < 2 ^ 53" and "- 1074 \<le> k" and "k \<le> 900"
  shows "round_f64 s (of_int b * pow2 k) = Finite s (of_int b * pow2 k)"
proof -
  let ?q = "of_int b * pow2 k"
  have "of_int b < pow2 53"
    using assms(2) by (simp add: pow2_def)
  then have lt: "?q < pow2 (k + 53)"
    by (simp add: pow2_add)
  then obtain e where e: "f64_exponent ?q = Some e" "e \<le> k"
    using f64_exponent_least [OF lt] assms(3,4) by (auto simp: MIN_EXPONENT_def MAX_EXPONENT_def)
  obtain d where "int d = k - e" using e(2) by (metis diff_ge_0_iff_ge zero_le_imp_eq_int)
  then have "k = int d + e" by simp
  then have "?q / pow2 e = of_int (b * 2 ^ d)"
    by (simp add: pow2_add) (simp add: pow2_def)
  then have "of_int (half_even (?q / pow2 e)) * pow2 e = ?q"
    by (metis half_even_of_int nonzero_eq_divide_eq pow2_pos(3))
  moreover have "?q < pow2 1024"
    using lt pow2_mono [of "k + 53" 1024] assms(4) by linarith
  ultimately show ?thesis by (simp add: round_f64_def e(1))
qed

lemma round_f64_of_int: "0 \<le> b \<Longrightarrow> b < 2 ^ 53 \<Longrightarrow> round_f64 s (of_int b) = Finite s (of_int b)"
  using round_f64_exact [of b 0 s] by (simp add: pow2_def)

lemma round_f64_half: "round_f64 s (1 / 2) = Finite s (1 / 2)"
  using round_f64_exact [of 1 "- 1" s] by (simp add: pow2_def)

lemmas round_f64_numerals [simp] =
  round_f64_of_int [of 0, simplified] round_f64_of_int [of 1, simplified] round_f64_half

text \<open>One factor is no product: a power with exponent one is the number itself.\<close>

lemma powi_value_pos: "powi_value x k r \<Longrightarrow> 0 < k"
  by (induction rule: powi_value.induct) auto

lemma powi_value_1: "powi_value x (Suc 0) r \<Longrightarrow> r = x"
  by (cases rule: powi_value.cases) (fastforce dest: powi_value_pos)+

lemma powi_value_0:
  "powi_value x k r \<Longrightarrow> x = Finite False 0 \<Longrightarrow> r = Finite False 0"
  by (induction rule: powi_value.induct) auto

lemma powi_spec_simps:
  assumes "powi_spec pw"
  shows "pw x 0 = f64_one" and "pw x 1 = x" and "0 < k \<Longrightarrow> pw (Finite False 0) k = Finite False 0"
proof -
  show "pw x 0 = f64_one" using assms by (simp add: powi_spec_def)
  have "powi_value y (nat n) (pw y n)" if "0 < n" for y n
    using assms that by (simp add: powi_spec_def)
  from this [of 1 x] this [of k "Finite False 0"]
  show "pw x 1 = x" and "0 < k \<Longrightarrow> pw (Finite False 0) k = Finite False 0"
    by (auto dest: powi_value_1 powi_value_0)
qed

end
