(* ===== verification/Discovery_Analysis.thy ===== *)
theory Discovery_Analysis
  imports Float64 Rust_Std
begin

text \<open>
  The simulation of discovery rounds (\<open>data/examples/discovery_analysis/main.rs\<close>): how many rounds it
  takes until every station has an address, when the stations answer in random time slots and pick
  random addresses. An \<open>i32\<close> is an \<open>int\<close> whose arithmetic panics on overflow, as it does in the build
  profile that examples run in. What is printed is a list of lines, with the floating point numbers of
  a line before they are formatted. \<open>pw\<close> is \<open>f64::powi\<close>.
\<close>

section \<open>The program\<close>

datatype printed = Usage string | Separator | Round int | Stats int int f64 f64

definition i32 :: "int \<Rightarrow> int exec" where
  "i32 x = (if I32_MIN \<le> x \<and> x \<le> I32_MAX then Some x else None)"

definition p_bar_step :: "int \<Rightarrow> f64 \<Rightarrow> int \<Rightarrow> f64" where
  "p_bar_step m p_bar i = f64_mul p_bar (f64_sub f64_one (f64_div (f64_of_i32 i) (f64_of_i32 m)))"

definition round_of :: "(f64 \<Rightarrow> int \<Rightarrow> f64) \<Rightarrow> int \<Rightarrow> int \<Rightarrow> (printed \<times> int) exec" where
  "round_of pw n m = (
     let p_bar = foldl (p_bar_step m) f64_one [1..n - 1];
         p = f64_sub f64_one p_bar
     in do {
       k \<leftarrow> i32 (n - 1);
       let e = f64_mul (f64_of_i32 n) (pw (f64_sub f64_one (f64_div f64_one (f64_of_i32 m))) k)
       in Some (Stats n m p e, f64_as_i32 (f64_round e))
     })"

text \<open>The loop may run forever, or until the round counter overflows; both are \<open>None\<close>.\<close>

partial_function (option) simulate_loop ::
    "(f64 \<Rightarrow> int \<Rightarrow> f64) \<Rightarrow> int \<Rightarrow> int \<Rightarrow> int \<Rightarrow> int \<Rightarrow> printed list \<Rightarrow> (int \<times> printed list) option" where
  "simulate_loop pw i stations slots addresses out =
     (if stations > 0 then
        Option.bind (round_of pw stations slots) (\<lambda>(l1, received).
        Option.bind (round_of pw received addresses) (\<lambda>(l2, assigned).
        Option.bind (i32 (stations - assigned)) (\<lambda>stations.
        Option.bind (i32 (addresses - assigned)) (\<lambda>addresses.
        Option.bind (i32 (i + 1)) (\<lambda>i'.
          simulate_loop pw i' stations slots addresses (out @ [Separator, Round i, l1, l2]))))))
      else Option.bind (i32 (i - 1)) (\<lambda>r. Some (r, out)))"

definition simulate :: "(f64 \<Rightarrow> int \<Rightarrow> f64) \<Rightarrow> int \<Rightarrow> int \<Rightarrow> int \<Rightarrow> (int \<times> printed list) option" where
  "simulate pw stations slots addresses = simulate_loop pw 1 stations slots addresses []"

definition analysis_help :: "string \<Rightarrow> int \<times> printed list" where
  "analysis_help name = (0, [Usage name])"

text \<open>\<open>i32::from_str\<close>: an optional sign, then one or more digits whose value is in range.\<close>

fun digits_value :: "nat \<Rightarrow> string \<Rightarrow> nat option" where
  "digits_value acc [] = Some acc"
| "digits_value acc (c # cs) =
     (case dec_digit c of None \<Rightarrow> None | Some d \<Rightarrow> digits_value (acc * 10 + d) cs)"

definition parse_i32 :: "string \<Rightarrow> int option" where
  "parse_i32 s =
     (case s of
        [] \<Rightarrow> None
      | c # cs \<Rightarrow>
          let (negative, ds) = (if c = CHR ''-'' then (True, cs) else if c = CHR ''+'' then (False, cs) else (False, s))
          in if ds = [] then None
             else do {
               v \<leftarrow> digits_value 0 ds;
               i32 (if negative then - int v else int v)
             })"

definition analysis_main :: "(f64 \<Rightarrow> int \<Rightarrow> f64) \<Rightarrow> string list \<Rightarrow> printed list exec" where
  "analysis_main pw args = do {
     (_, out) \<leftarrow>
       (if length args = 1 then simulate pw 128 400 255
        else if length args = 2 \<and> args ! 1 = ''--help'' then Some (analysis_help (args ! 0))
        else if length args = 2 then do {
          stations \<leftarrow> parse_i32 (args ! 1);
          simulate pw stations 400 255
        }
        else if length args = 3 then do {
          stations \<leftarrow> parse_i32 (args ! 1);
          slots \<leftarrow> parse_i32 (args ! 2);
          simulate pw stations slots 255
        }
        else if length args = 4 then do {
          stations \<leftarrow> parse_i32 (args ! 1);
          slots \<leftarrow> parse_i32 (args ! 2);
          addresses \<leftarrow> parse_i32 (args ! 3);
          simulate pw stations slots addresses
        }
        else do {
          name \<leftarrow> index args 0;
          Some (analysis_help name)
        });
     Some out
   }"

section \<open>Arithmetic between zero and one\<close>

abbreviation ulp :: rat where "ulp \<equiv> pow2 (- 53)"

lemma round_unit:
  assumes "0 \<le> q" and "q \<le> 1"
  obtains r where "round_f64 s q = Finite s r" "0 \<le> r" "r \<le> 1" "\<bar>r - q\<bar> \<le> ulp"
proof -
  have "q < pow2 (- 52 + 53)" using assms(2) by (simp add: pow2_def)
  then show ?thesis
    using round_f64_bounds [of q 1 "- 52" s] assms that by auto
qed

lemma unit_recip:
  assumes "1 \<le> m"
  obtains q where "f64_div f64_one (f64_of_i32 m) = Finite False q" "0 \<le> q" "q \<le> 1"
    "\<bar>q - 1 / of_int m\<bar> \<le> ulp"
proof -
  have "0 \<le> 1 / (of_int m :: rat)" "1 / (of_int m :: rat) \<le> 1" using assms by simp_all
  then obtain r where "round_f64 False (1 / of_int m) = Finite False r" "0 \<le> r" "r \<le> 1"
      "\<bar>r - 1 / of_int m\<bar> \<le> ulp"
    by (rule round_unit)
  with assms show ?thesis by (intro that) (simp_all add: f64_of_i32_def)
qed

lemma unit_complement:
  assumes "0 \<le> q" and "q \<le> 1"
  obtains r where "f64_sub f64_one (Finite False q) = Finite False r" "0 \<le> r" "r \<le> 1"
    "\<bar>r - (1 - q)\<bar> \<le> ulp"
proof (cases "q = 1")
  case True
  then show ?thesis by (intro that [of 0]) (simp_all add: f64_sub_def)
next
  case False
  obtain r where "round_f64 False (1 - q) = Finite False r" "0 \<le> r" "r \<le> 1" "\<bar>r - (1 - q)\<bar> \<le> ulp"
    using round_unit [of "1 - q"] assms by auto
  with False assms(2) show ?thesis by (intro that) (simp_all add: f64_sub_def Let_def)
qed

lemma unit_mul:
  assumes "0 \<le> a" "a \<le> 1" "0 \<le> b" "b \<le> 1"
  obtains r where "f64_mul (Finite False a) (Finite False b) = Finite False r" "0 \<le> r" "r \<le> 1"
    "\<bar>r - a * b\<bar> \<le> ulp"
  using round_unit [of "a * b" False] assms by (auto simp: mult_le_one)

text \<open>
  A product of numbers close to one loses at most the sum of what its factors lack, and one rounding
  error for each multiplication.
\<close>

lemma powi_value_unit:
  assumes "powi_value (Finite False a) k x" and "0 \<le> a" "a \<le> 1" and "1 - d \<le> a"
  shows "\<exists>r. x = Finite False r \<and> 0 \<le> r \<and> r \<le> 1 \<and> 1 + ulp - of_nat k * (d + ulp) \<le> r"
  using assms(1)
proof induction
  case factor
  then show ?case using assms(2-4) by simp
next
  case (product j x k y)
  then obtain b c where b: "x = Finite False b" "0 \<le> b" "b \<le> 1" "1 + ulp - of_nat j * (d + ulp) \<le> b"
    and c: "y = Finite False c" "0 \<le> c" "c \<le> 1" "1 + ulp - of_nat k * (d + ulp) \<le> c"
    by blast
  from b(2,3) c(2,3) obtain r where r: "f64_mul (Finite False b) (Finite False c) = Finite False r"
      "0 \<le> r" "r \<le> 1" "\<bar>r - b * c\<bar> \<le> ulp"
    by (rule unit_mul)
  have "0 \<le> (1 - b) * (1 - c)" using b(3) c(3) by simp
  then have "b + c - 1 \<le> b * c" by (simp add: algebra_simps)
  moreover have "1 + ulp - of_nat (j + k) * (d + ulp) =
      (1 + ulp - of_nat j * (d + ulp)) + (1 + ulp - of_nat k * (d + ulp)) - 1 - ulp"
    by (simp add: algebra_simps)
  ultimately have "1 + ulp - of_nat (j + k) * (d + ulp) \<le> r"
    using b(4) c(4) r(4) by linarith
  with b(1) c(1) r show ?case by auto
qed

lemma powi_unit:
  assumes "powi_spec pw" and "0 \<le> a" "a \<le> 1" and "1 - d \<le> a" and "0 \<le> k"
  obtains r where "pw (Finite False a) k = Finite False r" "0 \<le> r" "r \<le> 1"
    "1 - of_int k * (d + ulp) \<le> r"
proof (cases "k = 0")
  case True
  then show ?thesis using assms(1) by (intro that [of 1]) (simp_all add: powi_spec_def)
next
  case False
  with assms(1,5) have "powi_value (Finite False a) (nat k) (pw (Finite False a) k)"
    by (simp add: powi_spec_def)
  from powi_value_unit [OF this assms(2-4)] obtain r where
    r: "pw (Finite False a) k = Finite False r" "0 \<le> r" "r \<le> 1" "1 + ulp - of_int k * (d + ulp) \<le> r"
    using assms(5) by auto
  have "1 - of_int k * (d + ulp) \<le> r" using r(4) pow2_pos(2) [of "- 53"] by linarith
  with r show ?thesis by (intro that)
qed

text \<open>The chance that a given other station does not disturb: close to \<open>1 - 1 / m\<close>.\<close>

lemma undisturbed:
  assumes "1 \<le> m"
  obtains a where "f64_sub f64_one (f64_div f64_one (f64_of_i32 m)) = Finite False a" "0 \<le> a" "a \<le> 1"
    "1 - (1 / of_int m + 2 * ulp) \<le> a"
proof -
  obtain q where q: "f64_div f64_one (f64_of_i32 m) = Finite False q" "0 \<le> q" "q \<le> 1"
      "\<bar>q - 1 / of_int m\<bar> \<le> ulp"
    using assms by (rule unit_recip)
  obtain a where a: "f64_sub f64_one (Finite False q) = Finite False a" "0 \<le> a" "a \<le> 1"
      "\<bar>a - (1 - q)\<bar> \<le> ulp"
    using q(2,3) by (rule unit_complement)
  have "1 - (1 / of_int m + 2 * ulp) \<le> a" using q(4) a(4) by linarith
  with q(1) a show ?thesis by (intro that [of a]) simp_all
qed

section \<open>The expected number of successes\<close>

lemma i32_ok [simp]: "I32_MIN \<le> x \<Longrightarrow> x \<le> I32_MAX \<Longrightarrow> i32 x = Some x"
  by (simp add: i32_def)

lemma round_and_cast:
  assumes "0 \<le> r" and "r \<le> of_int n" and "n \<le> I32_MAX"
  shows "f64_as_i32 (f64_round (Finite False r)) = \<lfloor>r + 1 / 2\<rfloor>" and "\<lfloor>r + 1 / 2\<rfloor> \<le> n"
proof -
  show le: "\<lfloor>r + 1 / 2\<rfloor> \<le> n" using assms(2) by linarith
  have "0 \<le> \<lfloor>r + 1 / 2\<rfloor>" using assms(1) by linarith
  with le assms(3) show "f64_as_i32 (f64_round (Finite False r)) = \<lfloor>r + 1 / 2\<rfloor>"
    by (simp add: I32_MIN_def)
qed

lemma round_of_result:
  assumes "powi_spec pw" and "1 \<le> n" "n \<le> I32_MAX" and "1 \<le> m"
  obtains l r where "round_of pw n m = Some (l, \<lfloor>r + 1 / 2\<rfloor>)" "0 \<le> r" "r \<le> of_int n"
    "of_int n * (1 - of_int (n - 1) * (1 / of_int m + 3 * ulp)) - pow2 (- 22) \<le> r"
proof -
  obtain a where a: "f64_sub f64_one (f64_div f64_one (f64_of_i32 m)) = Finite False a" "0 \<le> a" "a \<le> 1"
      "1 - (1 / of_int m + 2 * ulp) \<le> a"
    using assms(4) by (rule undisturbed)
  obtain p where p: "pw (Finite False a) (n - 1) = Finite False p" "0 \<le> p" "p \<le> 1"
      "1 - of_int (n - 1) * (1 / of_int m + 2 * ulp + ulp) \<le> p"
    using powi_unit [OF assms(1) a(2-4), of "n - 1"] assms(2) by auto
  have "of_int n * p \<le> of_int n" using p assms(2) by (simp add: mult_left_le)
  moreover from this have "of_int n * p < pow2 (- 21 + 53)"
    using assms(3) by (simp add: pow2_def I32_MAX_def)
  ultimately obtain r where r: "round_f64 False (of_int n * p) = Finite False r" "0 \<le> r" "r \<le> of_int n"
      "\<bar>r - of_int n * p\<bar> \<le> pow2 (- 21 - 1)"
    using round_f64_bounds [of "of_int n * p" n "- 21" False] p(2) assms(2) by auto
  have "of_int n * (1 - of_int (n - 1) * (1 / of_int m + 3 * ulp)) \<le> of_int n * p"
    using p(4) assms(2) by (intro mult_left_mono) (simp_all add: algebra_simps)
  moreover have "pow2 (- 21 - 1) = pow2 (- 22)" by simp
  ultimately have "of_int n * (1 - of_int (n - 1) * (1 / of_int m + 3 * ulp)) - pow2 (- 22) \<le> r"
    using r(4) by linarith
  moreover have "f64_of_i32 n = Finite False (of_int n)" using assms(2) by (simp add: f64_of_i32_def)
  then have "\<exists>l. round_of pw n m = Some (l, \<lfloor>r + 1 / 2\<rfloor>)"
    using a(1) p(1) r(1) assms(2,3) round_and_cast(1) [OF r(2,3)]
    by (simp add: round_of_def Let_def I32_MIN_def)
  ultimately show ?thesis using r(2,3) that by blast
qed

lemma floor_halves [simp]: "\<lfloor>1 / 2 :: rat\<rfloor> = 0" "\<lfloor>3 / 2 :: rat\<rfloor> = 1"
  by (simp_all add: floor_eq_iff)

lemma f64_zero_mul: "f64_as_i32 (f64_round (f64_mul (Finite False 0) x)) = 0"
  by (cases x) (simp_all add: I32_MIN_def I32_MAX_def)

lemma round_of_0: "\<exists>l. round_of pw 0 m = Some (l, 0)"
  by (simp add: round_of_def Let_def f64_of_i32_def f64_zero_mul I32_MIN_def I32_MAX_def)

text \<open>A single station always succeeds, whatever the number of slots, even with none.\<close>

lemma round_of_1: "powi_spec pw \<Longrightarrow> \<exists>l. round_of pw 1 m = Some (l, 1)"
  by (simp add: round_of_def Let_def f64_of_i32_def powi_spec_simps I32_MIN_def I32_MAX_def)

lemma round_of_bounds:
  assumes "powi_spec pw" and "0 \<le> n" "n \<le> I32_MAX" and "1 \<le> m"
  obtains l r where "round_of pw n m = Some (l, r)" "0 \<le> r" "r \<le> n"
proof (cases "n = 0")
  case True
  with round_of_0 [of pw m] that show ?thesis by auto
next
  case False
  with assms(2) have "1 \<le> n" by simp
  then obtain l and r :: rat where
    "round_of pw n m = Some (l, \<lfloor>r + 1 / 2\<rfloor>)" "0 \<le> r" "r \<le> of_int n"
    using round_of_result [OF assms(1) _ assms(3,4)] by blast
  with assms(3) round_and_cast(2) [of r n] show ?thesis by (intro that) auto
qed

text \<open>
  With at most half as many others as there are slots, at least one station is expected to succeed.
\<close>

lemma half_free:
  assumes "1 \<le> n" "n \<le> I32_MAX" and "1 \<le> m" and "2 * (n - 1) \<le> m"
  shows "(1 :: rat) / 2 \<le> of_int n * (1 - of_int (n - 1) * (1 / of_int m + 3 * ulp)) - pow2 (- 22)"
proof -
  let ?k = "of_int (n - 1) :: rat" and ?p = "1 - of_int (n - 1) * (1 / of_int m + 3 * ulp)"
  have "?k / of_int m \<le> 1 / 2"
    using assms(3,4) by (simp add: divide_le_eq)
  moreover have "?k \<le> 2 ^ 31"
    using assms(2) by (simp add: I32_MAX_def)
  then have "?k * (3 * ulp) \<le> 2 ^ 31 * (3 * ulp)" by (rule mult_right_mono) simp
  moreover have "?p = 1 - (?k / of_int m + ?k * (3 * ulp))" by (simp add: distrib_left)
  ultimately have p: "1 - (1 / 2 + 2 ^ 31 * (3 * ulp)) \<le> ?p" by linarith
  show ?thesis
  proof (cases "n = 1")
    case True
    then show ?thesis by (simp add: pow2_def)
  next
    case False
    with assms(1) have "(2 :: rat) \<le> of_int n" by simp
    then have "2 * (1 - (1 / 2 + 2 ^ 31 * (3 * ulp))) \<le> of_int n * ?p"
      using p by (intro mult_mono) (simp_all add: pow2_def)
    moreover have "(1 :: rat) / 2 \<le> 2 * (1 - (1 / 2 + 2 ^ 31 * (3 * ulp))) - pow2 (- 22)"
      by (simp add: pow2_def)
    ultimately show ?thesis by linarith
  qed
qed

lemma round_of_progress:
  assumes "powi_spec pw" and "1 \<le> n" "n \<le> I32_MAX" and "1 \<le> m" and "2 * (n - 1) \<le> m"
  obtains l r where "round_of pw n m = Some (l, r)" "1 \<le> r" "r \<le> n"
proof -
  obtain l r where r: "round_of pw n m = Some (l, \<lfloor>r + 1 / 2\<rfloor>)" "0 \<le> r" "r \<le> of_int n"
      "of_int n * (1 - of_int (n - 1) * (1 / of_int m + 3 * ulp)) - pow2 (- 22) \<le> r"
    using assms(1-4) by (rule round_of_result)
  have "1 / 2 \<le> r" using half_free [OF assms(2-5)] r(4) by linarith
  then have "1 \<le> \<lfloor>r + 1 / 2\<rfloor>" by linarith
  with r round_and_cast(2) [OF r(2,3) assms(3)] show ?thesis by (intro that) auto
qed

section \<open>The rounds\<close>

lemma simulate_step:
  assumes "0 < s" and "round_of pw s slots = Some (l1, r)" and "round_of pw r a = Some (l2, g)"
    and "I32_MIN \<le> s - g" "s - g \<le> I32_MAX" "I32_MIN \<le> a - g" "a - g \<le> I32_MAX"
  shows "simulate_loop pw i s slots a out =
    Option.bind (i32 (i + 1)) (\<lambda>i'. simulate_loop pw i' (s - g) slots (a - g) (out @ [Separator, Round i, l1, l2]))"
  using assms by (subst simulate_loop.simps) simp

lemma simulate_loop_ends:
  assumes "powi_spec pw" and "1 \<le> slots" "slots \<le> I32_MAX" and "2 * (s - 1) \<le> slots"
  shows "0 \<le> s \<Longrightarrow> 1 \<le> i \<Longrightarrow> i + s \<le> I32_MAX \<Longrightarrow> 0 < s \<longrightarrow> 1 \<le> a \<Longrightarrow> a \<le> I32_MAX \<Longrightarrow> I32_MIN \<le> a \<Longrightarrow>
    2 * (s - 1) \<le> a \<Longrightarrow>
    \<exists>k out'. simulate_loop pw i s slots a out = Some (i - 1 + k, out') \<and> 0 \<le> k \<and> k \<le> s \<and> (0 < s \<longrightarrow> 1 \<le> k)"
  using assms(4)
proof (induction "nat s" arbitrary: s i a out rule: less_induct)
  case less
  show ?case
  proof (cases "s = 0")
    case True
    with less.prems show ?thesis by (simp add: simulate_loop.simps I32_MIN_def)
  next
    case False
    with less.prems have s: "1 \<le> s" "s \<le> I32_MAX" by auto
    obtain l1 r where r: "round_of pw s slots = Some (l1, r)" "1 \<le> r" "r \<le> s"
      using round_of_progress [OF assms(1) s assms(2)] less.prems by blast
    moreover have "r \<le> I32_MAX" "2 * (r - 1) \<le> a" "1 \<le> a" using r(3) s less.prems by auto
    ultimately obtain l2 g where g: "round_of pw r a = Some (l2, g)" "1 \<le> g" "g \<le> r"
      using round_of_progress [OF assms(1)] by metis
    let ?out = "out @ [Separator, Round i, l1, l2]"
    have "simulate_loop pw i s slots a out = simulate_loop pw (i + 1) (s - g) slots (a - g) ?out"
      using simulate_step [OF _ r(1) g(1), of i out] s g(2,3) r(3) less.prems
      by (simp add: I32_MIN_def I32_MAX_def)
    moreover have "\<exists>k out'. simulate_loop pw (i + 1) (s - g) slots (a - g) ?out = Some (i + 1 - 1 + k, out') \<and>
        0 \<le> k \<and> k \<le> s - g \<and> (0 < s - g \<longrightarrow> 1 \<le> k)"
      using g(2,3) r(3) s less.prems by (intro less.hyps) (auto simp: I32_MIN_def)
    ultimately obtain k out' where "simulate_loop pw i s slots a out = Some (i - 1 + (k + 1), out')"
        "0 \<le> k" "k \<le> s - g"
      by auto
    then show ?thesis using g(2) by (intro exI [of _ "k + 1"] exI [of _ out']) simp
  qed
qed

text \<open>A round in which no address is assigned leaves everything as it was, and is repeated.\<close>

lemma simulate_loop_stuck:
  assumes "0 < s" "s \<le> I32_MAX" and "I32_MIN \<le> a" "a \<le> I32_MAX"
    and "round_of pw s slots = Some (l1, r)" and "round_of pw r a = Some (l2, 0)"
  shows "simulate_loop pw i s slots a out = None"
proof (induction "nat (I32_MAX - i)" arbitrary: i out rule: less_induct)
  case less
  have step: "simulate_loop pw i s slots a out =
      Option.bind (i32 (i + 1)) (\<lambda>i'. simulate_loop pw i' s slots a (out @ [Separator, Round i, l1, l2]))"
    using simulate_step [OF assms(1,5,6), of i out] assms by (simp add: I32_MIN_def)
  show ?case
  proof (cases "i < I32_MAX")
    case True
    then show ?thesis using less [of "i + 1"] by (simp add: step i32_def)
  next
    case False
    then show ?thesis by (simp add: step i32_def)
  qed
qed

section \<open>Properties\<close>

text \<open>
  A round never has more successes than stations, and at least one when there are enough slots.
\<close>

lemma round_never_exceeds:
  assumes "powi_spec pw" and "0 \<le> n" "n \<le> I32_MAX" and "1 \<le> m"
  shows "\<exists>l r. round_of pw n m = Some (l, r) \<and> 0 \<le> r \<and> r \<le> n \<and> (1 \<le> n \<and> 2 * (n - 1) \<le> m \<longrightarrow> 1 \<le> r)"
  using round_of_bounds [OF assms] round_of_progress [OF assms(1) _ assms(3,4)]
  by (metis Pair_inject option.inject)

lemma round_never_exceeds_witness:
  "\<exists>l r. round_of powi_left 128 400 = Some (l, r) \<and> 0 \<le> r \<and> r \<le> 128 \<and>
     (1 \<le> (128 :: int) \<and> 2 * (128 - 1) \<le> (400 :: int) \<longrightarrow> 1 \<le> r)"
  by (rule round_never_exceeds) (simp_all add: powi_spec_left I32_MAX_def)

text \<open>
  C32. The simulation of discovery returns, after at most as many rounds as there are stations,
  when there are at least twice as many slots and addresses as stations (less one each): every
  round then assigns an address at least to one station.
\<close>

theorem simulate_ends:
  assumes "powi_spec pw" and "1 \<le> stations"
    and "1 \<le> slots" "slots \<le> I32_MAX" and "1 \<le> addresses" "addresses \<le> I32_MAX"
    and "2 * (stations - 1) \<le> slots" and "2 * (stations - 1) \<le> addresses"
  shows "\<exists>rounds out. simulate pw stations slots addresses = Some (rounds, out) \<and>
    1 \<le> rounds \<and> rounds \<le> stations"
proof -
  have "1 + stations \<le> I32_MAX" using assms(4,7) by (simp add: I32_MAX_def)
  then show ?thesis
    using simulate_loop_ends [OF assms(1,3,4,7), of 1 addresses "[]"] assms
    by (auto simp: simulate_def I32_MIN_def)
qed

theorem simulate_ends_witness:
  "\<exists>rounds out. simulate powi_left 128 400 255 = Some (rounds, out) \<and> 1 \<le> rounds \<and> rounds \<le> 128"
  by (rule simulate_ends) (simp_all add: powi_spec_left I32_MAX_def)

text \<open>
  With one slot and two or more stations the simulation never returns: the expected number of
  successes is none in every round, and the loop goes on until the round counter overflows.
\<close>

lemma simulate_one_slot_never_ends:
  assumes "powi_spec pw" and "2 \<le> stations" "stations \<le> I32_MAX" and "I32_MIN \<le> addresses" "addresses \<le> I32_MAX"
  shows "simulate pw stations 1 addresses = None"
proof -
  have "f64_sub f64_one (f64_div f64_one (f64_of_i32 1)) = Finite False 0"
    by (simp add: f64_of_i32_def f64_sub_def)
  then have "\<exists>l1. round_of pw stations 1 = Some (l1, 0)"
    using assms by (simp add: round_of_def Let_def powi_spec_simps f64_of_i32_def I32_MIN_def I32_MAX_def)
  with round_of_0 [of pw addresses] assms show ?thesis
    by (auto simp: simulate_def intro: simulate_loop_stuck)
qed

lemma simulate_one_slot_never_ends_witness: "simulate powi_left 2 1 255 = None"
  by (rule simulate_one_slot_never_ends) (simp_all add: powi_spec_left I32_MAX_def I32_MIN_def)

text \<open>
  The simulation serves two stations with two slots and a single address in two rounds: addresses
  that have run out do not stop it.
\<close>

lemma simulate_overallocates:
  assumes "powi_spec pw"
  shows "\<exists>out. simulate pw 2 2 1 = Some (2, out)"
proof -
  have "f64_sub f64_one (f64_div f64_one (f64_of_i32 2)) = Finite False (1 / 2)"
    by (simp add: f64_of_i32_def f64_sub_def)
  then obtain l1 where l1: "round_of pw 2 2 = Some (l1, 1)"
    using powi_spec_simps(2) [OF assms, of "Finite False (1 / 2)"]
    by (simp add: round_of_def Let_def f64_of_i32_def I32_MIN_def I32_MAX_def)
  from round_of_1 [OF assms] obtain l2 l3 l4 where
    l: "round_of pw 1 1 = Some (l2, 1)" "round_of pw 1 2 = Some (l3, 1)" "round_of pw 1 0 = Some (l4, 1)"
    by metis
  from simulate_step [OF _ l1 l(1)] simulate_step [OF _ l(2,3)] show ?thesis
    by (simp add: simulate_def I32_MIN_def I32_MAX_def) (simp add: simulate_loop.simps I32_MIN_def I32_MAX_def)
qed

lemma simulate_overallocates_witness: "\<exists>out. simulate powi_left 2 2 1 = Some (2, out)"
  by (rule simulate_overallocates) (rule powi_spec_left)

text \<open>The run without arguments ends, and so does a request for help; a run without a program name panics.\<close>

lemma analysis_main_runs:
  assumes "powi_spec pw"
  shows "\<exists>out. analysis_main pw [name] = Some out" and "analysis_main pw [name, ''--help''] = Some [Usage name]"
    and "analysis_main pw [] = None"
  using simulate_loop_ends [OF assms, of 400 128 1 255 "[]"]
  by (auto simp: analysis_main_def analysis_help_def simulate_def I32_MIN_def I32_MAX_def)

text \<open>The default values, given as arguments.\<close>

lemma analysis_main_defaults:
  "analysis_main pw [name, ''128'', ''+400'', ''255''] = analysis_main pw [name]"
  by (simp add: analysis_main_def parse_i32_def dec_digit_def i32_def I32_MIN_def I32_MAX_def)

end
