(* ===== verification/Nonce_Reuse.thy ===== *)
theory Nonce_Reuse
  imports Discovery_Protocol Aes_Ccm
begin

unbundle bit_operations_syntax

text \<open>
  What the nonces of server discovery reveal (\<open>data/examples/discovery/main.rs\<close>). All servers encrypt
  their replies under the one network key, with a header that names no server and a frame counter
  that each of them starts at zero. Two servers that answer the same request therefore use the same
  nonce, and a counter mode cipher such as the one in use then gives away the difference of their
  replies.
\<close>

section \<open>Two replies with one frame counter\<close>

lemma reply_sealed:
  assumes "postcard_format pc"
    and "try_create_server_reply pc ext cipher next_u32 identify fc buf rng = Some (Some (identified, d), rng')"
  shows "to_datagram pc ext cipher (discovery_header Server fc) (ser_Identified pc identified) buf = Some d"
    and "length (ser_Identified pc identified) = 2"
proof -
  have len: "length (ser_Identified pc x) = 2" for x
    by (simp add: ser_Identified_def postcard_format.ser_u8 [OF assms(1)])
  then show "length (ser_Identified pc identified) = 2" .
  have "write_vec pc MIN_PAYLOAD_SIZE (ser_Identified pc x) = Inr (ser_Identified pc x)" for x
    by (rule postcard_format.write_vec [OF assms(1)]) (simp add: len discovery_sizes)
  then show "to_datagram pc ext cipher (discovery_header Server fc) (ser_Identified pc identified) buf = Some d"
    using assms(2) by (auto simp: try_create_server_reply_def bind_eq_Some_conv split: option.splits)
qed

lemma xor_bytes_cancel:
  assumes "length p = length q" and "length k = length p"
  shows "xor_bytes (xor_bytes p k) (xor_bytes q k) = xor_bytes p q"
proof (rule nth_equalityI)
  fix i
  assume "i < length (xor_bytes (xor_bytes p k) (xor_bytes q k))"
  then have "i < length p" using assms by simp
  moreover have "(x XOR z) XOR (y XOR z) = x XOR y" for x y z :: u8
    by (simp add: xor.assoc xor.left_commute xor.commute)
  ultimately show "xor_bytes (xor_bytes p k) (xor_bytes q k) ! i = xor_bytes p q ! i"
    using assms by (simp add: xor_bytes_def)
qed (simp add: assms)

text \<open>The frame of a reply under counter mode: its header, and its two bytes masked with the key stream.\<close>

lemma reply_frame:
  assumes "postcard_format pc" and "heapless_vec ext"
    and "try_create_server_reply pc ext (ccm E) next_u32 identify fc buf rng = Some (Some (identified, d), rng')"
  obtains ct where
    "from_bytes (de_DataFrame pc) d = Inr \<lparr>header = to_packed (discovery_header Server fc), encrypted_payload = ct\<rparr>"
    "take 2 ct = xor_bytes (ser_Identified pc identified)
       (key_stream E (new_nonce (to_packed (discovery_header Server fc)) 2) 2)"
proof -
  let ?h = "to_packed (discovery_header Server fc)" and ?p = "ser_Identified pc identified"
  note sealed = reply_sealed [OF assms(1,3)]
  have "length ?p + 4 < 2 ^ 32" by (simp add: sealed(2))
  from postcard_format.frame_of_datagram [OF assms(1,2) aead_ccm this sealed(1)] obtain ct where
    ct: "encrypt_in_place (ccm E) (new_nonce ?h (length ?p)) (packed_bytes ?h) (length buf) ?p = Some ct"
    and frame: "from_bytes (de_DataFrame pc) d = Inr \<lparr>header = ?h, encrypted_payload = ct\<rparr>"
    by blast
  from ct have "take 2 ct = xor_bytes ?p (key_stream E (new_nonce ?h 2) 2)"
    by (auto simp: ccm_def sealed(2) split: if_splits)
  with frame show ?thesis by (rule that)
qed

section \<open>Properties\<close>

text \<open>
  C27. Two discovery servers that reply to one request with the same frame counter, as they all do
  at first, use the same key and header and so the same nonce: with CCM over any block cipher the
  exclusive or of the first two bytes of their encrypted payloads is that of their replies,
  whoever listens learns how the addresses differ.
\<close>

theorem replies_reveal_difference:
  assumes "postcard_format pc" and "heapless_vec ext"
    and "try_create_server_reply pc ext (ccm E) next_u32 identify fc buf rng = Some (Some (x, d), rng1)"
    and "try_create_server_reply pc ext (ccm E) next_u32 identify fc buf' rng' = Some (Some (y, d'), rng2)"
  shows "\<exists>f f'. from_bytes (de_DataFrame pc) d = Inr f \<and> from_bytes (de_DataFrame pc) d' = Inr f' \<and>
    header f = header f' \<and>
    xor_bytes (take 2 (encrypted_payload f)) (take 2 (encrypted_payload f')) =
      [identified_address x XOR identified_address y, server_ports x XOR server_ports y]"
proof -
  obtain ct where ct:
    "from_bytes (de_DataFrame pc) d = Inr \<lparr>header = to_packed (discovery_header Server fc), encrypted_payload = ct\<rparr>"
    "take 2 ct = xor_bytes (ser_Identified pc x) (key_stream E (new_nonce (to_packed (discovery_header Server fc)) 2) 2)"
    using assms(1-3) by (rule reply_frame)
  obtain ct' where ct':
    "from_bytes (de_DataFrame pc) d' = Inr \<lparr>header = to_packed (discovery_header Server fc), encrypted_payload = ct'\<rparr>"
    "take 2 ct' = xor_bytes (ser_Identified pc y) (key_stream E (new_nonce (to_packed (discovery_header Server fc)) 2) 2)"
    using assms(1,2,4) by (rule reply_frame)
  have "xor_bytes (take 2 ct) (take 2 ct') = xor_bytes (ser_Identified pc x) (ser_Identified pc y)"
    unfolding ct(2) ct'(2)
    by (rule xor_bytes_cancel) (simp_all add: reply_sealed(2) [OF assms(1,3)] reply_sealed(2) [OF assms(1,4)])
  also have "\<dots> = [identified_address x XOR identified_address y, server_ports x XOR server_ports y]"
    by (simp add: ser_Identified_def postcard_format.ser_u8 [OF assms(1)] xor_bytes_def)
  finally show ?thesis using ct(1) ct'(1) by simp
qed

text \<open>Two servers that pick the addresses 5 and 9 of an empty network.\<close>

lemma example_reply:
  assumes "r < 256"
  obtains d where "try_create_server_reply postcard_v1 vec_extend (aes_ccm key) (\<lambda>r. (r, r)) no_addresses 0
      (replicate MIN_PACKET_SIZE 0) (of_nat r) =
    Some (Some (\<lparr>identified_address = of_nat r, server_ports = 2\<rparr>, d), of_nat r)"
proof -
  let ?i = "\<lparr>identified_address = of_nat r, server_ports = 2\<rparr>"
  have "free_addresses (addresses no_addresses) 0 = [0..<256]"
    by (simp add: free_addresses_def known_def no_addresses_def discovery_sizes)
  then have "with_random_address (\<lambda>r. (r, r)) (iter no_addresses) (of_nat r) 2 = Some (Some ?i, of_nat r)"
    using assms by (simp add: with_random_address_eq unat_of_nat_u32)
  moreover obtain d where "to_datagram postcard_v1 vec_extend (aes_ccm key) (discovery_header Server 0)
      (ser_Identified postcard_v1 ?i) (replicate MIN_PACKET_SIZE 0) = Some d"
    and "unwrap (write_vec postcard_v1 MIN_PAYLOAD_SIZE (ser_Identified postcard_v1 ?i)) = Some (ser_Identified postcard_v1 ?i)"
    using v1.server_reply_arrives [of vec_extend "aes_ccm key" 0 ?i] by auto
  ultimately show ?thesis
    by (intro that [of d]) (simp add: try_create_server_reply_def)
qed

theorem replies_reveal_difference_witness:
  "\<exists>d d' f f'. from_bytes (de_DataFrame postcard_v1) d = Inr f \<and> from_bytes (de_DataFrame postcard_v1) d' = Inr f' \<and>
    header f = header f' \<and>
    xor_bytes (take 2 (encrypted_payload f)) (take 2 (encrypted_payload f')) = [5 XOR 9, 0]"
proof -
  let ?E = "aes128 (block_of (replicate 16 7))"
  obtain d where d: "try_create_server_reply postcard_v1 vec_extend (ccm ?E) (\<lambda>r. (r, r)) no_addresses 0
      (replicate MIN_PACKET_SIZE 0) 5 = Some (Some (\<lparr>identified_address = 5, server_ports = 2\<rparr>, d), 5)"
    using example_reply [of 5 "replicate 16 7"] by (auto simp: aes_ccm_def)
  obtain d' where d': "try_create_server_reply postcard_v1 vec_extend (ccm ?E) (\<lambda>r. (r, r)) no_addresses 0
      (replicate MIN_PACKET_SIZE 0) 9 = Some (Some (\<lparr>identified_address = 9, server_ports = 2\<rparr>, d'), 9)"
    using example_reply [of 9 "replicate 16 7"] by (auto simp: aes_ccm_def)
  from replies_reveal_difference [OF v1.postcard_format_axioms heapless_vec_extend d d'] show ?thesis
    by auto
qed

end
