(* ===== verification/Update_Messages.thy ===== *)
theory Update_Messages
  imports Semver Discovery
begin

text \<open>
  The messages of a software update (\<open>data/src/update.rs\<close>): the key, the announcement
  \<open>PrepareForUpdate\<close> and the chunks \<open>Update<N>\<close>, with their derived codecs and the size bound
  \<open>UPDATE_BYTES_OVERHEAD\<close>. The capacity \<open>N\<close> of a chunk's vector is an argument of its decoder.
\<close>

section \<open>Messages\<close>

datatype UpdateKey = UpdateKey (key_bytes: bytes)

definition debug_UpdateKey :: "UpdateKey \<Rightarrow> string" where
  "debug_UpdateKey k = ''UpdateKey('' @ [CHR 0x22] @ ''XXX'' @ [CHR 0x22] @ '')''"

record PrepareForUpdate =
  update_version :: Version
  update_ports :: u8
  update_key :: UpdateKey
  update_byte_len :: u32
  is_signed :: bool

record Update =
  byte_offset :: u32
  update_bytes :: bytes

definition UPDATE_BYTES_OVERHEAD :: nat where "UPDATE_BYTES_OVERHEAD = 4 + 1"

section \<open>Derived codecs\<close>

fun ser_PreRelease :: "'pe postcard \<Rightarrow> PreRelease \<Rightarrow> bytes" where
  "ser_PreRelease pc (Alpha i) = ser_variant pc 0 @ ser_u8 pc i"
| "ser_PreRelease pc (Beta i) = ser_variant pc 1 @ ser_u8 pc i"

definition de_PreRelease :: "'pe postcard \<Rightarrow> ('pe, PreRelease) decoder" where
  "de_PreRelease pc =
     de_then (de_variant pc) (\<lambda>n.
       if n = 0 then de_then (de_u8 pc) (\<lambda>i. de_return (Alpha i))
       else if n = 1 then de_then (de_u8 pc) (\<lambda>i. de_return (Beta i))
       else de_error pc)"

definition ser_Version :: "'pe postcard \<Rightarrow> Version \<Rightarrow> bytes" where
  "ser_Version pc v =
     ser_u8 pc (major v) @ ser_u8 pc (minor v) @ ser_u8 pc (patch v) @ ser_opt pc (ser_PreRelease pc) (pre v)"

definition de_Version :: "'pe postcard \<Rightarrow> ('pe, Version) decoder" where
  "de_Version pc =
     de_then (de_u8 pc) (\<lambda>maj. de_then (de_u8 pc) (\<lambda>min. de_then (de_u8 pc) (\<lambda>pat.
     de_then (de_opt pc (de_PreRelease pc)) (\<lambda>p. de_return (Version maj min pat p)))))"

definition ser_PrepareForUpdate :: "'pe postcard \<Rightarrow> PrepareForUpdate \<Rightarrow> bytes" where
  "ser_PrepareForUpdate pc m =
     ser_Version pc (update_version m) @ ser_u8 pc (update_ports m) @
     ser_array pc (key_bytes (update_key m)) @ ser_u32 pc (update_byte_len m) @ ser_bool pc (is_signed m)"

definition de_PrepareForUpdate :: "'pe postcard \<Rightarrow> ('pe, PrepareForUpdate) decoder" where
  "de_PrepareForUpdate pc =
     de_then (de_Version pc) (\<lambda>v. de_then (de_u8 pc) (\<lambda>p. de_then (de_array pc 16) (\<lambda>k.
     de_then (de_u32 pc) (\<lambda>l. de_then (de_bool pc) (\<lambda>s.
       de_return \<lparr>update_version = v, update_ports = p, update_key = UpdateKey k,
                  update_byte_len = l, is_signed = s\<rparr>)))))"

definition ser_Update :: "'pe postcard \<Rightarrow> Update \<Rightarrow> bytes" where
  "ser_Update pc m =
     ser_u32 pc (byte_offset m) @ ser_len pc (length (update_bytes m)) @ ser_array pc (update_bytes m)"

text \<open>A vector of capacity \<open>n\<close> is filled element by element; the element that no longer fits is an error.\<close>

definition de_vec :: "'pe postcard \<Rightarrow> nat \<Rightarrow> ('pe, bytes) decoder" where
  "de_vec pc n =
     de_then (de_len pc) (\<lambda>l.
       if l \<le> n then de_array pc l else de_then (de_array pc (Suc n)) (\<lambda>_. de_error pc))"

definition de_Update :: "'pe postcard \<Rightarrow> nat \<Rightarrow> ('pe, Update) decoder" where
  "de_Update pc n =
     de_then (de_u32 pc) (\<lambda>off. de_then (de_vec pc n) (\<lambda>bs.
       de_return \<lparr>byte_offset = off, update_bytes = bs\<rparr>))"

section \<open>Round trips and sizes\<close>

sublocale postcard_format \<subseteq> ver: codec "ser_Version pc" "de_Version pc" "\<lambda>_. True"
proof unfold_locales
  have p: "de_PreRelease pc (ser_PreRelease pc p @ r) = Inr (p, r)" for p r
    by (cases p) (simp_all add: de_PreRelease_def wire)
  fix v r
  show "de_Version pc (ser_Version pc v @ r) = Inr (v, r)"
    by (cases v; cases "pre v") (simp_all add: ser_Version_def de_Version_def wire p)
qed

sublocale postcard_format \<subseteq> prepare:
  codec "ser_PrepareForUpdate pc" "de_PrepareForUpdate pc" "\<lambda>m. length (key_bytes (update_key m)) = 16"
proof unfold_locales
  fix m :: PrepareForUpdate and r
  assume "length (key_bytes (update_key m)) = 16"
  then show "de_PrepareForUpdate pc (ser_PrepareForUpdate pc m @ r) = Inr (m, r)"
    by (cases m; cases "update_key m")
       (simp add: ser_PrepareForUpdate_def de_PrepareForUpdate_def ver.decode_encode wire)
qed

sublocale postcard_format \<subseteq> update:
  codec "ser_Update pc" "de_Update pc n" "\<lambda>m. length (update_bytes m) \<le> n \<and> n < 2 ^ 32" for n
proof unfold_locales
  fix m :: Update and r
  assume "length (update_bytes m) \<le> n \<and> n < 2 ^ 32"
  then show "de_Update pc n (ser_Update pc m @ r) = Inr (m, r)"
    by (cases m) (simp add: ser_Update_def de_Update_def de_vec_def wire)
qed

context postcard_format
begin

lemma length_ser_PrepareForUpdate:
  assumes "length (key_bytes (update_key m)) = 16"
  shows "length (ser_PrepareForUpdate pc m) \<le> 29"
proof -
  have "length (ser_PreRelease pc p) = 2" for p
    by (cases p) (simp_all add: wire)
  then have "length (ser_Version pc v) \<le> 6" for v
    by (cases "pre v") (simp_all add: ser_Version_def wire)
  then have "length (ser_Version pc (update_version m)) \<le> 6" by blast
  moreover have "varint_len (unat (update_byte_len m)) \<le> 5" by (rule varint_len_u32)
  moreover have "length (ser_PrepareForUpdate pc m) =
      length (ser_Version pc (update_version m)) + 1 + 16 + varint_len (unat (update_byte_len m)) + 1"
    using assms by (simp add: ser_PrepareForUpdate_def wire)
  ultimately show ?thesis by linarith
qed

lemma from_bytes_PrepareForUpdate:
  "length (key_bytes (update_key m)) = 16 \<Longrightarrow>
     from_bytes (de_PrepareForUpdate pc) (ser_PrepareForUpdate pc m) = Inr m"
  using prepare.from_bytes_ser [of m "[]"] by simp

lemma from_bytes_Update:
  "length (update_bytes m) \<le> n \<Longrightarrow> n < 2 ^ 32 \<Longrightarrow> from_bytes (de_Update pc n) (ser_Update pc m) = Inr m"
  using update.from_bytes_ser [of m n "[]"] by simp

lemma length_ser_Update:
  "length (ser_Update pc m) =
     varint_len (unat (byte_offset m)) + varint_len (length (update_bytes m)) + length (update_bytes m)"
  by (simp add: ser_Update_def wire)

end

lemma varint_len_2_28: "varint_len n \<le> 4 \<longleftrightarrow> n < 2 ^ 28"
  using varint_len_le [of n 3] varint_len_gt [of 3 n] by fastforce

section \<open>Properties\<close>

text \<open>
  Every announcement of an update fits the payload of a packet and is decoded to itself.
\<close>

lemma prepare_for_update_fits:
  assumes "postcard_format pc" and "length (key_bytes (update_key m)) = 16"
  shows "write_vec pc MIN_PAYLOAD_SIZE (ser_PrepareForUpdate pc m) = Inr (ser_PrepareForUpdate pc m) \<and>
    from_bytes (de_PrepareForUpdate pc) (ser_PrepareForUpdate pc m) = Inr m"
proof
  have "length (ser_PrepareForUpdate pc m) \<le> MIN_PAYLOAD_SIZE"
    using postcard_format.length_ser_PrepareForUpdate [OF assms] by (simp add: discovery_sizes)
  then show "write_vec pc MIN_PAYLOAD_SIZE (ser_PrepareForUpdate pc m) = Inr (ser_PrepareForUpdate pc m)"
    by (rule postcard_format.write_vec [OF assms(1)])
  show "from_bytes (de_PrepareForUpdate pc) (ser_PrepareForUpdate pc m) = Inr m"
    by (rule postcard_format.from_bytes_PrepareForUpdate [OF assms])
qed

definition example_prepare :: PrepareForUpdate where
  "example_prepare =
     \<lparr>update_version = Version 1 2 3 None, update_ports = 4, update_key = UpdateKey (replicate 16 9),
      update_byte_len = 102400, is_signed = False\<rparr>"

lemma prepare_for_update_fits_witness:
  "write_vec postcard_v1 MIN_PAYLOAD_SIZE (ser_PrepareForUpdate postcard_v1 example_prepare) =
     Inr (ser_PrepareForUpdate postcard_v1 example_prepare) \<and>
   from_bytes (de_PrepareForUpdate postcard_v1) (ser_PrepareForUpdate postcard_v1 example_prepare) = Inr example_prepare"
  by (rule prepare_for_update_fits) (simp_all add: v1.postcard_format_axioms example_prepare_def)

text \<open>
  C37. An update with a full chunk of bytes fits the payload of a packet, and postcard::to_vec
  succeeds, exactly for offsets below 2^28.
\<close>

theorem full_update_fits_iff:
  assumes "postcard_format pc" and "length (update_bytes m) = MIN_PAYLOAD_SIZE - UPDATE_BYTES_OVERHEAD"
  shows "(\<exists>e. write_vec pc MIN_PAYLOAD_SIZE (ser_Update pc m) = Inl e) \<longleftrightarrow> 2 ^ 28 \<le> unat (byte_offset m)"
proof -
  have len: "length (ser_Update pc m) \<le> MIN_PAYLOAD_SIZE \<longleftrightarrow> varint_len (unat (byte_offset m)) \<le> 4"
    using assms(2)
    by (simp add: postcard_format.length_ser_Update [OF assms(1)] discovery_sizes UPDATE_BYTES_OVERHEAD_def varint_len_1)
  show ?thesis
    using postcard_format.write_vec [OF assms(1), of "ser_Update pc m" MIN_PAYLOAD_SIZE]
      postcard_format.write_vec_full [OF assms(1), of MIN_PAYLOAD_SIZE "ser_Update pc m"] len
      varint_len_2_28 [of "unat (byte_offset m)"]
    by (cases "length (ser_Update pc m) \<le> MIN_PAYLOAD_SIZE") (auto simp: not_le)
qed

theorem full_update_fits_iff_witness:
  "\<exists>e. write_vec postcard_v1 MIN_PAYLOAD_SIZE
     (ser_Update postcard_v1 \<lparr>byte_offset = 268435456, update_bytes = replicate 27 0\<rparr>) = Inl e"
proof -
  have "(\<exists>e. write_vec postcard_v1 MIN_PAYLOAD_SIZE
      (ser_Update postcard_v1 \<lparr>byte_offset = 268435456, update_bytes = replicate 27 0\<rparr>) = Inl e) \<longleftrightarrow>
     2 ^ 28 \<le> unat (byte_offset \<lparr>byte_offset = 268435456, update_bytes = replicate 27 0\<rparr>)"
    by (rule full_update_fits_iff)
       (simp_all add: v1.postcard_format_axioms discovery_sizes UPDATE_BYTES_OVERHEAD_def)
  then show ?thesis by simp
qed

end
