(* ===== verification/Update_Protocol.thy ===== *)
theory Update_Protocol
  imports Update_Messages
begin

text \<open>
  The update protocol (\<open>data/examples/update/main.rs\<close>): a client that announces an update to each
  server and then broadcasts its bytes in order, with pauses, and a server that follows it. What the
  client does is a trace of datagrams and pauses, what the server prints a list of notes. Parameters
  are the wire format \<open>pc\<close>, \<open>heapless\<close>'s \<open>ext\<close>, the constructor \<open>new_cipher\<close> of a cipher from a key
  (\<open>AesCcm::new\<close>) and whether the broadcast channel accepts the next datagram (\<open>send_ok\<close>).
\<close>

section \<open>Constants\<close>

definition MY_APP_PORT :: nat where "MY_APP_PORT = 2"

datatype Delay = SERVER_REQUEST_RECEIVE_TIME | UPDATE_PROCESSING_TIME

definition UPDATE_BYTES_SIZE :: nat where
  "UPDATE_BYTES_SIZE = MIN_PAYLOAD_SIZE - UPDATE_BYTES_OVERHEAD"

definition UPDATE_BYTES_PROCESSING_THRESHOLD :: nat where
  "UPDATE_BYTES_PROCESSING_THRESHOLD = 4096"

text \<open>The bytes of the example's own update. The operations below take the image as an argument.\<close>

definition UPDATE :: bytes where "UPDATE = replicate (100 * 1024) 0"

section \<open>The client\<close>

text \<open>
  What the client does: datagrams the channel accepts or refuses, and pauses. Whether the channel accepts
  the next datagram may depend on all that was done before, refusals and pauses included.
\<close>

datatype ClientAct = Sent bytes | Refused bytes | Slept Delay

fun sent_of :: "ClientAct list \<Rightarrow> bytes list" where
  "sent_of [] = []"
| "sent_of (Sent d # as) = d # sent_of as"
| "sent_of (Refused _ # as) = sent_of as"
| "sent_of (Slept _ # as) = sent_of as"

definition update_header :: "u16 \<Rightarrow> Header" where
  "update_header fc = \<lparr>version = 0, source = Client, server_address = 0, server_port = 1, frame_counter = fc\<rparr>"

definition create_prepare_update_request ::
    "'pe postcard \<Rightarrow> extend \<Rightarrow> aead \<Rightarrow> PrepareForUpdate \<Rightarrow> u16 \<Rightarrow> bytes \<Rightarrow> bytes exec" where
  "create_prepare_update_request pc ext network_cipher prepare_for_update fc datagram_buf = do {
     payload \<leftarrow> unwrap (write_vec pc MIN_PAYLOAD_SIZE (ser_PrepareForUpdate pc prepare_for_update));
     to_datagram pc ext network_cipher (update_header fc) payload datagram_buf
   }"

definition create_update_request ::
    "'pe postcard \<Rightarrow> extend \<Rightarrow> aead \<Rightarrow> Update \<Rightarrow> u16 \<Rightarrow> bytes \<Rightarrow> bytes exec" where
  "create_update_request pc ext update_cipher update fc datagram_buf = do {
     payload \<leftarrow> unwrap (write_vec pc MIN_PAYLOAD_SIZE (ser_Update pc update));
     to_datagram pc ext update_cipher (update_header fc) payload datagram_buf
   }"

definition prepare_for_update_of :: "bytes \<Rightarrow> nat \<Rightarrow> PrepareForUpdate" where
  "prepare_for_update_of key update_len =
     \<lparr>update_version = Version 1 2 3 None, update_ports = push_bit MY_APP_PORT 1,
      update_key = UpdateKey key, update_byte_len = of_nat update_len, is_signed = False\<rparr>"

text \<open>The mutable state of the client's functions: the frame counter, the buffer and what was done.\<close>

type_synonym client_state = "u16 \<times> bytes \<times> ClientAct list"

definition prepare_servers_for_update ::
    "'pe postcard \<Rightarrow> extend \<Rightarrow> (bytes \<Rightarrow> aead) \<Rightarrow> (ClientAct list \<Rightarrow> bool) \<Rightarrow> (u8 \<times> bytes) list \<Rightarrow> bytes \<Rightarrow> nat
      \<Rightarrow> client_state \<Rightarrow> client_state exec" where
  "prepare_servers_for_update pc ext new_cipher send_ok servers key update_len =
     fold_exec (\<lambda>(fc, datagram_buf, acts) (address, network_key). do {
       datagram_buf \<leftarrow> create_prepare_update_request pc ext (new_cipher network_key)
         (prepare_for_update_of key update_len) fc datagram_buf;
       if send_ok acts
       then Some (fc + 1, datagram_buf, acts @ [Sent datagram_buf, Slept SERVER_REQUEST_RECEIVE_TIME])
       else Some (fc, datagram_buf, acts @ [Refused datagram_buf])
     }) servers"

text \<open>
  The loop over the image. It may go on forever (with an \<open>update_len\<close> below the image's length it
  ends up sending empty updates); \<open>None\<close> stands for that as well as for a panic.
\<close>

partial_function (option) update_loop ::
    "'pe postcard \<Rightarrow> extend \<Rightarrow> aead \<Rightarrow> (ClientAct list \<Rightarrow> bool) \<Rightarrow> bytes \<Rightarrow> nat \<Rightarrow> nat \<Rightarrow> nat
      \<Rightarrow> client_state \<Rightarrow> client_state exec" where
  "update_loop pc ext cipher send_ok img update_len update_byte_offset next_threshold st =
     (case st of (fc, datagram_buf, acts) \<Rightarrow>
       if update_byte_offset < length img then
         let to_update_byte_offset = min (update_byte_offset + UPDATE_BYTES_SIZE) next_threshold in do {
           slice \<leftarrow> subslice img update_byte_offset to_update_byte_offset;
           bs \<leftarrow> ext UPDATE_BYTES_SIZE [] slice;
           datagram_buf \<leftarrow> create_update_request pc ext cipher
             \<lparr>byte_offset = of_nat update_byte_offset, update_bytes = bs\<rparr> fc datagram_buf;
           if \<not> send_ok acts then Some (fc, datagram_buf, acts @ [Refused datagram_buf])
           else
             let reached = to_update_byte_offset = next_threshold;
                 next_threshold = (if reached
                   then min (next_threshold + UPDATE_BYTES_PROCESSING_THRESHOLD) update_len else next_threshold);
                 delay = (if reached then UPDATE_PROCESSING_TIME else SERVER_REQUEST_RECEIVE_TIME)
             in update_loop pc ext cipher send_ok img update_len to_update_byte_offset next_threshold
                  (fc + 1, datagram_buf, acts @ [Sent datagram_buf, Slept delay])
         }
       else Some (fc, datagram_buf, acts @ [Slept UPDATE_PROCESSING_TIME]))"

definition update_servers ::
    "'pe postcard \<Rightarrow> extend \<Rightarrow> (bytes \<Rightarrow> aead) \<Rightarrow> (ClientAct list \<Rightarrow> bool) \<Rightarrow> bytes \<Rightarrow> bytes \<Rightarrow> nat
      \<Rightarrow> client_state \<Rightarrow> client_state exec" where
  "update_servers pc ext new_cipher send_ok img key update_len st =
     update_loop pc ext (new_cipher key) send_ok img update_len 0
       (min UPDATE_BYTES_PROCESSING_THRESHOLD update_len) st"

definition client_task ::
    "'pe postcard \<Rightarrow> extend \<Rightarrow> (bytes \<Rightarrow> aead) \<Rightarrow> (ClientAct list \<Rightarrow> bool) \<Rightarrow> bytes \<Rightarrow> bytes \<Rightarrow> (u8 \<times> bytes) list
      \<Rightarrow> ClientAct list exec" where
  "client_task pc ext new_cipher send_ok img key servers = do {
     st \<leftarrow> prepare_servers_for_update pc ext new_cipher send_ok servers key (length img)
       (0, replicate MIN_PACKET_SIZE 0, []);
     (_, _, acts) \<leftarrow> update_servers pc ext new_cipher send_ok img key (length img) st;
     Some acts
   }"

section \<open>The server\<close>

record UpdateInfo =
  info_cipher :: aead
  byte_len :: nat
  next_byte_offset :: nat

text \<open>What the server prints; a note of received bytes carries them, where the source prints their number.\<close>

datatype Note = UpdatingTo Version | Received u32 bytes | Abandoning u32 nat | Flashing | FlashingLast | UpdateFinished nat

definition update_filter :: "Header \<Rightarrow> bool" where
  "update_filter h \<longleftrightarrow> server_address h = 0 \<and> server_port h = 1 \<and> source h = Client"

definition process_client_update_request ::
    "'pe postcard \<Rightarrow> extend \<Rightarrow> nat \<Rightarrow> aead \<Rightarrow> bytes \<Rightarrow> Update option exec" where
  "process_client_update_request pc ext n cipher datagram_buf = do {
     r \<leftarrow> from_datagram pc ext datagram_buf update_filter cipher;
     Some (Option.bind (ok r) (\<lambda>(_, b). ok (from_bytes (de_Update pc n) b)))
   }"

definition process_active_update :: "UpdateInfo \<Rightarrow> Update \<Rightarrow> bool \<times> UpdateInfo \<times> Note list" where
  "process_active_update info update =
     (if unat (byte_offset update) \<noteq> next_byte_offset info then
        (True, info, [Abandoning (byte_offset update) (length (update_bytes update))])
      else
        let info = info\<lparr>next_byte_offset := next_byte_offset info + length (update_bytes update)\<rparr>;
            note = Received (byte_offset update) (update_bytes update)
        in if next_byte_offset info = byte_len info then (True, info, [note, FlashingLast, UpdateFinished (next_byte_offset info)])
           else if next_byte_offset info mod UPDATE_BYTES_PROCESSING_THRESHOLD = 0 then (False, info, [note, Flashing])
           else (False, info, [note]))"

definition process_client_prepare_for_update_request ::
    "'pe postcard \<Rightarrow> extend \<Rightarrow> aead \<Rightarrow> bytes \<Rightarrow> PrepareForUpdate option exec" where
  "process_client_prepare_for_update_request pc ext cipher datagram_buf = do {
     r \<leftarrow> from_datagram pc ext datagram_buf update_filter cipher;
     Some (Option.bind (ok r) (\<lambda>(_, b). ok (from_bytes (de_PrepareForUpdate pc) b)))
   }"

definition activate_update_if_new_version ::
    "(bytes \<Rightarrow> aead) \<Rightarrow> PrepareForUpdate \<Rightarrow> Version \<Rightarrow> UpdateInfo option" where
  "activate_update_if_new_version new_cipher prepare_for_update current_version =
     (if version_gt (update_version prepare_for_update) current_version then
        Some \<lparr>info_cipher = new_cipher (key_bytes (update_key prepare_for_update)),
              byte_len = unat (update_byte_len prepare_for_update), next_byte_offset = 0\<rparr>
      else None)"

text \<open>One turn of the server's loop.\<close>

definition server_recv ::
    "'pe postcard \<Rightarrow> extend \<Rightarrow> (bytes \<Rightarrow> aead) \<Rightarrow> aead \<Rightarrow> Version \<Rightarrow> UpdateInfo option \<Rightarrow> bytes
      \<Rightarrow> (UpdateInfo option \<times> Note list) exec" where
  "server_recv pc ext new_cipher server_cipher current_version active datagram = do {
     request \<leftarrow> (case active of
         Some info \<Rightarrow> do {
           update \<leftarrow> process_client_update_request pc ext UPDATE_BYTES_SIZE (info_cipher info) datagram;
           Some (map_option (\<lambda>update. (info, update)) update)
         }
       | None \<Rightarrow> Some None);
     case request of
       Some (info, update) \<Rightarrow>
         (case process_active_update info update of
            (finished, info, notes) \<Rightarrow> Some (if finished then None else Some info, notes))
     | None \<Rightarrow> do {
         prepare \<leftarrow> process_client_prepare_for_update_request pc ext server_cipher datagram;
         case Option.bind prepare (\<lambda>p. activate_update_if_new_version new_cipher p current_version) of
           Some info \<Rightarrow> Some (Some info, [UpdatingTo (update_version (the prepare))])
         | None \<Rightarrow> Some (active, [])
       }
   }"

definition CURRENT_VERSION :: "Version exec" where
  "CURRENT_VERSION = unwrap (version_from_str ''1.2.0'')"

text \<open>The server's loop over the datagrams of the channel, with the notes of each turn.\<close>

fun server_loop ::
    "'pe postcard \<Rightarrow> extend \<Rightarrow> (bytes \<Rightarrow> aead) \<Rightarrow> aead \<Rightarrow> Version \<Rightarrow> UpdateInfo option \<Rightarrow> bytes list
      \<Rightarrow> (UpdateInfo option \<times> Note list list) exec" where
  "server_loop pc ext new_cipher server_cipher v active [] = Some (active, [])"
| "server_loop pc ext new_cipher server_cipher v active (d # ds) = do {
     (active, notes) \<leftarrow> server_recv pc ext new_cipher server_cipher v active d;
     (active, rest) \<leftarrow> server_loop pc ext new_cipher server_cipher v active ds;
     Some (active, notes # rest)
   }"

definition server_task ::
    "'pe postcard \<Rightarrow> extend \<Rightarrow> (bytes \<Rightarrow> aead) \<Rightarrow> bytes \<Rightarrow> bytes list
      \<Rightarrow> (UpdateInfo option \<times> Note list list) exec" where
  "server_task pc ext new_cipher network_key ds = do {
     current_version \<leftarrow> CURRENT_VERSION;
     server_loop pc ext new_cipher (new_cipher network_key) current_version None ds
   }"

section \<open>Datagrams carry messages\<close>

lemmas update_sizes = discovery_sizes UPDATE_BYTES_SIZE_def UPDATE_BYTES_OVERHEAD_def
  UPDATE_BYTES_PROCESSING_THRESHOLD_def

lemma update_header_wire [simp]:
  "update_header fc\<lparr>version := 0, server_port := server_port (update_header fc) AND 7\<rparr> = update_header fc"
  "update_filter (update_header fc)"
  by (simp_all add: update_header_def update_filter_def)

context postcard_format
begin

lemma update_request_arrives:
  assumes "heapless_vec ext" and "aead_cipher c" and "length buf = MIN_PACKET_SIZE"
    and "length (update_bytes u) \<le> UPDATE_BYTES_SIZE" and "unat (byte_offset u) < 2 ^ 28"
  obtains d where "create_update_request pc ext c u fc buf = Some d" "length d = MIN_PACKET_SIZE"
    "process_client_update_request pc ext UPDATE_BYTES_SIZE c d = Some (Some u)"
proof -
  have "varint_len (unat (byte_offset u)) \<le> 4" using assms(5) varint_len_2_28 by simp
  then have len: "length (ser_Update pc u) \<le> MIN_PAYLOAD_SIZE"
    using assms(4) by (simp add: length_ser_Update varint_len_1 update_sizes)
  have "from_bytes (de_Update pc UPDATE_BYTES_SIZE) (ser_Update pc u) = Inr u"
    using assms(4) by (intro from_bytes_Update) (simp_all add: update_sizes)
  with payload_arrives [OF assms(1,2) len assms(3), of "update_header fc" update_filter] that len show ?thesis
    by (fastforce simp: create_update_request_def process_client_update_request_def write_vec)
qed

lemma prepare_request_arrives:
  assumes "heapless_vec ext" and "aead_cipher c" and "length buf = MIN_PACKET_SIZE"
    and "length (key_bytes (update_key m)) = 16"
  obtains d where "create_prepare_update_request pc ext c m fc buf = Some d" "length d = MIN_PACKET_SIZE"
    "process_client_prepare_for_update_request pc ext c d = Some (Some m)"
proof -
  have len: "length (ser_PrepareForUpdate pc m) \<le> MIN_PAYLOAD_SIZE"
    using length_ser_PrepareForUpdate [OF assms(4)] by (simp add: discovery_sizes)
  with payload_arrives [OF assms(1,2) len assms(3), of "update_header fc" update_filter] from_bytes_PrepareForUpdate [OF assms(4)] that
  show ?thesis
    by (fastforce simp: create_prepare_update_request_def process_client_prepare_for_update_request_def write_vec)
qed

end

section \<open>The client cuts the image into chunks\<close>

text \<open>
  A plan: the updates sent from an offset on, each with the pause after it. They follow each other
  without gap up to the end of the image, and the pause is long after the chunk that completes a
  block of \<open>UPDATE_BYTES_PROCESSING_THRESHOLD\<close> bytes, and after the last.
\<close>

fun planned :: "bytes \<Rightarrow> nat \<Rightarrow> (Update \<times> Delay) list \<Rightarrow> bool" where
  "planned img off [] \<longleftrightarrow> off = length img"
| "planned img off ((u, delay) # us) \<longleftrightarrow>
     (let len = length (update_bytes u); to = off + len in
      byte_offset u = of_nat off \<and> 0 < len \<and> len \<le> UPDATE_BYTES_SIZE \<and> to \<le> length img \<and>
      take len (drop off img) = update_bytes u \<and>
      delay = (if to = length img \<or> to mod UPDATE_BYTES_PROCESSING_THRESHOLD = 0
               then UPDATE_PROCESSING_TIME else SERVER_REQUEST_RECEIVE_TIME) \<and>
      planned img to us)"

definition threshold_after :: "nat \<Rightarrow> nat \<Rightarrow> nat" where
  "threshold_after n off =
     min (UPDATE_BYTES_PROCESSING_THRESHOLD * Suc (off div UPDATE_BYTES_PROCESSING_THRESHOLD)) n"

lemma threshold_step:
  assumes "off < n"
  defines "thr \<equiv> threshold_after n off"
  defines "to \<equiv> min (off + UPDATE_BYTES_SIZE) thr"
  shows "off < to" "to \<le> n" "to - off \<le> UPDATE_BYTES_SIZE"
    "to = thr \<longleftrightarrow> to = n \<or> to mod UPDATE_BYTES_PROCESSING_THRESHOLD = 0"
    "(if to = thr then min (thr + UPDATE_BYTES_PROCESSING_THRESHOLD) n else thr) = threshold_after n to"
proof -
  define q r where "q = off div 4096" and "r = off mod 4096"
  have off: "off = 4096 * q + r" "r < 4096" by (simp_all add: q_def r_def)
  have thr: "thr = min (4096 * q + 4096) n"
    by (simp add: thr_def threshold_after_def update_sizes q_def)
  have to: "to = min (off + 27) thr" by (simp add: to_def update_sizes)
  show "off < to" "to \<le> n" "to - off \<le> UPDATE_BYTES_SIZE"
    using off assms(1) by (auto simp: to thr update_sizes)
  consider (block) "to = 4096 * Suc q" "thr = to" | (last) "to = n" "thr = n"
    | (inner) "4096 * q < to" "to < 4096 * Suc q" "to < thr" "to < n" "thr = min (4096 * Suc q) n"
    using thr to off assms(1) by fastforce
  then have both: "(to = thr \<longleftrightarrow> to = n \<or> to mod 4096 = 0) \<and>
      (if to = thr then min (thr + 4096) n else thr) = min (4096 * Suc (to div 4096)) n"
  proof cases
    case block
    then show ?thesis by simp
  next
    case last
    have "n < 4096 * Suc (n div 4096)" using dividend_less_times_div [of 4096 n] by simp
    with last show ?thesis by simp
  next
    case inner
    then have "to div 4096 = q" "to mod 4096 \<noteq> 0"
      by (auto intro: div_nat_eqI simp: mod_eq_0_iff_dvd elim!: dvdE)
    with inner show ?thesis by simp
  qed
  show "to = thr \<longleftrightarrow> to = n \<or> to mod UPDATE_BYTES_PROCESSING_THRESHOLD = 0"
    unfolding UPDATE_BYTES_PROCESSING_THRESHOLD_def by (rule conjunct1 [OF both])
  show "(if to = thr then min (thr + UPDATE_BYTES_PROCESSING_THRESHOLD) n else thr) = threshold_after n to"
    unfolding threshold_after_def UPDATE_BYTES_PROCESSING_THRESHOLD_def by (rule conjunct2 [OF both])
qed

text \<open>The chunk at an offset, where it ends, and the pause after it.\<close>

definition chunk_end :: "nat \<Rightarrow> nat \<Rightarrow> nat" where
  "chunk_end n off = min (off + UPDATE_BYTES_SIZE) (threshold_after n off)"

definition chunk_at :: "bytes \<Rightarrow> nat \<Rightarrow> Update" where
  "chunk_at img off =
     \<lparr>byte_offset = of_nat off, update_bytes = take (chunk_end (length img) off - off) (drop off img)\<rparr>"

definition delay_at :: "nat \<Rightarrow> nat \<Rightarrow> Delay" where
  "delay_at n off =
     (if chunk_end n off = n \<or> chunk_end n off mod UPDATE_BYTES_PROCESSING_THRESHOLD = 0
      then UPDATE_PROCESSING_TIME else SERVER_REQUEST_RECEIVE_TIME)"

lemmas chunk_step = threshold_step [folded chunk_end_def]

lemma length_chunk: "off < length img \<Longrightarrow> length (update_bytes (chunk_at img off)) = chunk_end (length img) off - off"
  using chunk_step(2) [of off "length img"] by (simp add: chunk_at_def)

lemma planned_chunk:
  assumes "off < length img" and "planned img (chunk_end (length img) off) plan"
  shows "planned img off ((chunk_at img off, delay_at (length img) off) # plan)"
  using assms chunk_step(1-3) [OF assms(1)] length_chunk [OF assms(1)]
  by (simp add: Let_def delay_at_def) (simp add: chunk_at_def)

lemma planned_exists: "off \<le> length img \<Longrightarrow> \<exists>plan. planned img off plan"
proof (induction "length img - off" arbitrary: off rule: less_induct)
  case less
  show ?case
  proof (cases "off = length img")
    case True
    then show ?thesis by (intro exI [of _ "[]"]) simp
  next
    case False
    with less.prems have off: "off < length img" by simp
    with less.hyps [of "chunk_end (length img) off"] chunk_step(1,2) [OF off] show ?thesis
      using planned_chunk [OF off] by fastforce
  qed
qed

lemma planned_nonempty: "planned img off plan \<Longrightarrow> off < length img \<Longrightarrow> plan \<noteq> []"
  by auto

text \<open>One turn of the client's loop.\<close>

lemma update_loop_step:
  assumes "heapless_vec ext" and "off < length img"
    and "create_update_request pc ext c (chunk_at img off) fc buf = Some d"
  shows "update_loop pc ext c send_ok img (length img) off (threshold_after (length img) off) (fc, buf, acts) =
    (if send_ok acts
     then update_loop pc ext c send_ok img (length img) (chunk_end (length img) off)
            (threshold_after (length img) (chunk_end (length img) off))
            (fc + 1, d, acts @ [Sent d, Slept (delay_at (length img) off)])
     else Some (fc, d, acts @ [Refused d]))"
proof -
  let ?to = "chunk_end (length img) off"
  note step = chunk_step [OF assms(2)]
  have "ext UPDATE_BYTES_SIZE [] (take (?to - off) (drop off img)) = Some (take (?to - off) (drop off img))"
    using assms(1) step(3) by (simp add: heapless_extend)
  moreover have "subslice img off ?to = Some (take (?to - off) (drop off img))"
    using step(1,2) by simp
  ultimately show ?thesis
    using assms(2,3) unfolding step(5) [symmetric] delay_at_def step(4) [symmetric]
    by (subst update_loop.simps) (simp add: Let_def chunk_at_def flip: chunk_end_def)
qed

fun acts_of :: "bytes list \<Rightarrow> (Update \<times> Delay) list \<Rightarrow> ClientAct list" where
  "acts_of (d # ds) ((u, delay) # us) = Sent d # Slept delay # acts_of ds us"
| "acts_of _ _ = []"

lemma sent_of_append [simp]: "sent_of (xs @ ys) = sent_of xs @ sent_of ys"
  by (induction xs rule: sent_of.induct) auto

lemma sent_of_acts_of: "length ds = length plan \<Longrightarrow> sent_of (acts_of ds plan) = ds"
  by (induction ds plan rule: acts_of.induct) auto

text \<open>Datagrams sent one after the other, with consecutive frame counters.\<close>

fun frames :: "(u16 \<Rightarrow> bytes \<Rightarrow> 'a \<Rightarrow> bool) \<Rightarrow> u16 \<Rightarrow> bytes list \<Rightarrow> 'a list \<Rightarrow> bool" where
  "frames P fc [] [] \<longleftrightarrow> True"
| "frames P fc (d # ds) (x # xs) \<longleftrightarrow> P fc d x \<and> frames P (fc + 1) ds xs"
| "frames P fc _ _ \<longleftrightarrow> False"

lemma frames_length: "frames P fc ds xs \<Longrightarrow> length ds = length xs"
  by (induction P fc ds xs rule: frames.induct) auto

lemma frames_nth: "frames P fc ds xs \<Longrightarrow> i < length xs \<Longrightarrow> P (fc + of_nat i) (ds ! i) (xs ! i)"
proof (induction P fc ds xs arbitrary: i rule: frames.induct)
  case (2 P fc d ds x xs)
  then show ?case by (cases i) (auto simp: add.assoc)
qed auto

lemma frames_list_all2:
  assumes "frames P fc ds xs" and "\<And>fc d x. x \<in> set xs \<Longrightarrow> P fc d x \<Longrightarrow> Q d x"
  shows "list_all2 Q ds xs"
  using assms by (induction P fc ds xs rule: frames.induct) auto

definition carries :: "'pe postcard \<Rightarrow> extend \<Rightarrow> aead \<Rightarrow> u16 \<Rightarrow> bytes \<Rightarrow> Update \<times> Delay \<Rightarrow> bool" where
  "carries pc ext c fc d x \<longleftrightarrow>
     (\<exists>buf. length buf = MIN_PACKET_SIZE \<and> create_update_request pc ext c (fst x) fc buf = Some d)"

text \<open>
  The loop ends on every channel. What it sends is the beginning of a plan of the rest of the image,
  and the whole of it when the channel accepts every datagram.
\<close>

context postcard_format
begin

lemma update_loop_plan:
  assumes "heapless_vec ext" and "aead_cipher c" and "length img \<le> 2 ^ 28"
    and "off \<le> length img" and "length buf = MIN_PACKET_SIZE"
  shows "\<exists>fc' buf' ds plan rest.
      update_loop pc ext c send_ok img (length img) off (threshold_after (length img) off) (fc, buf, acts) =
        Some (fc', buf', acts @ acts_of ds plan @ [if rest = [] then Slept UPDATE_PROCESSING_TIME else Refused buf']) \<and>
      frames (carries pc ext c) fc ds plan \<and> planned img off (plan @ rest) \<and>
      (\<forall>j < length ds. send_ok (acts @ acts_of (take j ds) (take j plan))) \<and>
      (rest \<noteq> [] \<longrightarrow> \<not> send_ok (acts @ acts_of ds plan) \<and> (\<exists>fc. carries pc ext c fc buf' (hd rest)))"
  using assms(4,5)
proof (induction "length img - off" arbitrary: off fc buf acts rule: less_induct)
  case less
  show ?case
  proof (cases "off < length img")
    case False
    then show ?thesis
      using less.prems by (subst update_loop.simps) (auto intro!: exI [of _ "[]"])
  next
    case True
    let ?to = "chunk_end (length img) off" and ?u = "chunk_at img off" and ?delay = "delay_at (length img) off"
    have "unat (byte_offset ?u) < 2 ^ 28"
      using True assms(3) by (simp add: chunk_at_def unat_of_nat)
    then obtain d where d: "create_update_request pc ext c ?u fc buf = Some d" "length d = MIN_PACKET_SIZE"
      using update_request_arrives [OF assms(1,2) less.prems(2), of ?u fc] chunk_step(3) [OF True] length_chunk [OF True]
      by auto
    note step = update_loop_step [OF assms(1) True d(1), of send_ok acts]
    have carries: "carries pc ext c fc d (?u, ?delay)" using d(1) less.prems(2) by (auto simp: carries_def)
    show ?thesis
    proof (cases "send_ok acts")
      case False
      obtain rest where "planned img ?to rest" using planned_exists chunk_step(2) [OF True] by blast
      from planned_chunk [OF True this] carries False show ?thesis
        unfolding step
        by (intro exI [of _ fc] exI [of _ d] exI [of _ "[] :: bytes list"] exI [of _ "[] :: (Update \<times> Delay) list"]
              exI [of _ "(?u, ?delay) # rest"]) (auto simp del: planned.simps)
    next
      case ok: True
      have smaller: "length img - ?to < length img - off" using chunk_step(1,2) [OF True] by simp
      obtain fc' buf' ds plan rest where IH:
        "update_loop pc ext c send_ok img (length img) ?to (threshold_after (length img) ?to)
            (fc + 1, d, acts @ [Sent d, Slept ?delay]) =
          Some (fc', buf', (acts @ [Sent d, Slept ?delay]) @ acts_of ds plan @
            [if rest = [] then Slept UPDATE_PROCESSING_TIME else Refused buf'])"
        "frames (carries pc ext c) (fc + 1) ds plan" "planned img ?to (plan @ rest)"
        "\<forall>j < length ds. send_ok ((acts @ [Sent d, Slept ?delay]) @ acts_of (take j ds) (take j plan))"
        "rest \<noteq> [] \<longrightarrow> \<not> send_ok ((acts @ [Sent d, Slept ?delay]) @ acts_of ds plan) \<and> (\<exists>fc. carries pc ext c fc buf' (hd rest))"
        using less.hyps [OF smaller chunk_step(2) [OF True] d(2), of "fc + 1" "acts @ [Sent d, Slept ?delay]"] by blast
      have "\<forall>j < length (d # ds). send_ok (acts @ acts_of (take j (d # ds)) (take j ((?u, ?delay) # plan)))"
        using IH(4) ok by (auto simp: less_Suc_eq_0_disj)
      then show ?thesis
        unfolding step using ok IH carries planned_chunk [OF True IH(3)]
        by (intro exI [of _ fc'] exI [of _ buf'] exI [of _ "d # ds"] exI [of _ "(?u, ?delay) # plan"] exI [of _ rest]) simp
    qed
  qed
qed

end

section \<open>The server follows the plan\<close>

text \<open>What the server notes of a chunk it expects, and the bytes it has received by its notes.\<close>

fun chunk_notes :: "nat \<Rightarrow> Update \<times> Delay \<Rightarrow> Note list" where
  "chunk_notes n (u, delay) =
     Received (byte_offset u) (update_bytes u) #
       (if unat (byte_offset u) + length (update_bytes u) = n then [FlashingLast, UpdateFinished n]
        else if delay = UPDATE_PROCESSING_TIME then [Flashing] else [])"

fun received :: "Note list \<Rightarrow> bytes" where
  "received [] = []"
| "received (Received _ bs # notes) = bs @ received notes"
| "received (_ # notes) = received notes"

lemma received_append [simp]: "received (xs @ ys) = received xs @ received ys"
  by (induction xs rule: received.induct) auto

abbreviation updates_in :: "'pe postcard \<Rightarrow> extend \<Rightarrow> aead \<Rightarrow> bytes list \<Rightarrow> (Update \<times> Delay) list \<Rightarrow> bool" where
  "updates_in pc ext c ds plan \<equiv>
     list_all2 (\<lambda>d (u, _). process_client_update_request pc ext UPDATE_BYTES_SIZE c d = Some (Some u)) ds plan"

lemma server_recv_update:
  assumes "process_client_update_request pc ext UPDATE_BYTES_SIZE (info_cipher info) d = Some (Some u)"
  shows "server_recv pc ext new_cipher sc v (Some info) d =
    (case process_active_update info u of (finished, info, notes) \<Rightarrow> Some (if finished then None else Some info, notes))"
  using assms by (simp add: server_recv_def)

lemma process_planned:
  assumes "planned img off ((u, delay) # rest)" and "length img < 2 ^ 32"
    and "byte_len info = length img" and "next_byte_offset info = off"
  defines "to \<equiv> off + length (update_bytes u)"
  shows "process_active_update info u =
    (to = length img, info\<lparr>next_byte_offset := to\<rparr>, chunk_notes (length img) (u, delay))"
proof -
  have "unat (byte_offset u) = off" using assms(1,2) by (simp add: Let_def unat_of_nat)
  then show ?thesis
    using assms by (auto simp: process_active_update_def Let_def)
qed

lemma server_loop_append:
  "server_loop pc ext new_cipher sc v st (ds @ es) = do {
     (st, notes) \<leftarrow> server_loop pc ext new_cipher sc v st ds;
     (st, rest) \<leftarrow> server_loop pc ext new_cipher sc v st es;
     Some (st, notes @ rest)
   }"
proof (induction ds arbitrary: st)
  case Nil
  show ?case by (cases "server_loop pc ext new_cipher sc v st es") auto
next
  case (Cons d ds)
  show ?case
    by (cases "server_recv pc ext new_cipher sc v st d") (auto simp: Cons.IH case_prod_unfold)
qed

lemma planned_end: "planned img (length img) plan \<Longrightarrow> plan = []"
  by (cases "(img, length img, plan)" rule: planned.cases) (auto simp: Let_def)

lemma server_loop_plan:
  assumes "planned img off (xs @ rest)" and "updates_in pc ext c ds xs" and "length img < 2 ^ 32"
    and "info_cipher info = c" "byte_len info = length img" "next_byte_offset info = off" and "off < length img"
  shows "\<exists>off'. planned img off' rest \<and>
    server_loop pc ext new_cipher sc v (Some info) ds =
      Some (if off' = length img then None else Some (info\<lparr>next_byte_offset := off'\<rparr>),
            map (chunk_notes (length img)) xs)"
  using assms
proof (induction xs arbitrary: off ds info)
  case Nil
  then show ?case by (intro exI [of _ off]) auto
next
  case (Cons x xs)
  obtain u delay where x: "x = (u, delay)" by (cases x)
  obtain d ds' where ds: "ds = d # ds'" and d: "process_client_update_request pc ext UPDATE_BYTES_SIZE c d = Some (Some u)"
    and ds': "updates_in pc ext c ds' xs"
    using Cons.prems(2) by (auto simp: x list_all2_Cons2)
  define to where "to = off + length (update_bytes u)"
  have plan: "planned img to (xs @ rest)" "to \<le> length img"
    using Cons.prems(1) by (simp_all add: x to_def Let_def)
  have recv: "server_recv pc ext new_cipher sc v (Some info) d =
      Some (if to = length img then None else Some (info\<lparr>next_byte_offset := to\<rparr>), chunk_notes (length img) x)"
    using process_planned [OF Cons.prems(1) [unfolded x append_Cons] Cons.prems(3,5,6)] d Cons.prems(4)
    by (simp add: server_recv_update x to_def)
  show ?case
  proof (cases "to = length img")
    case True
    then have "xs = []" "rest = []"
      using planned_end [of img "xs @ rest"] plan(1) by simp_all
    then show ?thesis using ds' ds recv True by (intro exI [of _ to]) simp
  next
    case False
    obtain off' where "planned img off' rest" and
        "server_loop pc ext new_cipher sc v (Some (info\<lparr>next_byte_offset := to\<rparr>)) ds' =
          Some (if off' = length img then None else Some (info\<lparr>next_byte_offset := to, next_byte_offset := off'\<rparr>),
                map (chunk_notes (length img)) xs)"
      using Cons.IH [OF plan(1) ds' Cons.prems(3), of "info\<lparr>next_byte_offset := to\<rparr>"] Cons.prems(4,5) plan(2) False
      by auto
    then show ?thesis using recv False by (intro exI [of _ off']) (simp add: ds)
  qed
qed

lemma planned_received:
  "planned img off plan \<Longrightarrow> off \<le> length img \<Longrightarrow> received (concat (map (chunk_notes (length img)) plan)) = drop off img"
proof (induction plan arbitrary: off)
  case Nil
  then show ?case by simp
next
  case (Cons x plan)
  obtain u delay where x: "x = (u, delay)" by (cases x)
  have "received (chunk_notes n x) = update_bytes u" for n by (simp add: x)
  moreover have "update_bytes u = take (length (update_bytes u)) (drop off img)"
    and "received (concat (map (chunk_notes (length img)) plan)) = drop (off + length (update_bytes u)) img"
    using Cons.prems Cons.IH by (simp_all add: x Let_def)
  moreover have "drop off img =
      take (length (update_bytes u)) (drop off img) @ drop (off + length (update_bytes u)) img"
    by (metis add.commute append_take_drop_id drop_drop)
  ultimately show ?case by simp
qed

text \<open>The chunk after the next is not the one at the offset expected.\<close>

lemma planned_gap:
  assumes "planned img off (x # y # ys)" and "length img < 2 ^ 32"
  shows "unat (byte_offset (fst y)) \<noteq> off \<and> off < length img"
proof -
  obtain u delay w delay' where xy: "x = (u, delay)" "y = (w, delay')" by (cases x; cases y)
  let ?to = "off + length (update_bytes u)"
  have to: "byte_offset w = of_nat ?to" "off < ?to" "?to \<le> length img"
    using assms(1) by (simp_all add: xy Let_def)
  then have "unat (byte_offset w) = ?to"
    unfolding to(1) using assms(2) by (intro unat_of_nat_u32) linarith
  then show ?thesis using to(2,3) unfolding xy fst_conv by linarith
qed

text \<open>Without an active update, a server that is sent no announcement does nothing.\<close>

lemma server_loop_idle:
  assumes "\<forall>d \<in> set ds. process_client_prepare_for_update_request pc ext sc d = Some None"
  shows "server_loop pc ext new_cipher sc v None ds = Some (None, replicate (length ds) [])"
  using assms by (induction ds) (simp_all add: server_recv_def)

lemma current_version: "CURRENT_VERSION = Some (Version 1 2 0 None)"
  by (simp add: CURRENT_VERSION_def version_from_str_def parse_u8_def dec_digit_def)

section \<open>Only whole images are finished\<close>

text \<open>An update that carries bytes of the image at their place.\<close>

definition part_of :: "bytes \<Rightarrow> Update \<Rightarrow> bool" where
  "part_of img u \<longleftrightarrow> unat (byte_offset u) + length (update_bytes u) \<le> length img \<and>
     take (length (update_bytes u)) (drop (unat (byte_offset u)) img) = update_bytes u"

definition finished_note :: "Note \<Rightarrow> bool" where
  "finished_note note \<longleftrightarrow> (case note of UpdateFinished _ \<Rightarrow> True | _ \<Rightarrow> False)"

lemma process_part:
  assumes "part_of img u" and "byte_len info = length img" and "next_byte_offset info < length img"
  obtains (abandoned) info' where
      "process_active_update info u = (True, info', [Abandoning (byte_offset u) (length (update_bytes u))])"
  | (finished) info' where
      "process_active_update info u =
         (True, info', [Received (byte_offset u) (update_bytes u), FlashingLast, UpdateFinished (length img)])"
      "update_bytes u = drop (next_byte_offset info) img"
  | (partial) ns where
      "process_active_update info u = (False, info\<lparr>next_byte_offset := next_byte_offset info + length (update_bytes u)\<rparr>, ns)"
      "received ns = update_bytes u" "\<not> list_ex finished_note ns"
      "next_byte_offset info + length (update_bytes u) < length img"
      "drop (next_byte_offset info) img = update_bytes u @ drop (next_byte_offset info + length (update_bytes u)) img"
proof -
  let ?off = "next_byte_offset info" and ?len = "length (update_bytes u)"
  consider "unat (byte_offset u) \<noteq> ?off" | "unat (byte_offset u) = ?off" "?off + ?len = length img"
    | "unat (byte_offset u) = ?off" "?off + ?len < length img"
    using assms by (force simp: part_of_def)
  then show ?thesis
  proof cases
    case 1
    then show ?thesis using abandoned by (simp add: process_active_update_def)
  next
    case 2
    then have "update_bytes u = drop ?off img"
      using assms(1) unfolding part_of_def by (metis add_diff_cancel_left' length_drop take_all order_refl)
    with 2 finished assms(2) show ?thesis by (simp add: process_active_update_def Let_def)
  next
    case 3
    then have "drop ?off img = update_bytes u @ drop (?off + ?len) img"
      using assms(1) unfolding part_of_def by (metis add.commute append_take_drop_id drop_drop)
    with 3 partial assms(2) show ?thesis
      by (cases "(?off + ?len) mod UPDATE_BYTES_PROCESSING_THRESHOLD = 0")
         (auto simp: process_active_update_def Let_def finished_note_def)
  qed
qed

text \<open>
  A datagram that, if it decrypts under the update key, carries a part of the image, and that does not
  announce a new update: the server stays in the update, having noted bytes of the image in order, or
  leaves it, and it has finished only if no byte is missing.
\<close>

lemma server_recv_part:
  assumes "process_client_prepare_for_update_request pc ext sc d = Some None"
    and "process_client_update_request pc ext UPDATE_BYTES_SIZE (info_cipher info) d = Some r"
    and "pred_option (part_of img) r" and "byte_len info = length img" and "next_byte_offset info < length img"
  obtains (leaves) ns rest where "server_recv pc ext new_cipher sc v (Some info) d = Some (None, ns)"
      "drop (next_byte_offset info) img = received ns @ rest" "list_ex finished_note ns \<longrightarrow> rest = []"
  | (stays) ns off where
      "server_recv pc ext new_cipher sc v (Some info) d = Some (Some (info\<lparr>next_byte_offset := off\<rparr>), ns)"
      "off < length img" "drop (next_byte_offset info) img = received ns @ drop off img"
      "\<not> list_ex finished_note ns"
proof (cases r)
  case None
  then have "server_recv pc ext new_cipher sc v (Some info) d = Some (Some info, [])"
    using assms(1,2) by (simp add: server_recv_def)
  then show ?thesis using stays [of "next_byte_offset info" "[]"] assms(5) by simp
next
  case (Some u)
  then have recv: "server_recv pc ext new_cipher sc v (Some info) d =
      (case process_active_update info u of (finished, info, notes) \<Rightarrow> Some (if finished then None else Some info, notes))"
    and part: "part_of img u"
    using assms(2,3) by (simp_all add: server_recv_update)
  from part assms(4,5) show ?thesis
  proof (cases rule: process_part)
    case (abandoned info')
    then show ?thesis using recv leaves [of _ "drop (next_byte_offset info) img"] by (simp add: finished_note_def)
  next
    case (finished info')
    then have "server_recv pc ext new_cipher sc v (Some info) d =
        Some (None, [Received (byte_offset u) (update_bytes u), FlashingLast, UpdateFinished (length img)])"
      using recv by simp
    from leaves [OF this, of "[]"] finished(2) show ?thesis by simp
  next
    case (partial ns)
    then show ?thesis using recv stays [of _ ns] by simp
  qed
qed

lemma server_loop_parts:
  assumes "\<forall>d \<in> set ds. process_client_prepare_for_update_request pc ext sc d = Some None"
    and "\<forall>d \<in> set ds. \<exists>r. process_client_update_request pc ext UPDATE_BYTES_SIZE (info_cipher info) d = Some r
           \<and> pred_option (part_of img) r"
    and "byte_len info = length img" and "next_byte_offset info < length img"
  shows "\<exists>st notes rest. server_loop pc ext new_cipher sc v (Some info) ds = Some (st, notes) \<and>
    drop (next_byte_offset info) img = received (concat notes) @ rest \<and>
    (list_ex finished_note (concat notes) \<longrightarrow> rest = [])"
  using assms
proof (induction ds arbitrary: info)
  case Nil
  then show ?case by simp
next
  case (Cons d ds)
  obtain r where r: "process_client_update_request pc ext UPDATE_BYTES_SIZE (info_cipher info) d = Some r"
      "pred_option (part_of img) r"
    using Cons.prems(2) by auto
  have "process_client_prepare_for_update_request pc ext sc d = Some None" using Cons.prems(1) by simp
  from this r Cons.prems(3,4) show ?case
  proof (cases rule: server_recv_part [where new_cipher = new_cipher and v = v])
    case (leaves ns rest)
    moreover have "server_loop pc ext new_cipher sc v None ds = Some (None, replicate (length ds) [])"
      using Cons.prems(1) by (intro server_loop_idle) simp
    ultimately show ?thesis by simp
  next
    case (stays ns off)
    then show ?thesis
      using Cons.IH [of "info\<lparr>next_byte_offset := off\<rparr>"] Cons.prems by fastforce
  qed
qed

section \<open>The announcement\<close>

lemma prepare_newer: "version_gt (update_version (prepare_for_update_of key n)) (Version 1 2 0 None)"
  by (simp add: prepare_for_update_of_def version_gt_def partial_cmp_version_def cmp_version_def cmp_int_def)

lemma server_recv_prepare:
  assumes "process_client_prepare_for_update_request pc ext sc d = Some (Some (prepare_for_update_of key n))"
    and "n < 2 ^ 32"
  shows "server_recv pc ext new_cipher sc (Version 1 2 0 None) None d =
    Some (Some \<lparr>info_cipher = new_cipher key, byte_len = n, next_byte_offset = 0\<rparr>, [UpdatingTo (Version 1 2 3 None)])"
  using assms prepare_newer [of key n]
  by (simp add: server_recv_def activate_update_if_new_version_def)
     (simp add: prepare_for_update_of_def unat_of_nat)

section \<open>Properties\<close>

text \<open>A cipher that rejects everything: the server of a network the datagrams are not for.\<close>

definition foreign_cipher :: aead where
  "foreign_cipher = \<lparr>nonce_size = 7, encrypt_in_place = (\<lambda>_ _ _ _. None), decrypt_in_place = (\<lambda>_ _ _. None)\<rparr>"

lemma foreign_prepare: "process_client_prepare_for_update_request postcard_v1 vec_extend foreign_cipher d = Some None"
  by (simp add: process_client_prepare_for_update_request_def v1.from_datagram_eq foreign_cipher_def split: sum.split)

lemma example_update_datagram:
  assumes "length bs \<le> 27" and "unat n < 2 ^ 28"
  obtains d where "process_client_update_request postcard_v1 vec_extend UPDATE_BYTES_SIZE (check_cipher [9]) d =
    Some (Some \<lparr>byte_offset = n, update_bytes = bs\<rparr>)"
  using v1.update_request_arrives [of vec_extend "check_cipher [9]" "replicate MIN_PACKET_SIZE 0"
      "\<lparr>byte_offset = n, update_bytes = bs\<rparr>" 0] assms
  by (auto simp: update_sizes)

text \<open>
  C7. A server in an update that is sent any datagrams in any order, lost and repeated at will, of
  which those that decrypt under the update key carry bytes of the image at their offset, and of
  which none announces a new update, never panics; the bytes it accepts are a prefix of the image,
  and if it declares the update finished they are the whole image.
\<close>

theorem update_finishes_only_whole:
  assumes "\<forall>d \<in> set ds. process_client_prepare_for_update_request pc ext server_cipher d = Some None"
    and "\<forall>d \<in> set ds. \<exists>r. process_client_update_request pc ext UPDATE_BYTES_SIZE cipher d = Some r
           \<and> pred_option (part_of img) r"
    and "img \<noteq> []"
  shows "\<exists>st notes rest. server_loop pc ext new_cipher server_cipher v
      (Some \<lparr>info_cipher = cipher, byte_len = length img, next_byte_offset = 0\<rparr>) ds = Some (st, notes) \<and>
    img = received (concat notes) @ rest \<and>
    (list_ex finished_note (concat notes) \<longrightarrow> received (concat notes) = img)"
  using server_loop_parts [OF assms(1), of "\<lparr>info_cipher = cipher, byte_len = length img, next_byte_offset = 0\<rparr>" img]
    assms(2,3) by fastforce

theorem update_finishes_only_whole_witness:
  "\<exists>d. process_client_update_request postcard_v1 vec_extend UPDATE_BYTES_SIZE (check_cipher [9]) d =
      Some (Some \<lparr>byte_offset = 0, update_bytes = [1, 2, 3]\<rparr>) \<and>
    (\<exists>st notes rest. server_loop postcard_v1 vec_extend check_cipher foreign_cipher (Version 1 2 0 None)
        (Some \<lparr>info_cipher = check_cipher [9], byte_len = length [1 :: u8, 2, 3], next_byte_offset = 0\<rparr>) [d] =
        Some (st, notes) \<and>
      [1, 2, 3] = received (concat notes) @ rest \<and>
      (list_ex finished_note (concat notes) \<longrightarrow> received (concat notes) = [1, 2, 3]))"
proof -
  obtain d where d: "process_client_update_request postcard_v1 vec_extend UPDATE_BYTES_SIZE (check_cipher [9]) d =
      Some (Some \<lparr>byte_offset = 0, update_bytes = [1, 2, 3]\<rparr>)"
    by (rule example_update_datagram [of "[1, 2, 3]" 0]) simp_all
  then have "\<exists>st notes rest. server_loop postcard_v1 vec_extend check_cipher foreign_cipher (Version 1 2 0 None)
        (Some \<lparr>info_cipher = check_cipher [9], byte_len = length [1 :: u8, 2, 3], next_byte_offset = 0\<rparr>) [d] =
        Some (st, notes) \<and>
      [1, 2, 3] = received (concat notes) @ rest \<and>
      (list_ex finished_note (concat notes) \<longrightarrow> received (concat notes) = [1, 2, 3])"
    by (intro update_finishes_only_whole) (simp_all add: foreign_prepare part_of_def)
  with d show ?thesis by blast
qed

text \<open>
  C19. A server that misses one chunk of the plan follows the chunks before it, abandons the
  update at the next chunk it receives, and ignores all the later ones.
\<close>

theorem lost_chunk_abandons:
  assumes "planned img off (xs @ x # y # ys)" and "updates_in pc ext c ds (xs @ y # ys)"
    and "\<forall>d \<in> set ds. process_client_prepare_for_update_request pc ext server_cipher d = Some None"
    and "length img < 2 ^ 32" and "off < length img"
  shows "server_loop pc ext new_cipher server_cipher v
      (Some \<lparr>info_cipher = c, byte_len = length img, next_byte_offset = off\<rparr>) ds =
    Some (None, map (chunk_notes (length img)) xs @
      [Abandoning (byte_offset (fst y)) (length (update_bytes (fst y)))] # replicate (length ys) [])"
proof -
  let ?info = "\<lparr>info_cipher = c, byte_len = length img, next_byte_offset = off\<rparr>"
  obtain ds1 d ds2 where ds: "ds = ds1 @ d # ds2" "updates_in pc ext c ds1 xs" "updates_in pc ext c ds2 ys"
    and d: "process_client_update_request pc ext UPDATE_BYTES_SIZE c d = Some (Some (fst y))"
    using assms(2) by (auto simp: list_all2_append2 list_all2_Cons2)
  obtain off' where off': "planned img off' (x # y # ys)"
    and run: "server_loop pc ext new_cipher server_cipher v (Some ?info) ds1 =
      Some (if off' = length img then None else Some (?info\<lparr>next_byte_offset := off'\<rparr>), map (chunk_notes (length img)) xs)"
    using server_loop_plan [OF assms(1) ds(2) assms(4), where info = ?info and new_cipher = new_cipher
        and sc = server_cipher and v = v] assms(5) by fastforce
  have gap: "unat (byte_offset (fst y)) \<noteq> off'" "off' \<noteq> length img"
    using planned_gap [OF off' assms(4)] by auto
  have "server_recv pc ext new_cipher server_cipher v (Some (?info\<lparr>next_byte_offset := off'\<rparr>)) d =
      Some (None, [Abandoning (byte_offset (fst y)) (length (update_bytes (fst y)))])"
    using d gap(1) by (simp add: server_recv_update process_active_update_def)
  moreover have "server_loop pc ext new_cipher server_cipher v None ds2 = Some (None, replicate (length ys) [])"
    using server_loop_idle [of ds2 pc ext server_cipher] assms(3) list_all2_lengthD [OF ds(3)] by (simp add: ds(1))
  ultimately show ?thesis using run gap(2) by (simp add: ds(1) server_loop_append)
qed

theorem lost_chunk_abandons_witness:
  "\<exists>d. server_loop postcard_v1 vec_extend check_cipher foreign_cipher (Version 1 2 0 None)
      (Some \<lparr>info_cipher = check_cipher [9], byte_len = length (replicate 30 (1 :: u8)), next_byte_offset = 0\<rparr>) [d] =
    Some (None, [[Abandoning 27 3]])"
proof -
  let ?x = "(\<lparr>byte_offset = 0, update_bytes = replicate 27 1\<rparr>, SERVER_REQUEST_RECEIVE_TIME)"
  let ?y = "(\<lparr>byte_offset = 27, update_bytes = replicate 3 1\<rparr>, UPDATE_PROCESSING_TIME)"
  obtain d where "process_client_update_request postcard_v1 vec_extend UPDATE_BYTES_SIZE (check_cipher [9]) d =
      Some (Some \<lparr>byte_offset = 27, update_bytes = replicate 3 1\<rparr>)"
    by (rule example_update_datagram [of "replicate 3 1" 27]) simp_all
  then have "server_loop postcard_v1 vec_extend check_cipher foreign_cipher (Version 1 2 0 None)
      (Some \<lparr>info_cipher = check_cipher [9], byte_len = length (replicate 30 (1 :: u8)), next_byte_offset = 0\<rparr>) [d] =
    Some (None, map (chunk_notes (length (replicate 30 (1 :: u8)))) [] @
      [Abandoning (byte_offset (fst ?y)) (length (update_bytes (fst ?y)))] # replicate (length ([] :: (Update \<times> Delay) list)) [])"
    by (intro lost_chunk_abandons [where x = ?x])
       (simp_all add: foreign_prepare update_sizes Let_def min_def)
  then show ?thesis by auto
qed

text \<open>
  C24. Whatever datagram it receives, a server starts an update only to a version of higher
  precedence than its own.
\<close>

theorem server_updates_to_newer_only:
  assumes "server_recv pc ext new_cipher server_cipher v active d = Some (active', notes)"
    and "UpdatingTo w \<in> set notes"
  shows "precedence v < precedence w \<and> active' \<noteq> None"
proof -
  have no_note: "UpdatingTo w \<notin> set (snd (snd (process_active_update info u)))" for info u
    by (simp add: process_active_update_def Let_def)
  from assms(1) obtain request where request: "(case request of
       Some (info, update) \<Rightarrow>
         (case process_active_update info update of
            (finished, info, notes) \<Rightarrow> Some (if finished then None else Some info, notes))
     | None \<Rightarrow> do {
         prepare \<leftarrow> process_client_prepare_for_update_request pc ext server_cipher d;
         case Option.bind prepare (\<lambda>p. activate_update_if_new_version new_cipher p v) of
           Some info \<Rightarrow> Some (Some info, [UpdatingTo (update_version (the prepare))])
         | None \<Rightarrow> Some (active, [])
       }) = Some (active', notes)"
    unfolding server_recv_def by (rule bind_eq_SomeE)
  show ?thesis
  proof (cases request)
    case None
    with request assms(2) obtain p where "activate_update_if_new_version new_cipher p v = active'"
      and "w = update_version p" and "active' \<noteq> None"
      by (auto simp: bind_eq_Some_conv split: option.splits)
    then show ?thesis
      by (auto simp: activate_update_if_new_version_def version_gt_iff less_Version_precedence split: if_splits)
  next
    case (Some x)
    obtain info u where "x = (info, u)" by (cases x)
    with Some request have "notes = snd (snd (process_active_update info u))" by (auto split: prod.splits)
    then show ?thesis using no_note assms(2) by simp
  qed
qed

theorem server_updates_to_newer_only_witness:
  "\<exists>d info. server_recv postcard_v1 vec_extend check_cipher (check_cipher [7]) (Version 1 2 0 None) None d =
      Some (Some info, [UpdatingTo (Version 1 2 3 None)])
    \<and> precedence (Version 1 2 0 None) < precedence (Version 1 2 3 None)"
proof -
  let ?p = "prepare_for_update_of (replicate 16 9) 3"
  obtain d where "process_client_prepare_for_update_request postcard_v1 vec_extend (check_cipher [7]) d = Some (Some ?p)"
    using v1.prepare_request_arrives [of vec_extend "check_cipher [7]" "replicate MIN_PACKET_SIZE 0" ?p 0]
    by (auto simp: prepare_for_update_of_def)
  then obtain info where recv: "server_recv postcard_v1 vec_extend check_cipher (check_cipher [7]) (Version 1 2 0 None) None d =
      Some (Some info, [UpdatingTo (Version 1 2 3 None)])"
    by (simp add: server_recv_prepare)
  with server_updates_to_newer_only [OF recv, of "Version 1 2 3 None"] show ?thesis by auto
qed

end
