(* ===== verification/Update_Network.thy ===== *)
theory Update_Network
  imports Update_Protocol
begin

text \<open>
  The update protocol with the client and any number of servers on one line
  (\<open>data/examples/update/main.rs\<close>): every server hears every datagram, its own announcement, those for
  the other servers, which are encrypted under other network keys, and the chunks, which are encrypted
  under the update key. Also what the client sends on a channel that does not accept every datagram,
  and the nonces it uses.
\<close>

section \<open>The program\<close>

text \<open>
  \<open>main\<close> spawns a server and runs the client; the two random keys are arguments. The channel always
  accepts, since \<open>main\<close> holds a receiver of its own, but the server only hears what is sent after its
  task has subscribed: \<open>missed\<close> is the number of datagrams sent before that.
\<close>

definition update_main ::
    "'pe postcard \<Rightarrow> extend \<Rightarrow> (bytes \<Rightarrow> aead) \<Rightarrow> bytes \<Rightarrow> bytes \<Rightarrow> bytes \<Rightarrow> nat
      \<Rightarrow> (UpdateInfo option \<times> Note list list) exec" where
  "update_main pc ext new_cipher img server_network_key key missed = do {
     acts \<leftarrow> client_task pc ext new_cipher (\<lambda>_. True) img key [(1, server_network_key)];
     server_task pc ext new_cipher server_network_key (drop missed (sent_of acts))
   }"

section \<open>The announcements\<close>

definition announces ::
    "'pe postcard \<Rightarrow> extend \<Rightarrow> (bytes \<Rightarrow> aead) \<Rightarrow> bytes \<Rightarrow> nat \<Rightarrow> u16 \<Rightarrow> bytes \<Rightarrow> u8 \<times> bytes \<Rightarrow> bool" where
  "announces pc ext new_cipher key n fc d server \<longleftrightarrow>
     (\<exists>buf. length buf = MIN_PACKET_SIZE \<and>
        create_prepare_update_request pc ext (new_cipher (snd server)) (prepare_for_update_of key n) fc buf = Some d)"

fun announcement_acts :: "bytes list \<Rightarrow> ClientAct list" where
  "announcement_acts [] = []"
| "announcement_acts (d # ds) = Sent d # Slept SERVER_REQUEST_RECEIVE_TIME # announcement_acts ds"

lemma sent_of_announcement_acts [simp]: "sent_of (announcement_acts ds) = ds"
  by (induction ds) auto

text \<open>What the client does for announcements of which the channel accepts some and refuses the others.\<close>

fun attempts :: "(bool \<times> bytes) list \<Rightarrow> ClientAct list" where
  "attempts [] = []"
| "attempts ((accepted, d) # as) =
     (if accepted then [Sent d, Slept SERVER_REQUEST_RECEIVE_TIME] else [Refused d]) @ attempts as"

lemma attempts_append [simp]: "attempts (as @ bs) = attempts as @ attempts bs"
  by (induction as rule: attempts.induct) auto

lemma sent_of_attempts [simp]: "sent_of (attempts as) = map snd (filter fst as)"
  by (induction as rule: attempts.induct) auto

lemma attempts_accepted: "\<forall>a \<in> set as. fst a \<Longrightarrow> attempts as = announcement_acts (map snd as)"
  by (induction as rule: attempts.induct) auto

text \<open>
  The client goes through the servers in order. Each is sent its own announcement, under the number of
  announcements accepted before; it counts as announced exactly when the channel accepts a datagram
  after all that was done so far.
\<close>

definition attempted ::
    "'pe postcard \<Rightarrow> extend \<Rightarrow> (bytes \<Rightarrow> aead) \<Rightarrow> (ClientAct list \<Rightarrow> bool) \<Rightarrow> bytes \<Rightarrow> nat
      \<Rightarrow> (bool \<times> bytes) list \<Rightarrow> (u8 \<times> bytes) list \<Rightarrow> bool" where
  "attempted pc ext new_cipher send_ok key n as servers \<longleftrightarrow> length as = length servers \<and>
     (\<forall>i < length servers.
        announces pc ext new_cipher key n (of_nat (length (filter fst (take i as)))) (snd (as ! i)) (servers ! i) \<and>
        (fst (as ! i) \<longleftrightarrow> send_ok (attempts (take i as))))"

lemma attempted_snoc:
  "length as = length servers \<Longrightarrow> attempted pc ext new_cipher send_ok key n (as @ [a]) (servers @ [server]) \<longleftrightarrow>
     attempted pc ext new_cipher send_ok key n as servers \<and>
     announces pc ext new_cipher key n (of_nat (length (filter fst as))) (snd a) server \<and> (fst a \<longleftrightarrow> send_ok (attempts as))"
  by (auto simp: attempted_def nth_append less_Suc_eq)

lemma frames_snoc:
  "length ds = length xs \<Longrightarrow> frames P fc (ds @ [d]) (xs @ [x]) \<longleftrightarrow> frames P fc ds xs \<and> P (fc + of_nat (length ds)) d x"
  by (induction P fc ds xs rule: frames.induct) (auto simp: add.assoc)

text \<open>So what was sent are the announcements to some of the servers, with the frame counters 0, 1, ...\<close>

lemma attempted_frames:
  assumes "attempted pc ext new_cipher send_ok key n as servers"
  obtains accepted where "frames (announces pc ext new_cipher key n) 0 (map snd (filter fst as)) accepted"
    "set accepted \<subseteq> set servers" "(\<forall>acts. send_ok acts) \<longrightarrow> accepted = servers \<and> (\<forall>a \<in> set as. fst a)"
proof -
  have "\<exists>accepted. frames (announces pc ext new_cipher key n) 0 (map snd (filter fst as)) accepted \<and>
    set accepted \<subseteq> set servers \<and> ((\<forall>acts. send_ok acts) \<longrightarrow> accepted = servers \<and> (\<forall>a \<in> set as. fst a))"
    using assms
  proof (induction servers arbitrary: as rule: rev_induct)
    case Nil
    then show ?case by (auto simp: attempted_def intro!: exI [of _ "[]"])
  next
    case (snoc server servers)
    then obtain bs b where as: "as = bs @ [b]" "length bs = length servers"
      by (cases as rule: rev_cases) (auto simp: attempted_def)
    note now = snoc.prems [unfolded as(1) attempted_snoc [OF as(2)]]
    obtain accepted where IH: "frames (announces pc ext new_cipher key n) 0 (map snd (filter fst bs)) accepted"
        "set accepted \<subseteq> set servers" "(\<forall>acts. send_ok acts) \<longrightarrow> accepted = servers \<and> (\<forall>a \<in> set bs. fst a)"
      using snoc.IH [of bs] now by blast
    then show ?case
      using now frames_snoc [OF frames_length [OF IH(1)], of "announces pc ext new_cipher key n" 0 "snd b" server]
      by (cases "fst b") (auto simp: as(1) intro!: exI [of _ "if fst b then accepted @ [server] else accepted"])
  qed
  then show ?thesis using that by blast
qed

context postcard_format
begin

lemma prepare_servers_announces:
  assumes "heapless_vec ext" and "\<forall>server \<in> set servers. aead_cipher (new_cipher (snd server))" and "length key = 16"
    and "length buf = MIN_PACKET_SIZE"
  shows "\<exists>buf' as. prepare_servers_for_update pc ext new_cipher send_ok servers key n (0, buf, []) =
      Some (of_nat (length (filter fst as)), buf', attempts as) \<and> length buf' = MIN_PACKET_SIZE \<and>
    attempted pc ext new_cipher send_ok key n as servers"
  using assms(2)
proof (induction servers rule: rev_induct)
  case Nil
  then show ?case
    using assms(4) by (auto simp: prepare_servers_for_update_def attempted_def intro!: exI [of _ "[]"])
next
  case (snoc server servers)
  let ?prepare = "prepare_for_update_of key n"
  from snoc obtain buf' as where IH: "prepare_servers_for_update pc ext new_cipher send_ok servers key n (0, buf, []) =
      Some (of_nat (length (filter fst as)), buf', attempts as)" "length buf' = MIN_PACKET_SIZE"
    "attempted pc ext new_cipher send_ok key n as servers"
    by auto
  have "aead_cipher (new_cipher (snd server))" using snoc.prems by simp
  then obtain d where d: "create_prepare_update_request pc ext (new_cipher (snd server)) ?prepare
        (of_nat (length (filter fst as))) buf' = Some d" "length d = MIN_PACKET_SIZE"
    using prepare_request_arrives [OF assms(1) _ IH(2), of _ ?prepare "of_nat (length (filter fst as))"] assms(3)
    by (auto simp: prepare_for_update_of_def)
  let ?as = "as @ [(send_ok (attempts as), d)]"
  have step: "prepare_servers_for_update pc ext new_cipher send_ok (servers @ [server]) key n (0, buf, []) =
      Some (of_nat (length (filter fst ?as)), d, attempts ?as)"
    using IH(1) d(1) by (cases server) (simp add: prepare_servers_for_update_def fold_exec_snoc add.commute)
  have "announces pc ext new_cipher key n (of_nat (length (filter fst as))) d server"
    using d(1) IH(2) by (auto simp: announces_def)
  moreover have "length as = length servers" using IH(3) by (simp add: attempted_def)
  ultimately have "attempted pc ext new_cipher send_ok key n ?as (servers @ [server])"
    using IH(3) by (simp add: attempted_snoc)
  with step d(2) show ?case by blast
qed

text \<open>What the client does: announcements, then chunks, with the frame counter running through.\<close>

lemma client_task_trace:
  assumes "heapless_vec ext" and "\<forall>server \<in> set servers. aead_cipher (new_cipher (snd server))"
    and "aead_cipher (new_cipher key)" and "length key = 16" and "length img \<le> 2 ^ 28"
  obtains as ds plan rest d where
    "client_task pc ext new_cipher send_ok img key servers =
       Some (attempts as @ acts_of ds plan @ [if rest = [] then Slept UPDATE_PROCESSING_TIME else Refused d])"
    "attempted pc ext new_cipher send_ok key (length img) as servers"
    "frames (carries pc ext (new_cipher key)) (of_nat (length (filter fst as))) ds plan" "planned img 0 (plan @ rest)"
    "\<forall>j < length ds. send_ok (attempts as @ acts_of (take j ds) (take j plan))"
    "rest \<noteq> [] \<longrightarrow> \<not> send_ok (attempts as @ acts_of ds plan) \<and> (\<exists>fc. carries pc ext (new_cipher key) fc d (hd rest))"
proof -
  let ?loop = "update_loop pc ext (new_cipher key) send_ok img (length img) 0 (threshold_after (length img) 0)"
  obtain buf' as where prep:
    "prepare_servers_for_update pc ext new_cipher send_ok servers key (length img) (0, replicate MIN_PACKET_SIZE 0, []) =
       Some (of_nat (length (filter fst as)), buf', attempts as)"
    "length buf' = MIN_PACKET_SIZE" "attempted pc ext new_cipher send_ok key (length img) as servers"
    using prepare_servers_announces [OF assms(1,2,4), of "replicate MIN_PACKET_SIZE 0" send_ok "length img"] by auto
  have thr: "min UPDATE_BYTES_PROCESSING_THRESHOLD (length img) = threshold_after (length img) 0"
    by (simp add: threshold_after_def)
  from update_loop_plan [OF assms(1,3,5) _ prep(2), of 0 send_ok "of_nat (length (filter fst as))" "attempts as"]
  obtain fc' d ds plan rest where loop: "?loop (of_nat (length (filter fst as)), buf', attempts as) =
     Some (fc', d, attempts as @ acts_of ds plan @ [if rest = [] then Slept UPDATE_PROCESSING_TIME else Refused d])"
    "frames (carries pc ext (new_cipher key)) (of_nat (length (filter fst as))) ds plan" "planned img 0 (plan @ rest)"
    "\<forall>j < length ds. send_ok (attempts as @ acts_of (take j ds) (take j plan))"
    "rest \<noteq> [] \<longrightarrow> \<not> send_ok (attempts as @ acts_of ds plan) \<and> (\<exists>fc. carries pc ext (new_cipher key) fc d (hd rest))"
    by blast
  have "client_task pc ext new_cipher send_ok img key servers =
      Some (attempts as @ acts_of ds plan @ [if rest = [] then Slept UPDATE_PROCESSING_TIME else Refused d])"
    using prep(1) loop(1) by (simp add: client_task_def update_servers_def thr)
  from that [OF this prep(3) loop(2-5)] show ?thesis .
qed

text \<open>On a channel that accepts every datagram all servers are announced to and the plan is completed.\<close>

lemma client_task_accepted:
  assumes "heapless_vec ext" and "\<forall>server \<in> set servers. aead_cipher (new_cipher (snd server))"
    and "aead_cipher (new_cipher key)" and "length key = 16" and "length img \<le> 2 ^ 28"
  obtains as ds plan where
    "client_task pc ext new_cipher (\<lambda>_. True) img key servers =
       Some (announcement_acts as @ acts_of ds plan @ [Slept UPDATE_PROCESSING_TIME])"
    "frames (announces pc ext new_cipher key (length img)) 0 as servers"
    "frames (carries pc ext (new_cipher key)) (of_nat (length as)) ds plan" "planned img 0 plan"
proof -
  obtain as ds plan rest d where trace: "client_task pc ext new_cipher (\<lambda>_. True) img key servers =
      Some (attempts as @ acts_of ds plan @ [if rest = [] then Slept UPDATE_PROCESSING_TIME else Refused d])"
    and as: "attempted pc ext new_cipher (\<lambda>_. True) key (length img) as servers"
    and ds: "frames (carries pc ext (new_cipher key)) (of_nat (length (filter fst as))) ds plan"
    and rest: "planned img 0 (plan @ rest)" "\<forall>j < length ds. True"
      "rest \<noteq> [] \<longrightarrow> \<not> True \<and> (\<exists>fc. carries pc ext (new_cipher key) fc d (hd rest))"
    by (rule client_task_trace [OF assms, where send_ok = "\<lambda>_. True"])
  obtain accepted where acc: "frames (announces pc ext new_cipher key (length img)) 0 (map snd (filter fst as)) accepted"
      "set accepted \<subseteq> set servers" "(\<forall>acts :: ClientAct list. True) \<longrightarrow> accepted = servers \<and> (\<forall>a \<in> set as. fst a)"
    by (rule attempted_frames [OF as])
  then have ok: "accepted = servers" "\<forall>a \<in> set as. fst a" by simp_all
  then have "filter fst as = as" by (simp add: filter_id_conv)
  then show ?thesis
    using that [of "map snd as" ds plan] trace ds rest acc(1) ok by (simp add: attempts_accepted)
qed

end

section \<open>What becomes of a datagram under the right key and under others\<close>

definition sealed :: "'pe postcard \<Rightarrow> extend \<Rightarrow> aead \<Rightarrow> u16 \<Rightarrow> bytes \<Rightarrow> bool" where
  "sealed pc ext c fc d \<longleftrightarrow>
     (\<exists>p buf. length p \<le> MIN_PAYLOAD_SIZE \<and> to_datagram pc ext c (update_header fc) p buf = Some d)"

lemma planned_mem:
  assumes "planned img off plan" and "x \<in> set plan" and "length img < 2 ^ 32"
  shows "length (update_bytes (fst x)) \<le> UPDATE_BYTES_SIZE" and "unat (byte_offset (fst x)) < length img"
proof -
  have "length (update_bytes (fst x)) \<le> UPDATE_BYTES_SIZE \<and> unat (byte_offset (fst x)) < length img"
    using assms(1,2)
  proof (induction plan arbitrary: off)
    case (Cons y plan)
    obtain u delay where y: "y = (u, delay)" by (cases y)
    have "0 < length (update_bytes u)" "off + length (update_bytes u) \<le> length img"
      using Cons.prems(1) by (simp_all add: y Let_def)
    then have "off < length img" by linarith
    moreover have "byte_offset u = of_nat off" "length (update_bytes u) \<le> UPDATE_BYTES_SIZE"
      using Cons.prems(1) by (simp_all add: y Let_def)
    ultimately show ?case using Cons assms(3) by (auto simp: y Let_def unat_of_nat_u32)
  qed simp
  then show "length (update_bytes (fst x)) \<le> UPDATE_BYTES_SIZE" "unat (byte_offset (fst x)) < length img"
    by simp_all
qed

context postcard_format
begin

lemma written_payload: "unwrap (write_vec pc n v) = Some p \<longleftrightarrow> p = v \<and> length v \<le> n"
  using write_vec [of v n] write_vec_full [of n v] by (cases "length v \<le> n") auto

lemma announces_sealed: "announces pc ext new_cipher key n fc d server \<Longrightarrow> sealed pc ext (new_cipher (snd server)) fc d"
  by (auto simp: announces_def sealed_def create_prepare_update_request_def bind_eq_Some_conv written_payload)

lemma carries_sealed: "carries pc ext c fc d x \<Longrightarrow> sealed pc ext c fc d"
  by (auto simp: carries_def sealed_def create_update_request_def bind_eq_Some_conv written_payload)

lemma announces_prepare:
  assumes "heapless_vec ext" and "aead_cipher (new_cipher (snd server))" and "length key = 16"
    and "announces pc ext new_cipher key n fc d server"
  shows "process_client_prepare_for_update_request pc ext (new_cipher (snd server)) d =
    Some (Some (prepare_for_update_of key n))"
proof -
  obtain buf where buf: "length buf = MIN_PACKET_SIZE"
      "create_prepare_update_request pc ext (new_cipher (snd server)) (prepare_for_update_of key n) fc buf = Some d"
    using assms(4) by (auto simp: announces_def)
  from prepare_request_arrives [OF assms(1,2) buf(1), of "prepare_for_update_of key n" fc] buf(2) assms(3)
  show ?thesis by (auto simp: prepare_for_update_of_def)
qed

lemma carries_update:
  assumes "heapless_vec ext" and "aead_cipher c" and "carries pc ext c fc d x"
    and "length (update_bytes (fst x)) \<le> UPDATE_BYTES_SIZE" and "unat (byte_offset (fst x)) < 2 ^ 28"
  shows "process_client_update_request pc ext UPDATE_BYTES_SIZE c d = Some (Some (fst x))"
proof -
  obtain buf where buf: "length buf = MIN_PACKET_SIZE" "create_update_request pc ext c (fst x) fc buf = Some d"
    using assms(3) by (auto simp: carries_def)
  from update_request_arrives [OF assms(1,2) buf(1) assms(4,5), of fc] buf(2) show ?thesis by auto
qed

lemma planned_updates:
  assumes "heapless_vec ext" and "aead_cipher c" and "frames (carries pc ext c) fc ds plan"
    and "planned img off (plan @ rest)" and "length img \<le> 2 ^ 28"
  shows "updates_in pc ext c ds plan"
proof -
  have n: "length img < 2 ^ 32" using assms(5) by simp
  have "process_client_update_request pc ext UPDATE_BYTES_SIZE c d = Some (Some (fst x))"
    if "x \<in> set plan" "carries pc ext c fc d x" for fc d x
    using carries_update [OF assms(1,2) that(2)] planned_mem [OF assms(4) _ n, of x] that(1) assms(5) by simp
  then show ?thesis
    using frames_list_all2 [OF assms(3)] by (simp add: case_prod_unfold)
qed

lemma sealed_rejected:
  assumes "heapless_vec ext" and "aead_cipher c" and "aead_cipher c'" and "key_separated c c'" and "sealed pc ext c fc d"
  shows "process_client_update_request pc ext n c' d = Some None"
    and "process_client_prepare_for_update_request pc ext c' d = Some None"
proof -
  obtain p buf where p: "length p \<le> MIN_PAYLOAD_SIZE" "to_datagram pc ext c (update_header fc) p buf = Some d"
    using assms(5) by (auto simp: sealed_def)
  then have "length p + 4 < 2 ^ 32" by (simp add: discovery_sizes)
  then obtain e where "from_datagram pc ext d update_filter c' = Some (Inl e)"
    using from_foreign_datagram [OF assms(1,2) _ p(2) assms(4,3)] by blast
  then show "process_client_update_request pc ext n c' d = Some None"
    and "process_client_prepare_for_update_request pc ext c' d = Some None"
    by (simp_all add: process_client_update_request_def process_client_prepare_for_update_request_def)
qed

lemma chunks_rejected:
  assumes "heapless_vec ext" and "aead_cipher c" and "aead_cipher c'" and "key_separated c c'"
    and "frames (carries pc ext c) fc ds plan" and "d \<in> set ds"
  shows "process_client_prepare_for_update_request pc ext c' d = Some None"
proof -
  obtain i where "i < length plan" "d = ds ! i"
    using assms(6) frames_length [OF assms(5)] by (auto simp: in_set_conv_nth)
  then show ?thesis
    using sealed_rejected(2) [OF assms(1-4)] carries_sealed frames_nth [OF assms(5)] by blast
qed

end

text \<open>A server in an update does not notice datagrams that it cannot decrypt.\<close>

lemma server_loop_foreign:
  assumes "\<forall>d \<in> set ds. process_client_prepare_for_update_request pc ext sc d = Some None"
    and "\<forall>d \<in> set ds. process_client_update_request pc ext UPDATE_BYTES_SIZE (info_cipher info) d = Some None"
  shows "server_loop pc ext new_cipher sc v (Some info) ds = Some (Some info, replicate (length ds) [])"
  using assms by (induction ds) (simp_all add: server_recv_def)

section \<open>Properties\<close>

lemma UPDATE_size: "length UPDATE = 102400" "UPDATE \<noteq> []"
  by (simp_all add: UPDATE_def)

text \<open>
  Every server rejects the announcements to the others, under its own network key and under the key
  of the update. With one server there are no others.
\<close>

definition isolated :: "(bytes \<Rightarrow> aead) \<Rightarrow> bytes \<Rightarrow> (u8 \<times> bytes) list \<Rightarrow> bool" where
  "isolated new_cipher key servers \<longleftrightarrow>
     (\<forall>i < length servers. \<forall>j < length servers. i \<noteq> j \<longrightarrow>
        key_separated (new_cipher (snd (servers ! j))) (new_cipher (snd (servers ! i))) \<and>
        key_separated (new_cipher (snd (servers ! j))) (new_cipher key))"

definition announcement_notes :: "nat \<Rightarrow> nat \<Rightarrow> Note list list" where
  "announcement_notes i n = map (\<lambda>j. if j = i then [UpdatingTo (Version 1 2 3 None)] else []) [0..<n]"

lemma announcement_notes_split:
  "i < n \<Longrightarrow> announcement_notes i n =
     replicate i [] @ [UpdatingTo (Version 1 2 3 None)] # replicate (n - Suc i) []"
  by (rule nth_equalityI) (auto simp: announcement_notes_def nth_append nth_Cons split: nat.split)

lemma other_elements:
  assumes "i < length xs" and "x \<in> set (take i xs) \<union> set (drop (Suc i) xs)"
  shows "\<exists>j < length xs. j \<noteq> i \<and> x = xs ! j"
  using assms(2)
proof
  assume "x \<in> set (take i xs)"
  then obtain j where "j < i" "x = xs ! j" by (auto simp: in_set_conv_nth)
  then show ?thesis using assms(1) by (intro exI [of _ j]) simp
next
  assume "x \<in> set (drop (Suc i) xs)"
  then obtain j where "j < length xs - Suc i" "x = xs ! (Suc i + j)" by (auto simp: in_set_conv_nth)
  then show ?thesis by (intro exI [of _ "Suc i + j"]) simp
qed

text \<open>A server among the announcements: it takes its own and ignores the others.\<close>

lemma server_loop_announcements:
  assumes "postcard_format pc" and "heapless_vec ext" and "\<forall>server \<in> set servers. aead_cipher (new_cipher (snd server))"
    and "aead_cipher (new_cipher key)" and "length key = 16" and "n < 2 ^ 32" and "isolated new_cipher key servers"
    and "frames (announces pc ext new_cipher key n) fc as servers" and "i < length servers"
  shows "server_loop pc ext new_cipher (new_cipher (snd (servers ! i))) (Version 1 2 0 None) None as =
    Some (Some \<lparr>info_cipher = new_cipher key, byte_len = n, next_byte_offset = 0\<rparr>, announcement_notes i (length servers))"
proof -
  let ?sc = "new_cipher (snd (servers ! i))" and ?info = "\<lparr>info_cipher = new_cipher key, byte_len = n, next_byte_offset = 0\<rparr>"
  note aead = assms(3) [rule_format, OF nth_mem]
  have len: "length as = length servers" using assms(8) by (rule frames_length)
  have ann: "announces pc ext new_cipher key n (fc + of_nat j) (as ! j) (servers ! j)" if "j < length servers" for j
    using frames_nth [OF assms(8) that] .
  have other: "process_client_update_request pc ext UPDATE_BYTES_SIZE (new_cipher key) (as ! j) = Some None"
    "process_client_prepare_for_update_request pc ext ?sc (as ! j) = Some None"
    if "j < length servers" "j \<noteq> i" for j
    using postcard_format.sealed_rejected [OF assms(1,2) aead [OF that(1)] _ _
        postcard_format.announces_sealed [OF assms(1) ann [OF that(1)]]]
      assms(4,7,9) aead [OF assms(9)] that by (auto simp: isolated_def)
  have others: "\<forall>d \<in> set (take i as) \<union> set (drop (Suc i) as).
      process_client_update_request pc ext UPDATE_BYTES_SIZE (new_cipher key) d = Some None \<and>
      process_client_prepare_for_update_request pc ext ?sc d = Some None"
    using other_elements [of i as] other assms(9) len by metis
  have before: "server_loop pc ext new_cipher ?sc (Version 1 2 0 None) None (take i as) = Some (None, replicate i [])"
    using server_loop_idle [of "take i as" pc ext ?sc] others assms(9) len by simp
  have own: "server_recv pc ext new_cipher ?sc (Version 1 2 0 None) None (as ! i) =
      Some (Some ?info, [UpdatingTo (Version 1 2 3 None)])"
    using server_recv_prepare [OF postcard_format.announces_prepare
        [OF assms(1,2) aead [OF assms(9)] assms(5) ann [OF assms(9)]] assms(6)] .
  have after: "server_loop pc ext new_cipher ?sc (Version 1 2 0 None) (Some ?info) (drop (Suc i) as) =
      Some (Some ?info, replicate (length servers - Suc i) [])"
    using server_loop_foreign [of "drop (Suc i) as" pc ext ?sc ?info] others len by simp
  have "server_loop pc ext new_cipher ?sc (Version 1 2 0 None) None (take i as @ as ! i # drop (Suc i) as) =
      Some (Some ?info, announcement_notes i (length servers))"
    using before own after assms(9) by (simp add: server_loop_append announcement_notes_split)
  moreover have "take i as @ as ! i # drop (Suc i) as = as"
    using assms(9) len by (simp flip: id_take_nth_drop)
  ultimately show ?thesis by simp
qed

text \<open>A server that hears everything follows the update to its end.\<close>

lemma server_task_follows:
  assumes "postcard_format pc" and "heapless_vec ext" and "\<forall>server \<in> set servers. aead_cipher (new_cipher (snd server))"
    and "aead_cipher (new_cipher key)" and "length key = 16" and "isolated new_cipher key servers"
    and "img \<noteq> []" and "length img \<le> 2 ^ 28"
    and as: "frames (announces pc ext new_cipher key (length img)) 0 as servers"
    and ds: "frames (carries pc ext (new_cipher key)) fc ds plan"
    and plan: "planned img 0 (plan @ rest)" "rest = []" and i: "i < length servers"
  shows "server_task pc ext new_cipher (snd (servers ! i)) (as @ ds) =
    Some (None, announcement_notes i (length servers) @ map (chunk_notes (length img)) plan)"
proof -
  let ?info = "\<lparr>info_cipher = new_cipher key, byte_len = length img, next_byte_offset = 0\<rparr>"
  have n: "length img < 2 ^ 32" using assms(8) by simp
  have "updates_in pc ext (new_cipher key) ds plan"
    using postcard_format.planned_updates [OF assms(1,2,4) ds plan(1) assms(8)] .
  then have "server_loop pc ext new_cipher (new_cipher (snd (servers ! i))) (Version 1 2 0 None) (Some ?info) ds =
      Some (None, map (chunk_notes (length img)) plan)"
    using server_loop_plan [of img 0 plan "[]" pc ext "new_cipher key" ds ?info] plan assms(7) n by simp
  then show ?thesis
    using server_loop_announcements [OF assms(1-5) n assms(6) as i]
    by (simp add: server_task_def current_version server_loop_append)
qed

text \<open>
  C2. The update goes through. For a non-empty image of at most 2^28 bytes and any number of
  servers whose ciphers reject each other's datagrams, the client's task returns, and what it does
  is one announcement per server followed by a plan: consecutive chunks of the whole image with a
  long pause after each block of 4096 bytes and after the last chunk. Every server's task on all
  these datagrams neither panics nor abandons, takes its own announcement and no other, receives
  exactly the image, flashes its buffer exactly after the chunks the client pauses long for, the
  last bytes included, finishes and is idle again.
\<close>

theorem update_end_to_end:
  assumes "postcard_format pc" and "heapless_vec ext" and "\<forall>server \<in> set servers. aead_cipher (new_cipher (snd server))"
    and "aead_cipher (new_cipher key)" and "length key = 16" and "isolated new_cipher key servers"
    and "img \<noteq> []" and "length img \<le> 2 ^ 28"
  shows "\<exists>as ds plan acts. client_task pc ext new_cipher (\<lambda>_. True) img key servers = Some acts
    \<and> acts = announcement_acts as @ acts_of ds plan @ [Slept UPDATE_PROCESSING_TIME]
    \<and> planned img 0 plan \<and> length as = length servers \<and> length ds = length plan
    \<and> (\<forall>i < length servers. server_task pc ext new_cipher (snd (servers ! i)) (sent_of acts) =
        Some (None, announcement_notes i (length servers) @ map (chunk_notes (length img)) plan))
    \<and> received (concat (map (chunk_notes (length img)) plan)) = img"
proof -
  obtain as ds plan where trace: "client_task pc ext new_cipher (\<lambda>_. True) img key servers =
       Some (announcement_acts as @ acts_of ds plan @ [Slept UPDATE_PROCESSING_TIME])"
    and as: "frames (announces pc ext new_cipher key (length img)) 0 as servers"
    and ds: "frames (carries pc ext (new_cipher key)) (of_nat (length as)) ds plan" and plan: "planned img 0 plan"
    by (rule postcard_format.client_task_accepted [OF assms(1-5,8)])
  have len: "length as = length servers" "length ds = length plan"
    using frames_length [OF as] frames_length [OF ds] by simp_all
  have "server_task pc ext new_cipher (snd (servers ! i)) (as @ ds) =
      Some (None, announcement_notes i (length servers) @ map (chunk_notes (length img)) plan)"
    if "i < length servers" for i
    using server_task_follows [OF assms as ds _ refl that] plan by simp
  moreover have "received (concat (map (chunk_notes (length img)) plan)) = img"
    using planned_received [OF plan] by simp
  ultimately show ?thesis
    using trace plan len by (fastforce simp: sent_of_acts_of)
qed

theorem update_end_to_end_witness:
  "\<exists>as ds plan acts. client_task postcard_v1 vec_extend check_cipher (\<lambda>_. True) UPDATE (replicate 16 9)
        [(1, replicate 16 7), (2, replicate 16 8)] = Some acts
    \<and> acts = announcement_acts as @ acts_of ds plan @ [Slept UPDATE_PROCESSING_TIME]
    \<and> planned UPDATE 0 plan \<and> length as = length [(1 :: u8, replicate 16 (7 :: u8)), (2, replicate 16 8)]
    \<and> length ds = length plan
    \<and> (\<forall>i < length [(1 :: u8, replicate 16 (7 :: u8)), (2, replicate 16 8)].
        server_task postcard_v1 vec_extend check_cipher (snd ([(1 :: u8, replicate 16 7), (2, replicate 16 8)] ! i)) (sent_of acts) =
        Some (None, announcement_notes i (length [(1 :: u8, replicate 16 (7 :: u8)), (2, replicate 16 8)])
          @ map (chunk_notes (length UPDATE)) plan))
    \<and> received (concat (map (chunk_notes (length UPDATE)) plan)) = UPDATE"
proof -
  have sum: "sum_list (replicate n x) = of_nat n * x" for n and x :: u8
    by (induction n) (simp_all add: algebra_simps)
  have "isolated check_cipher (replicate 16 9) [(1, replicate 16 7), (2, replicate 16 8)]"
    by (auto simp: isolated_def less_Suc_eq sum intro!: key_separated_check_cipher)
  then show ?thesis
    by (intro update_end_to_end) (simp_all add: v1.postcard_format_axioms UPDATE_size)
qed

text \<open>
  C20. The client's update task returns for every image of at most 2^28 bytes and every behaviour
  of the channel, which may accept or refuse each datagram depending on all that was done before.
  It attempts to announce the update to each server in order, with an announcement that this
  server reads, and the announcement is sent, followed by a pause, exactly when the channel
  accepts it; a refused one is passed over. Then it sends a plan of chunks of the image, each
  accepted by the channel, up to the end and a last long pause, or up to the first chunk that the
  channel refuses, which is the next one of the plan.
\<close>

theorem update_client_always_returns:
  assumes "postcard_format pc" and "heapless_vec ext" and "\<forall>server \<in> set servers. aead_cipher (new_cipher (snd server))"
    and "aead_cipher (new_cipher key)" and "length key = 16" and "length img \<le> 2 ^ 28"
  shows "\<exists>as ds plan rest d. client_task pc ext new_cipher send_ok img key servers =
      Some (attempts as @ acts_of ds plan @ [if rest = [] then Slept UPDATE_PROCESSING_TIME else Refused d])
    \<and> length as = length servers
    \<and> (\<forall>i < length servers.
         process_client_prepare_for_update_request pc ext (new_cipher (snd (servers ! i))) (snd (as ! i)) =
           Some (Some (prepare_for_update_of key (length img))) \<and>
         (fst (as ! i) \<longleftrightarrow> send_ok (attempts (take i as))))
    \<and> planned img 0 (plan @ rest) \<and> updates_in pc ext (new_cipher key) ds plan
    \<and> (\<forall>j < length ds. send_ok (attempts as @ acts_of (take j ds) (take j plan)))
    \<and> (rest \<noteq> [] \<longrightarrow> \<not> send_ok (attempts as @ acts_of ds plan) \<and>
         process_client_update_request pc ext UPDATE_BYTES_SIZE (new_cipher key) d = Some (Some (fst (hd rest))))"
proof -
  obtain as ds plan rest d where trace: "client_task pc ext new_cipher send_ok img key servers =
      Some (attempts as @ acts_of ds plan @ [if rest = [] then Slept UPDATE_PROCESSING_TIME else Refused d])"
    and as: "attempted pc ext new_cipher send_ok key (length img) as servers"
    and ds: "frames (carries pc ext (new_cipher key)) (of_nat (length (filter fst as))) ds plan"
    and plan: "planned img 0 (plan @ rest)" "\<forall>j < length ds. send_ok (attempts as @ acts_of (take j ds) (take j plan))"
      "rest \<noteq> [] \<longrightarrow> \<not> send_ok (attempts as @ acts_of ds plan) \<and> (\<exists>fc. carries pc ext (new_cipher key) fc d (hd rest))"
    by (rule postcard_format.client_task_trace [OF assms, where send_ok = send_ok])
  have "updates_in pc ext (new_cipher key) ds plan"
    using postcard_format.planned_updates [OF assms(1,2,4) ds plan(1) assms(6)] .
  moreover have "process_client_prepare_for_update_request pc ext (new_cipher (snd (servers ! i))) (snd (as ! i)) =
      Some (Some (prepare_for_update_of key (length img)))" if "i < length servers" for i
    using postcard_format.announces_prepare [OF assms(1,2), where new_cipher = new_cipher and server = "servers ! i"]
      assms(3,5) as that
    by (auto simp: attempted_def)
  moreover have "process_client_update_request pc ext UPDATE_BYTES_SIZE (new_cipher key) d = Some (Some (fst (hd rest)))"
    if rest: "rest \<noteq> []"
  proof -
    have "length (update_bytes (fst (hd rest))) \<le> UPDATE_BYTES_SIZE" "unat (byte_offset (fst (hd rest))) < 2 ^ 28"
      using planned_mem [OF plan(1), of "hd rest"] rest assms(6) by simp_all
    then show ?thesis using postcard_format.carries_update [OF assms(1,2,4)] plan(3) rest by blast
  qed
  moreover have "length as = length servers" "\<forall>i < length servers. fst (as ! i) \<longleftrightarrow> send_ok (attempts (take i as))"
    using as by (auto simp: attempted_def)
  ultimately show ?thesis using trace plan by blast
qed

theorem update_client_always_returns_witness:
  "\<exists>as ds plan rest d. client_task postcard_v1 vec_extend check_cipher (\<lambda>acts. acts \<noteq> [] \<and> length acts < 9)
      UPDATE (replicate 16 9) [(1, replicate 16 7), (2, replicate 16 8)] =
      Some (attempts as @ acts_of ds plan @ [if rest = [] then Slept UPDATE_PROCESSING_TIME else Refused d])
    \<and> \<not> fst (as ! 0) \<and> fst (as ! 1)
    \<and> process_client_prepare_for_update_request postcard_v1 vec_extend (check_cipher (replicate 16 8)) (snd (as ! 1)) =
        Some (Some (prepare_for_update_of (replicate 16 9) (length UPDATE)))
    \<and> planned UPDATE 0 (plan @ rest) \<and> updates_in postcard_v1 vec_extend (check_cipher (replicate 16 9)) ds plan"
proof -
  let ?servers = "[(1, replicate 16 7), (2, replicate 16 8)] :: (u8 \<times> bytes) list" and ?send_ok = "\<lambda>acts :: ClientAct list. acts \<noteq> [] \<and> length acts < 9"
  have "\<exists>as ds plan rest d. client_task postcard_v1 vec_extend check_cipher ?send_ok UPDATE (replicate 16 9) ?servers =
      Some (attempts as @ acts_of ds plan @ [if rest = [] then Slept UPDATE_PROCESSING_TIME else Refused d])
    \<and> length as = length ?servers
    \<and> (\<forall>i < length ?servers.
         process_client_prepare_for_update_request postcard_v1 vec_extend (check_cipher (snd (?servers ! i))) (snd (as ! i)) =
           Some (Some (prepare_for_update_of (replicate 16 9) (length UPDATE))) \<and>
         (fst (as ! i) \<longleftrightarrow> ?send_ok (attempts (take i as))))
    \<and> planned UPDATE 0 (plan @ rest) \<and> updates_in postcard_v1 vec_extend (check_cipher (replicate 16 9)) ds plan
    \<and> (\<forall>j < length ds. ?send_ok (attempts as @ acts_of (take j ds) (take j plan)))
    \<and> (rest \<noteq> [] \<longrightarrow> \<not> ?send_ok (attempts as @ acts_of ds plan) \<and>
         process_client_update_request postcard_v1 vec_extend UPDATE_BYTES_SIZE (check_cipher (replicate 16 9)) d =
           Some (Some (fst (hd rest))))"
    by (rule update_client_always_returns) (simp_all add: v1.postcard_format_axioms UPDATE_size)
  then obtain as ds plan rest d where *: "client_task postcard_v1 vec_extend check_cipher ?send_ok UPDATE (replicate 16 9) ?servers =
      Some (attempts as @ acts_of ds plan @ [if rest = [] then Slept UPDATE_PROCESSING_TIME else Refused d])"
    "length as = length ?servers" "planned UPDATE 0 (plan @ rest)" "updates_in postcard_v1 vec_extend (check_cipher (replicate 16 9)) ds plan"
    "\<forall>i < length ?servers.
         process_client_prepare_for_update_request postcard_v1 vec_extend (check_cipher (snd (?servers ! i))) (snd (as ! i)) =
           Some (Some (prepare_for_update_of (replicate 16 9) (length UPDATE))) \<and>
         (fst (as ! i) \<longleftrightarrow> ?send_ok (attempts (take i as)))"
    by blast
  from *(5) [rule_format, of 0] have first: "\<not> fst (as ! 0)" by simp
  obtain a b where as: "as = [a, b]" using *(2) by (auto simp: numeral_2_eq_2 length_Suc_conv)
  have "attempts (take 1 as) = [Refused (snd a)]" using first by (cases a) (simp add: as)
  then have "fst (as ! 1)" using *(5) [rule_format, of 1] by simp
  with first * show ?thesis
    by (intro exI [of _ as] exI [of _ ds] exI [of _ plan] exI [of _ rest] exI [of _ d]) auto
qed

text \<open>
  The update example as a whole, with the server subscribing to the channel after the client has sent
  some datagrams: with none missed the server receives exactly the image and finishes; with one or
  more missed the announcement is among them, and the server ignores everything that follows.
\<close>

lemma update_main_outcome:
  assumes "postcard_format pc" and "heapless_vec ext" and "aead_cipher (new_cipher network_key)"
    and "aead_cipher (new_cipher key)" and "length key = 16" and "key_separated (new_cipher key) (new_cipher network_key)"
    and "img \<noteq> []" and "length img \<le> 2 ^ 28"
  shows "\<exists>plan. planned img 0 plan \<and> received (concat (map (chunk_notes (length img)) plan)) = img \<and>
    update_main pc ext new_cipher img network_key key 0 =
      Some (None, [UpdatingTo (Version 1 2 3 None)] # map (chunk_notes (length img)) plan) \<and>
    (\<forall>missed > 0. update_main pc ext new_cipher img network_key key missed =
      Some (None, replicate (Suc (length plan) - missed) []))"
proof -
  let ?servers = "[(1, network_key)]"
  have aead: "\<forall>server \<in> set ?servers. aead_cipher (new_cipher (snd server))" using assms(3) by simp
  have iso: "isolated new_cipher key ?servers" by (simp add: isolated_def)
  obtain as ds plan where trace: "client_task pc ext new_cipher (\<lambda>_. True) img key ?servers =
       Some (announcement_acts as @ acts_of ds plan @ [Slept UPDATE_PROCESSING_TIME])"
    and as: "frames (announces pc ext new_cipher key (length img)) 0 as ?servers"
    and ds: "frames (carries pc ext (new_cipher key)) (of_nat (length as)) ds plan" and plan: "planned img 0 plan"
    by (rule postcard_format.client_task_accepted [OF assms(1,2) aead assms(4,5,8)])
  have len: "length as = 1" "length ds = length plan"
    using frames_length [OF as] frames_length [OF ds] by simp_all
  have sent: "update_main pc ext new_cipher img network_key key missed =
      server_task pc ext new_cipher network_key (drop missed (as @ ds))" for missed
    using trace len(2) by (simp add: update_main_def sent_of_acts_of)
  have main: "update_main pc ext new_cipher img network_key key 0 =
      Some (None, [UpdatingTo (Version 1 2 3 None)] # map (chunk_notes (length img)) plan)"
    unfolding sent using server_task_follows [OF assms(1,2) aead assms(4,5) iso assms(7,8) as ds _ refl, of 0] plan
    by (simp add: announcement_notes_def)
  note chunk = postcard_format.chunks_rejected [OF assms(1,2,4,3,6) ds]
  have "update_main pc ext new_cipher img network_key key missed = Some (None, replicate (Suc (length plan) - missed) [])"
    if "0 < missed" for missed
  proof -
    have "drop missed (as @ ds) = drop (missed - 1) ds" using that len(1) by simp
    moreover have "\<forall>d \<in> set (drop (missed - 1) ds).
        process_client_prepare_for_update_request pc ext (new_cipher network_key) d = Some None"
      using chunk by (auto dest: in_set_dropD)
    ultimately show ?thesis
      unfolding sent using that len(2) by (simp add: server_task_def current_version server_loop_idle)
  qed
  with main show ?thesis
    using plan planned_received [OF plan] by auto
qed

lemma update_main_example:
  "\<exists>plan. planned [1, 2, 3] 0 plan \<and> received (concat (map (chunk_notes (length [1 :: u8, 2, 3])) plan)) = [1, 2, 3] \<and>
    update_main postcard_v1 vec_extend check_cipher [1, 2, 3] (replicate 16 7) (replicate 16 8) 0 =
      Some (None, [UpdatingTo (Version 1 2 3 None)] # map (chunk_notes (length [1 :: u8, 2, 3])) plan) \<and>
    (\<forall>missed > 0. update_main postcard_v1 vec_extend check_cipher [1, 2, 3] (replicate 16 7) (replicate 16 8) missed =
      Some (None, replicate (Suc (length plan) - missed) []))"
proof (rule update_main_outcome)
  have "sum_list (replicate 16 (8 :: u8)) \<noteq> sum_list (replicate 16 (7 :: u8))"
    by (simp add: sum_list_replicate)
  then show "key_separated (check_cipher (replicate 16 8)) (check_cipher (replicate 16 7))"
    by (rule key_separated_check_cipher)
qed (simp_all add: v1.postcard_format_axioms)

section \<open>Nonces\<close>

text \<open>The header of a datagram, and the nonce a receiver derives for it.\<close>

definition sent_header :: "'pe postcard \<Rightarrow> bytes \<Rightarrow> Header option" where
  "sent_header pc d = (case from_bytes (de_DataFrame pc) d of Inl _ \<Rightarrow> None | Inr f \<Rightarrow> ok (parse (header f)))"

definition datagram_nonce :: "'pe postcard \<Rightarrow> bytes \<Rightarrow> bytes option" where
  "datagram_nonce pc d =
     (case from_bytes (de_DataFrame pc) d of
        Inl _ \<Rightarrow> None
      | Inr f \<Rightarrow> Some (new_nonce (header f) (max (length (encrypted_payload f)) MIC_SIZE - MIC_SIZE)))"

context postcard_format
begin

lemma sealed_header_nonce:
  assumes "heapless_vec ext" and "aead_cipher c" and "sealed pc ext c fc d"
  obtains n where "sent_header pc d = Some (update_header fc)"
    "datagram_nonce pc d = Some (new_nonce (to_packed (update_header fc)) n)"
proof -
  obtain p buf where p: "length p \<le> MIN_PAYLOAD_SIZE" "to_datagram pc ext c (update_header fc) p buf = Some d"
    using assms(3) by (auto simp: sealed_def)
  then have "length p + 4 < 2 ^ 32" by (simp add: discovery_sizes)
  from frame_of_datagram [OF assms(1,2) this p(2)] obtain ct where
    "from_bytes (de_DataFrame pc) d = Inr \<lparr>header = to_packed (update_header fc), encrypted_payload = ct\<rparr>"
    by blast
  then show ?thesis
    by (intro that) (simp_all add: sent_header_def datagram_nonce_def parse_to_packed)
qed

end

lemma update_nonce_inject:
  assumes "new_nonce (to_packed (update_header (of_nat i))) n = new_nonce (to_packed (update_header (of_nat j))) m"
    and "i < 2 ^ 16" and "j < 2 ^ 16"
  shows "i = j"
proof -
  have "to_packed (update_header (of_nat i)) = to_packed (update_header (of_nat j))"
    using assms(1) by (cases "to_packed (update_header (of_nat i))"; cases "to_packed (update_header (of_nat j))") simp
  then have "(of_nat i :: u16) = of_nat j"
    using parse_to_packed [of "update_header (of_nat i)"] parse_to_packed [of "update_header (of_nat j)"]
    by (simp add: update_header_def)
  then show ?thesis using assms(2,3) by (simp add: word_of_nat_eq_iff take_bit_eq_mod)
qed

text \<open>Every datagram of the client is sealed, the \<open>i\<close>-th one with frame counter \<open>i\<close>.\<close>

lemma client_task_sealed:
  assumes "postcard_format pc" and "heapless_vec ext" and "\<forall>server \<in> set servers. aead_cipher (new_cipher (snd server))"
    and "aead_cipher (new_cipher key)" and "length key = 16" and "length img \<le> 2 ^ 28"
    and "client_task pc ext new_cipher send_ok img key servers = Some acts" and "i < length (sent_of acts)"
  obtains c where "aead_cipher c" "sealed pc ext c (of_nat i) (sent_of acts ! i)"
proof -
  obtain bs ds plan rest d where trace: "client_task pc ext new_cipher send_ok img key servers =
      Some (attempts bs @ acts_of ds plan @ [if rest = [] then Slept UPDATE_PROCESSING_TIME else Refused d])"
    and bs: "attempted pc ext new_cipher send_ok key (length img) bs servers"
    and ds: "frames (carries pc ext (new_cipher key)) (of_nat (length (filter fst bs))) ds plan"
    and "planned img 0 (plan @ rest)" "\<forall>j < length ds. send_ok (attempts bs @ acts_of (take j ds) (take j plan))"
      "rest \<noteq> [] \<longrightarrow> \<not> send_ok (attempts bs @ acts_of ds plan) \<and> (\<exists>fc. carries pc ext (new_cipher key) fc d (hd rest))"
    by (rule postcard_format.client_task_trace [OF assms(1-6), where send_ok = send_ok])
  let ?as = "map snd (filter fst bs)"
  obtain accepted where as: "frames (announces pc ext new_cipher key (length img)) 0 ?as accepted" "set accepted \<subseteq> set servers"
    by (rule attempted_frames [OF bs])
  have sent: "sent_of acts = ?as @ ds"
    using trace assms(7) frames_length [OF ds] by (auto simp: sent_of_acts_of)
  show ?thesis
  proof (cases "i < length ?as")
    case True
    then have i: "i < length accepted" using frames_length [OF as(1)] by simp
    then have "accepted ! i \<in> set servers" using as(2) nth_mem by blast
    with frames_nth [OF as(1) i] True show ?thesis
      using that postcard_format.announces_sealed [OF assms(1)] assms(3) by (fastforce simp: sent nth_append)
  next
    case False
    then have "i - length ?as < length plan" using assms(8) frames_length [OF ds] by (simp add: sent)
    from frames_nth [OF ds this] False show ?thesis
      using that [OF assms(4)] postcard_format.carries_sealed [OF assms(1)]
      by (simp add: sent nth_append flip: of_nat_add)
  qed
qed

text \<open>
  C23. The i-th datagram the update client sends carries the frame counter i (modulo 2^16),
  announcements and chunks alike, so as long as it sends no more than 65536 datagrams no two of
  them have the same nonce.
\<close>

theorem update_nonces_distinct:
  assumes "postcard_format pc" and "heapless_vec ext" and "\<forall>server \<in> set servers. aead_cipher (new_cipher (snd server))"
    and "aead_cipher (new_cipher key)" and "length key = 16" and "length img \<le> 2 ^ 28"
    and "client_task pc ext new_cipher send_ok img key servers = Some acts"
  shows "(\<forall>i < length (sent_of acts). sent_header pc (sent_of acts ! i) = Some (update_header (of_nat i))) \<and>
    (length (sent_of acts) \<le> 2 ^ 16 \<longrightarrow> distinct (map (datagram_nonce pc) (sent_of acts)))"
proof -
  have both: "\<exists>n. sent_header pc (sent_of acts ! i) = Some (update_header (of_nat i)) \<and>
      datagram_nonce pc (sent_of acts ! i) = Some (new_nonce (to_packed (update_header (of_nat i))) n)"
    if i: "i < length (sent_of acts)" for i
    using client_task_sealed [OF assms i] postcard_format.sealed_header_nonce [OF assms(1,2)] by metis
  moreover have "distinct (map (datagram_nonce pc) (sent_of acts))" if "length (sent_of acts) \<le> 2 ^ 16"
    unfolding distinct_conv_nth
  proof (intro allI impI)
    fix i j
    assume "i < length (map (datagram_nonce pc) (sent_of acts))" "j < length (map (datagram_nonce pc) (sent_of acts))" "i \<noteq> j"
    with both [of i] both [of j] that update_nonce_inject [of i _ j]
    show "map (datagram_nonce pc) (sent_of acts) ! i \<noteq> map (datagram_nonce pc) (sent_of acts) ! j" by fastforce
  qed
  ultimately show ?thesis by blast
qed

theorem update_nonces_distinct_witness:
  "\<exists>acts. client_task postcard_v1 vec_extend check_cipher (\<lambda>_. True) UPDATE (replicate 16 9) [(1, replicate 16 7)] = Some acts \<and>
    (\<forall>i < length (sent_of acts). sent_header postcard_v1 (sent_of acts ! i) = Some (update_header (of_nat i))) \<and>
    (length (sent_of acts) \<le> 2 ^ 16 \<longrightarrow> distinct (map (datagram_nonce postcard_v1) (sent_of acts)))"
proof -
  obtain acts where acts: "client_task postcard_v1 vec_extend check_cipher (\<lambda>_. True) UPDATE (replicate 16 9)
      [(1, replicate 16 7)] = Some acts"
    using v1.client_task_accepted [of vec_extend "[(1, replicate 16 7)]" check_cipher "replicate 16 9" UPDATE]
    by (auto simp: UPDATE_size)
  have "(\<forall>i < length (sent_of acts). sent_header postcard_v1 (sent_of acts ! i) = Some (update_header (of_nat i))) \<and>
    (length (sent_of acts) \<le> 2 ^ 16 \<longrightarrow> distinct (map (datagram_nonce postcard_v1) (sent_of acts)))"
    by (rule update_nonces_distinct [OF v1.postcard_format_axioms heapless_vec_extend _ _ _ _ acts])
       (simp_all add: UPDATE_size)
  with acts show ?thesis by blast
qed

end
