(* ===== verification/Robustness.thy ===== *)
theory Robustness
  imports Discovery_Protocol Update_Network
begin

unbundle bit_operations_syntax

text \<open>
  What arrives from the network is well formed once it is decoded, and nothing that arrives makes a
  task panic: whatever the bytes of a datagram, who sent it and under which key. The decoders are those
  of the messages of discovery and update; the tasks are those of the two examples.
\<close>

section \<open>Decoded values\<close>

text \<open>The results of sequenced decoders.\<close>

lemma de_then_eq_Inr: "de_then d k b = Inr (y, r) \<longleftrightarrow> (\<exists>x r'. d b = Inr (x, r') \<and> k x r' = Inr (y, r))"
  by (auto simp: de_then_def)

lemma de_return_eq_Inr: "de_return x b = Inr (y, r) \<longleftrightarrow> y = x \<and> r = b"
  by (auto simp: de_return_def)

lemma from_bytes_eq_Inr: "from_bytes d b = Inr x \<longleftrightarrow> (\<exists>r. d b = Inr (x, r))"
  by (auto simp: from_bytes_def)

lemmas decoded = de_then_eq_Inr de_return_eq_Inr from_bytes_eq_Inr

lemma de_array_length: "de_array pc n b = Inr (bs, r) \<Longrightarrow> length bs = n"
  by (induction n arbitrary: b bs) (auto simp: decoded)

lemma de_vec_length: "de_vec pc n b = Inr (bs, r) \<Longrightarrow> length bs \<le> n"
  by (auto simp: de_vec_def decoded de_error_def dest: de_array_length split: if_splits)

lemma decoded_Identify: "from_bytes (de_Identify pc) b = Inr m \<Longrightarrow> identify_ok m"
  by (auto simp: de_Identify_def decoded identify_ok_def dest: de_array_length)

lemma decoded_PrepareForUpdate: "from_bytes (de_PrepareForUpdate pc) b = Inr p \<Longrightarrow> length (key_bytes (update_key p)) = 16"
  by (auto simp: de_PrepareForUpdate_def decoded dest: de_array_length)

lemma decoded_Update: "from_bytes (de_Update pc n) b = Inr u \<Longrightarrow> length (update_bytes u) \<le> n"
  by (auto simp: de_Update_def decoded dest: de_vec_length)

definition header_ok :: "Header \<Rightarrow> bool" where
  "header_ok h \<longleftrightarrow> version h = 0 \<and> server_port h \<le> 7"

lemma parsed_header: "parse p = Inr h \<Longrightarrow> header_ok h"
proof -
  have "ucast (x AND 7 :: u32) \<le> (7 :: u8)" for x
  proof -
    have "(ucast (x AND 7) :: u8) = ucast x AND mask 3"
      by (rule bit_word_eqI) (auto simp: bit_simps mask_numerals(2))
    then show ?thesis
      using word_and_le1 [of "ucast x :: u8" "mask 3"] by (simp add: mask_eq_exp_minus_1)
  qed
  then show "parse p = Inr h \<Longrightarrow> header_ok h"
    by (cases p) (auto simp: header_ok_def Let_def split: if_splits)
qed

section \<open>Tasks\<close>

context postcard_format
begin

lemma discovery_server_total:
  assumes "heapless_vec ext" and "aead_cipher c"
  shows "\<exists>own' reply rng'. discovery_server_task pc ext c next_u32 d fc own rng = Some (own', reply, rng')"
proof -
  obtain r where r: "process_client_request pc ext c d = Some r"
    by (simp add: process_client_request_def from_datagram_eq [OF assms(1) aead_cipherD(1) [OF assms(2)]])
  show ?thesis
  proof (cases r)
    case None
    with r show ?thesis by (simp add: discovery_server_task_def)
  next
    case (Some m)
    have ok: "identify_ok m"
      using r Some by (auto simp: process_client_request_def bind_eq_Some_conv dest: decoded_Identify)
    show ?thesis
    proof (cases "known_addresses m = UNIV \<or> (\<exists>a \<in> known_addresses m. own = Some a)")
      case True
      have "discovery_server_task pc ext c next_u32 d fc own rng = Some (own, None, rng)"
        by (rule server_task_keep [OF _ ok True]) (simp add: r Some)
      then show ?thesis by simp
    next
      case False
      with server_task_unknown [OF assms _ ok, of d own next_u32 fc rng] r Some show ?thesis by fastforce
    qed
  qed
qed

lemma discovery_client_total:
  assumes "heapless_vec ext" and "aead_cipher c" and "identify_ok m"
  shows "\<exists>finished m' sent. discovery_client_task pc ext c send_ok arrived fc m = Some (finished, m', sent) \<and> identify_ok m' \<and>
    known_addresses m \<subseteq> known_addresses m'"
proof (cases send_ok)
  case True
  obtain rs where "replies_read pc ext c arrived rs" using replies_read_total [OF assms(1,2)] by blast
  then obtain m' request where "discovery_client_task pc ext c True arrived fc m =
       Some (None \<notin> set rs \<and> (\<forall>a. count_list (heard rs) a \<le> 1), m',
             Some (request, int (card (known_addresses m')) - 1))"
    "identify_ok m'" "known_addresses m' = known_addresses m \<union> {a. count_list (heard rs) a = 1}"
    by (rule client_task_result [OF assms, where fc = fc])
  with True show ?thesis by simp
next
  case False
  obtain d where "create_client_request pc ext c m fc (replicate MIN_PACKET_SIZE 0) = Some d"
    by (rule client_request_arrives [OF assms])
  with False assms(3) show ?thesis by (auto simp: discovery_client_task_def)
qed

lemma update_server_total:
  assumes "heapless_vec ext" and "aead_cipher sc" and "\<forall>k. length k = 16 \<longrightarrow> aead_cipher (new_cipher k)"
    and "pred_option (\<lambda>info. aead_cipher (info_cipher info)) active"
  shows "\<exists>active' ns. server_recv pc ext new_cipher sc v active d = Some (active', ns) \<and>
    pred_option (\<lambda>info. aead_cipher (info_cipher info)) active'"
proof -
  have upd: "\<exists>r. process_client_update_request pc ext UPDATE_BYTES_SIZE c d = Some r" if "aead_cipher c" for c
    by (simp add: process_client_update_request_def from_datagram_eq [OF assms(1) aead_cipherD(1) [OF that]])
  obtain p where p: "process_client_prepare_for_update_request pc ext sc d = Some p"
    by (simp add: process_client_prepare_for_update_request_def from_datagram_eq [OF assms(1) aead_cipherD(1) [OF assms(2)]])
  have key: "pred_option (\<lambda>p. length (key_bytes (update_key p)) = 16) p"
  proof (cases p)
    case (Some q)
    with p show ?thesis
      by (auto simp: process_client_prepare_for_update_request_def bind_eq_Some_conv intro: decoded_PrepareForUpdate)
  qed simp
  have prepare: "\<exists>active' ns. (case Option.bind p (\<lambda>p. activate_update_if_new_version new_cipher p v) of
           Some info \<Rightarrow> Some (Some info, [UpdatingTo (update_version (the p))])
         | None \<Rightarrow> Some (active, [])) = Some (active', ns) \<and> pred_option (\<lambda>info. aead_cipher (info_cipher info)) active'"
    using key assms(3,4) by (cases p) (auto simp: activate_update_if_new_version_def)
  show ?thesis
  proof (cases active)
    case None
    from prepare show ?thesis unfolding None by (simp add: server_recv_def p)
  next
    case (Some info)
    then obtain r where r: "process_client_update_request pc ext UPDATE_BYTES_SIZE (info_cipher info) d = Some r"
      using upd assms(4) by auto
    show ?thesis
    proof (cases r)
      case None
      from prepare show ?thesis unfolding Some by (simp add: server_recv_def p r None)
    next
      case u: (Some u)
      have "info_cipher (fst (snd (process_active_update info u))) = info_cipher info"
        by (simp add: process_active_update_def Let_def)
      with r u Some assms(4) show ?thesis
        by (auto simp: server_recv_def split: prod.split)
    qed
  qed
qed

end

section \<open>Properties\<close>

text \<open>
  What the decoders accept, from any bytes, has the shape its type promises: the bit field of Identify has its
  32 bytes, the key of PrepareForUpdate 16, the chunk of Update at most the capacity of its
  vector, and a parsed header has version 0 and a port of three bits.
\<close>

lemma decoded_values_well_formed:
  "(from_bytes (de_Identify pc) b = Inr m \<longrightarrow> identify_ok m) \<and>
   (from_bytes (de_PrepareForUpdate pc) b = Inr p \<longrightarrow> length (key_bytes (update_key p)) = 16) \<and>
   (from_bytes (de_Update pc n) b = Inr u \<longrightarrow> length (update_bytes u) \<le> n) \<and>
   (parse packed = Inr h \<longrightarrow> version h = 0 \<and> server_port h \<le> 7)"
  using decoded_Identify decoded_PrepareForUpdate decoded_Update parsed_header [of packed h]
  by (auto simp: header_ok_def)

lemma decoded_values_well_formed_example:
  "identify_ok \<lparr>addresses = replicate 32 7\<rparr> \<and>
   length (key_bytes (UpdateKey (replicate 16 9))) = 16 \<and> length [1 :: u8, 2, 3] \<le> 27 \<and>
   version \<lparr>version = 0, source = Server, server_address = 255, server_port = 7, frame_counter = 1\<rparr> = 0 \<and>
   server_port \<lparr>version = 0, source = Server, server_address = 255, server_port = 7, frame_counter = 1\<rparr> \<le> 7"
proof -
  let ?m = "\<lparr>addresses = replicate 32 7\<rparr>" and ?u = "\<lparr>byte_offset = 5, update_bytes = [1, 2, 3]\<rparr>"
  let ?p = "\<lparr>update_version = Version 1 2 3 None, update_ports = 4, update_key = UpdateKey (replicate 16 9),
    update_byte_len = 3, is_signed = False\<rparr>"
  let ?h = "\<lparr>version = 0, source = Server, server_address = 255, server_port = 7, frame_counter = 1\<rparr>"
  have "from_bytes (de_Identify postcard_v1) (ser_Identify postcard_v1 ?m @ []) = Inr ?m"
    by (rule v1.identify.from_bytes_ser) (simp add: identify_ok_def discovery_sizes)
  moreover have "from_bytes (de_PrepareForUpdate postcard_v1) (ser_PrepareForUpdate postcard_v1 ?p @ []) = Inr ?p"
    by (rule v1.prepare.from_bytes_ser) simp
  moreover have "from_bytes (de_Update postcard_v1 27) (ser_Update postcard_v1 ?u @ []) = Inr ?u"
    by (rule v1.update.from_bytes_ser) simp
  moreover have "parse (0, 1, 63, 252) = Inr ?h" by simp
  ultimately show ?thesis
    using decoded_values_well_formed [of postcard_v1 "ser_Identify postcard_v1 ?m @ []" ?m]
      decoded_values_well_formed [of postcard_v1 "ser_PrepareForUpdate postcard_v1 ?p @ []" _ ?p]
      decoded_values_well_formed [of postcard_v1 "ser_Update postcard_v1 ?u @ []" _ _ 27 ?u "(0, 1, 63, 252)" ?h]
    by auto
qed

text \<open>
  C8. Whatever bytes arrive, from whomever and under whichever key, no task of the two examples of
  the data layer panics: the discovery server gives its next state, the discovery client keeps a
  well-formed bit field that only grows, and the update server's next state holds a usable cipher
  again, so the argument applies to all later datagrams.
\<close>

theorem no_datagram_panics:
  assumes "postcard_format pc" and "heapless_vec ext" and "aead_cipher c" and "\<forall>k. length k = 16 \<longrightarrow> aead_cipher (new_cipher k)"
    and "identify_ok m" and "pred_option (\<lambda>info. aead_cipher (info_cipher info)) active"
  shows "(\<exists>own' reply rng'. discovery_server_task pc ext c next_u32 d fc own rng = Some (own', reply, rng')) \<and>
    (\<exists>finished m' sent. discovery_client_task pc ext c send_ok arrived fc m = Some (finished, m', sent) \<and> identify_ok m' \<and>
       known_addresses m \<subseteq> known_addresses m') \<and>
    (\<exists>active' ns. server_recv pc ext new_cipher c v active d = Some (active', ns) \<and>
       pred_option (\<lambda>info. aead_cipher (info_cipher info)) active')"
  by (intro conjI postcard_format.discovery_server_total [OF assms(1-3)]
    postcard_format.discovery_client_total [OF assms(1-3,5)] postcard_format.update_server_total [OF assms(1-4,6)])

theorem no_datagram_panics_witness:
  "(\<exists>own' reply rng'. discovery_server_task postcard_v1 vec_extend (check_cipher [7]) (\<lambda>r :: u32. (r, r)) [1, 2, 3] 0 None 5 =
      Some (own', reply, rng')) \<and>
    (\<exists>finished m' sent. discovery_client_task postcard_v1 vec_extend (check_cipher [7]) True [[], [1, 2, 3]] 0 no_addresses =
      Some (finished, m', sent) \<and> identify_ok m' \<and> known_addresses no_addresses \<subseteq> known_addresses m') \<and>
    (\<exists>active' ns. server_recv postcard_v1 vec_extend check_cipher (check_cipher [7]) (Version 1 2 0 None) None [1, 2, 3] =
      Some (active', ns) \<and> pred_option (\<lambda>info. aead_cipher (info_cipher info)) active')"
  by (rule no_datagram_panics) (simp_all add: v1.postcard_format_axioms)

end
