(* ===== verification/Update_Channel.thy ===== *)
theory Update_Channel
  imports Update_Network "HOL-Library.Sublist"
begin

text \<open>
  The update example as its runtime runs it (\<open>data/examples/update/main.rs\<close>): the client sends into a
  broadcast channel of 256 datagrams while the server's task takes its turns whenever the scheduler
  gives it one. A schedule decides when the server subscribes and how far it falls behind; the channel
  overwrites what a receiver has not read in time, and tells it so once.
\<close>

section \<open>The broadcast channel\<close>

text \<open>
  \<open>tokio::sync::broadcast\<close>, with the one receiver that reads: \<open>main\<close> keeps another, which only keeps
  the channel open. \<open>RecvError::Closed\<close> does not arise, because the server's task holds a sender
  itself; \<open>Pending\<close> stands for a call of \<open>recv\<close> that is still waiting.
\<close>

datatype RecvResult = RecvOk bytes | Lagged nat | Pending

record 'c broadcast =
  bc_channel :: "nat \<Rightarrow> 'c"
  bc_send :: "bytes \<Rightarrow> 'c \<Rightarrow> 'c"
  bc_subscribe :: "'c \<Rightarrow> 'c"
  bc_recv :: "'c \<Rightarrow> RecvResult \<times> 'c"

text \<open>
  The contract: \<open>unread\<close> is what has been sent since the receiver's position, \<open>capacity\<close> how much of it
  the channel retains. A receiver further behind is told how many datagrams it lost and moved to the
  oldest one retained.
\<close>

locale broadcast_channel =
  fixes bc :: "'c broadcast" and capacity :: "'c \<Rightarrow> nat" and unread :: "'c \<Rightarrow> bytes list"
  assumes channel: "unread (bc_channel bc n) = []" "capacity (bc_channel bc n) = n"
    and send: "unread (bc_send bc d c) = unread c @ [d]" "capacity (bc_send bc d c) = capacity c"
    and subscribe: "unread (bc_subscribe bc c) = []" "capacity (bc_subscribe bc c) = capacity c"
    and recv_pending: "unread c = [] \<Longrightarrow> bc_recv bc c = (Pending, c)"
    and recv_ok: "unread c = d # ds \<Longrightarrow> length (unread c) \<le> capacity c \<Longrightarrow>
      \<exists>c'. bc_recv bc c = (RecvOk d, c') \<and> unread c' = ds \<and> capacity c' = capacity c"
    and recv_lagged: "capacity c < length (unread c) \<Longrightarrow>
      \<exists>c'. bc_recv bc c = (Lagged (length (unread c) - capacity c), c') \<and>
        unread c' = drop (length (unread c) - capacity c) (unread c) \<and> capacity c' = capacity c"

text \<open>The channel as its documentation describes it: all the datagrams sent, and the receiver's position.\<close>

record Ring =
  ring_size :: nat
  ring_sent :: "bytes list"
  ring_pos :: nat

definition ring_unread :: "Ring \<Rightarrow> bytes list" where
  "ring_unread c = drop (ring_pos c) (ring_sent c)"

definition ring :: "Ring broadcast" where
  "ring = \<lparr>bc_channel = (\<lambda>n. \<lparr>ring_size = n, ring_sent = [], ring_pos = 0\<rparr>),
     bc_send = (\<lambda>d c. c\<lparr>ring_sent := ring_sent c @ [d], ring_pos := min (ring_pos c) (length (ring_sent c))\<rparr>),
     bc_subscribe = (\<lambda>c. c\<lparr>ring_pos := length (ring_sent c)\<rparr>),
     bc_recv = (\<lambda>c.
       let missed = length (ring_unread c) - ring_size c in
       if ring_unread c = [] then (Pending, c)
       else if 0 < missed then (Lagged missed, c\<lparr>ring_pos := ring_pos c + missed\<rparr>)
       else (RecvOk (hd (ring_unread c)), c\<lparr>ring_pos := ring_pos c + 1\<rparr>))\<rparr>"

interpretation ring: broadcast_channel ring ring_size ring_unread
proof unfold_locales
  fix c :: Ring and d ds
  assume "ring_unread c = d # ds" "length (ring_unread c) \<le> ring_size c"
  moreover from this have "drop (Suc (ring_pos c)) (ring_sent c) = ds"
    unfolding ring_unread_def by (metis drop_Suc list.sel(3) tl_drop)
  ultimately show "\<exists>c'. bc_recv ring c = (RecvOk d, c') \<and> ring_unread c' = ds \<and> ring_size c' = ring_size c"
    by (simp add: ring_def Let_def) (simp add: ring_unread_def)
next
  fix c :: Ring
  assume "ring_size c < length (ring_unread c)"
  then show "\<exists>c'. bc_recv ring c = (Lagged (length (ring_unread c) - ring_size c), c') \<and>
      ring_unread c' = drop (length (ring_unread c) - ring_size c) (ring_unread c) \<and> ring_size c' = ring_size c"
    by (auto simp: ring_def Let_def) (simp add: ring_unread_def add.commute)
qed (auto simp: ring_def ring_unread_def min_def)

section \<open>The two tasks on a schedule\<close>

definition UPDATE_CHANNEL_SIZE :: nat where "UPDATE_CHANNEL_SIZE = 256"

text \<open>
  The server's task: spawned and not yet run, in its loop with the update that is active, or returned.
  A turn of the scheduler is the client's next datagram or a turn of the server's task: up to its first
  \<open>recv\<close>, or one call of \<open>recv\<close> with what follows it.
\<close>

datatype ServerTask = Spawned | Looping "UpdateInfo option" | Returned

datatype Turn = ClientSends bytes | ServerRuns

definition server_turn ::
    "'pe postcard \<Rightarrow> extend \<Rightarrow> (bytes \<Rightarrow> aead) \<Rightarrow> 'c broadcast \<Rightarrow> bytes \<Rightarrow> ServerTask \<Rightarrow> 'c
      \<Rightarrow> (ServerTask \<times> 'c \<times> Note list list) exec" where
  "server_turn pc ext new_cipher bc server_network_key task c = do {
     current_version \<leftarrow> CURRENT_VERSION;
     case task of
       Spawned \<Rightarrow> Some (Looping None, bc_subscribe bc c, [])
     | Looping active \<Rightarrow>
         (case bc_recv bc c of
            (RecvOk d, c) \<Rightarrow> do {
              (active, notes) \<leftarrow> server_recv pc ext new_cipher (new_cipher server_network_key) current_version active d;
              Some (Looping active, c, [notes])
            }
          | (Lagged _, c) \<Rightarrow> Some (Returned, c, [])
          | (Pending, c) \<Rightarrow> Some (Looping active, c, []))
     | Returned \<Rightarrow> Some (Returned, c, [])
   }"

fun update_turns ::
    "'pe postcard \<Rightarrow> extend \<Rightarrow> (bytes \<Rightarrow> aead) \<Rightarrow> 'c broadcast \<Rightarrow> bytes \<Rightarrow> ServerTask \<Rightarrow> 'c \<Rightarrow> Turn list
      \<Rightarrow> (ServerTask \<times> 'c \<times> Note list list) exec" where
  "update_turns pc ext new_cipher bc nk task c [] = Some (task, c, [])"
| "update_turns pc ext new_cipher bc nk task c (ClientSends d # turns) =
     update_turns pc ext new_cipher bc nk task (bc_send bc d c) turns"
| "update_turns pc ext new_cipher bc nk task c (ServerRuns # turns) = do {
     (task, c, notes) \<leftarrow> server_turn pc ext new_cipher bc nk task c;
     (task, c, rest) \<leftarrow> update_turns pc ext new_cipher bc nk task c turns;
     Some (task, c, notes @ rest)
   }"

text \<open>
  \<open>main\<close>: the channel, the spawned server and the client's task. The schedule is a list of booleans:
  where it is true the client sends its next datagram, where it is false the server runs.
\<close>

fun turns_of :: "bool list \<Rightarrow> bytes list \<Rightarrow> Turn list" where
  "turns_of [] ds = map ClientSends ds"
| "turns_of (True # schedule) [] = turns_of schedule []"
| "turns_of (True # schedule) (d # ds) = ClientSends d # turns_of schedule ds"
| "turns_of (False # schedule) ds = ServerRuns # turns_of schedule ds"

definition scheduled_main ::
    "'pe postcard \<Rightarrow> extend \<Rightarrow> (bytes \<Rightarrow> aead) \<Rightarrow> 'c broadcast \<Rightarrow> bytes \<Rightarrow> bytes \<Rightarrow> bytes \<Rightarrow> bool list
      \<Rightarrow> (ServerTask \<times> 'c \<times> Note list list) exec" where
  "scheduled_main pc ext new_cipher bc img server_network_key key schedule = do {
     acts \<leftarrow> client_task pc ext new_cipher (\<lambda>_. True) img key [(1, server_network_key)];
     update_turns pc ext new_cipher bc server_network_key Spawned (bc_channel bc UPDATE_CHANNEL_SIZE)
       (turns_of schedule (sent_of acts))
   }"

section \<open>What the server hears\<close>

fun sends :: "Turn list \<Rightarrow> bytes list" where
  "sends [] = []"
| "sends (ClientSends d # turns) = d # sends turns"
| "sends (ServerRuns # turns) = sends turns"

lemma sends_turns_of [simp]: "sends (turns_of schedule ds) = ds"
proof -
  have "sends (map ClientSends ds) = ds" for ds by (induction ds) auto
  then show ?thesis by (induction schedule ds rule: turns_of.induct) auto
qed

text \<open>
  For a server that is \<open>lag\<close> datagrams behind: how many it reads before it has fallen more than the
  channel's size behind, and whether it does.
\<close>

fun reads :: "nat \<Rightarrow> Turn list \<Rightarrow> nat" where
  "reads lag [] = 0"
| "reads lag (ClientSends d # turns) = reads (Suc lag) turns"
| "reads lag (ServerRuns # turns) =
     (if lag = 0 then reads 0 turns
      else if lag \<le> UPDATE_CHANNEL_SIZE then Suc (reads (lag - 1) turns) else 0)"

fun overrun :: "nat \<Rightarrow> Turn list \<Rightarrow> bool" where
  "overrun lag [] = False"
| "overrun lag (ClientSends d # turns) = overrun (Suc lag) turns"
| "overrun lag (ServerRuns # turns) = (UPDATE_CHANNEL_SIZE < lag \<or> overrun (lag - 1) turns)"

text \<open>A server that is kept from running while more than 256 datagrams are sent is overrun.\<close>

lemma stall_overruns:
  assumes "UPDATE_CHANNEL_SIZE < lag + n" and "n \<le> length ds"
  shows "overrun lag (turns_of (replicate n True @ False # schedule) ds)"
  using assms
proof (induction n arbitrary: lag ds)
  case (Suc n)
  then show ?case by (cases ds) simp_all
qed simp

text \<open>One datagram more, before the others.\<close>

lemma server_loop_cons_map:
  "server_recv pc ext new_cipher sc v active d = Some (active', notes) \<Longrightarrow>
   server_loop pc ext new_cipher sc v active (d # ds) =
     map_option (\<lambda>(st, rest). (st, notes # rest)) (server_loop pc ext new_cipher sc v active' ds)"
  by (cases "server_loop pc ext new_cipher sc v active' ds") auto

lemma server_loop_take:
  assumes "server_loop pc ext new_cipher sc v st ds = Some (st', ns)"
  shows "\<exists>st''. server_loop pc ext new_cipher sc v st (take k ds) = Some (st'', take k ns) \<and>
    (length ds \<le> k \<longrightarrow> st'' = st' \<and> take k ns = ns)"
  using assms
proof (induction ds arbitrary: st ns k)
  case (Cons d ds)
  then show ?case by (cases k) (fastforce simp: bind_eq_Some_conv)+
qed simp

context broadcast_channel
begin

lemma update_turns_returned:
  "\<exists>c'. update_turns pc ext new_cipher bc nk Returned c turns = Some (Returned, c', [])"
  by (induction turns arbitrary: c rule: sends.induct) (auto simp: server_turn_def current_version)

lemma update_turns_looping:
  assumes "capacity c = UPDATE_CHANNEL_SIZE"
  shows "\<exists>c'. update_turns pc ext new_cipher bc nk (Looping active) c turns =
      map_option (\<lambda>(st, notes). (if overrun (length (unread c)) turns then Returned else Looping st, c', notes))
        (server_loop pc ext new_cipher (new_cipher nk) (Version 1 2 0 None) active
          (take (reads (length (unread c)) turns) (unread c @ sends turns))) \<and>
    (\<not> overrun (length (unread c)) turns \<longrightarrow>
       unread c' = drop (reads (length (unread c)) turns) (unread c @ sends turns))"
  using assms
proof (induction turns arbitrary: c active rule: sends.induct)
  case 1
  then show ?case by simp
next
  case (2 d turns)
  then show ?case using "2.IH" [of "bc_send bc d c" active] by (simp add: send)
next
  case (3 turns)
  let ?recv = "server_recv pc ext new_cipher (new_cipher nk) (Version 1 2 0 None)"
  consider "unread c = []" | d ds where "unread c = d # ds" "length (unread c) \<le> capacity c"
    | "capacity c < length (unread c)"
    by (cases "unread c") force+
  then show ?case
  proof cases
    case 1
    then show ?thesis
      using "3.IH" [of c active] "3.prems" recv_pending [of c]
      by (auto simp: server_turn_def current_version option.map_comp comp_def case_prod_unfold
               split: option.split bind_splits)
  next
    case 2
    obtain c' where c': "bc_recv bc c = (RecvOk d, c')" "unread c' = ds" "capacity c' = capacity c"
      using recv_ok [OF 2] by blast
    have lag: "0 < length (unread c)" "length (unread c) \<le> UPDATE_CHANNEL_SIZE" "length (unread c) - 1 = length ds"
      using 2 "3.prems" by simp_all
    show ?thesis
    proof (cases "?recv active d")
      case None
      then show ?thesis
        using "3.IH" [of c' active] "3.prems" c' lag 2 by (auto simp: server_turn_def current_version)
    next
      case (Some r)
      obtain active' ns where r: "r = (active', ns)" by (cases r)
      show ?thesis
        using "3.IH" [of c' active'] "3.prems" c' lag 2 Some
        by (auto simp: server_turn_def current_version r server_loop_cons_map option.map_comp comp_def
            case_prod_unfold split: option.split bind_splits)
    qed
  next
    case 3
    obtain c' where "bc_recv bc c = (Lagged (length (unread c) - capacity c), c')"
      using recv_lagged [OF 3] by blast
    moreover have "UPDATE_CHANNEL_SIZE < length (unread c)" "unread c \<noteq> []" using 3 "3.prems" by auto
    moreover obtain c'' where "update_turns pc ext new_cipher bc nk Returned c' turns = Some (Returned, c'', [])"
      using update_turns_returned by blast
    ultimately show ?thesis by (simp add: server_turn_def current_version)
  qed
qed

lemma update_turns_missed:
  "\<exists>c'. capacity c' = capacity c \<and> (\<forall>turns.
     update_turns pc ext new_cipher bc nk Spawned c (map ClientSends ds @ turns) =
     update_turns pc ext new_cipher bc nk Spawned c' turns)"
  by (induction ds arbitrary: c) (auto simp: send(2), metis send(2))

text \<open>What a spawned server does that first runs after \<open>ds\<close> have been sent.\<close>

lemma update_turns_spawned:
  assumes "server_loop pc ext new_cipher (new_cipher nk) (Version 1 2 0 None) None (sends turns) = Some (st, ns)"
    and "capacity c = UPDATE_CHANNEL_SIZE"
  shows "\<exists>task c'. update_turns pc ext new_cipher bc nk Spawned c (map ClientSends ds @ ServerRuns # turns) =
      Some (task, c', take (reads 0 turns) ns) \<and> (task = Returned \<longleftrightarrow> overrun 0 turns) \<and>
    (task \<noteq> Returned \<and> unread c' = [] \<longrightarrow> task = Looping st \<and> take (reads 0 turns) ns = ns)"
proof -
  obtain c1 where c1: "capacity c1 = UPDATE_CHANNEL_SIZE"
    "update_turns pc ext new_cipher bc nk Spawned c (map ClientSends ds @ ServerRuns # turns) =
     update_turns pc ext new_cipher bc nk Spawned c1 (ServerRuns # turns)"
    using update_turns_missed [of c] assms(2) by metis
  obtain st' where st': "server_loop pc ext new_cipher (new_cipher nk) (Version 1 2 0 None) None (take (reads 0 turns) (sends turns)) =
      Some (st', take (reads 0 turns) ns)" "length (sends turns) \<le> reads 0 turns \<longrightarrow> st' = st \<and> take (reads 0 turns) ns = ns"
    using server_loop_take [OF assms(1)] by blast
  have "capacity (bc_subscribe bc c1) = UPDATE_CHANNEL_SIZE" using c1(1) by (simp add: subscribe)
  from update_turns_looping [OF this, of pc ext new_cipher nk None turns] obtain c' where
    "update_turns pc ext new_cipher bc nk (Looping None) (bc_subscribe bc c1) turns =
       Some (if overrun 0 turns then Returned else Looping st', c', take (reads 0 turns) ns)"
    "\<not> overrun 0 turns \<longrightarrow> unread c' = drop (reads 0 turns) (sends turns)"
    by (auto simp: subscribe st'(1))
  with c1(2) st'(2) show ?thesis by (auto simp: server_turn_def current_version)
qed

end

text \<open>A schedule either never lets the server run or first lets the client send some of its datagrams.\<close>

lemma turns_of_cases:
  obtains "turns_of schedule ds = map ClientSends ds" "False \<notin> set schedule"
  | m turns where "turns_of schedule ds = map ClientSends (take m ds) @ ServerRuns # turns"
      "sends turns = drop m ds" "ds \<noteq> [] \<Longrightarrow> m = 0 \<longleftrightarrow> \<not> hd schedule" "False \<in> set schedule" "m \<le> length ds"
proof -
  have "(turns_of schedule ds = map ClientSends ds \<and> False \<notin> set schedule) \<or>
    (\<exists>m turns. turns_of schedule ds = map ClientSends (take m ds) @ ServerRuns # turns \<and> sends turns = drop m ds \<and>
       (ds \<noteq> [] \<longrightarrow> m = 0 \<longleftrightarrow> \<not> hd schedule) \<and> False \<in> set schedule \<and> m \<le> length ds)"
  proof (induction schedule ds rule: turns_of.induct)
    case (3 schedule d ds)
    then show ?case
    proof (elim disjE exE)
      fix m turns
      assume "turns_of schedule ds = map ClientSends (take m ds) @ ServerRuns # turns \<and> sends turns = drop m ds \<and>
       (ds \<noteq> [] \<longrightarrow> m = 0 \<longleftrightarrow> \<not> hd schedule) \<and> False \<in> set schedule \<and> m \<le> length ds"
      then show ?thesis by (intro disjI2 exI [of _ "Suc m"] exI [of _ turns]) simp
    qed simp
  next
    case (4 schedule ds)
    show ?case by (intro disjI2 exI [of _ 0] exI [of _ "turns_of schedule ds"]) simp
  qed auto
  then show ?thesis using that by blast
qed

context broadcast_channel
begin

text \<open>
  The outcome of a schedule, for datagrams of which a server that hears them all makes \<open>outcome\<close>, and
  one that misses the first makes nothing.
\<close>

lemma schedule_outcome:
  fixes nk new_cipher pc ext
  defines "run \<equiv> server_loop pc ext new_cipher (new_cipher nk) (Version 1 2 0 None) None"
  assumes hears: "run ds = Some (None, outcome)"
    and misses: "\<And>m. 0 < m \<Longrightarrow> \<exists>ns. run (drop m ds) = Some (None, ns) \<and> concat ns = []"
    and "ds \<noteq> []" and "capacity c = UPDATE_CHANNEL_SIZE"
  shows "\<exists>task c' notes. update_turns pc ext new_cipher bc nk Spawned c (turns_of schedule ds) = Some (task, c', notes) \<and>
    (if False \<notin> set schedule then task = Spawned \<and> notes = []
     else if hd schedule then concat notes = []
     else prefix notes outcome \<and> (task = Returned \<longleftrightarrow> overrun 0 (turns_of (tl schedule) ds)) \<and>
       (task \<noteq> Returned \<and> unread c' = [] \<longrightarrow> task = Looping None \<and> notes = outcome))"
proof (cases rule: turns_of_cases [of schedule ds])
  case 1
  then show ?thesis
    using update_turns_missed [of c pc ext new_cipher nk ds] by (metis append_Nil2 update_turns.simps(1))
next
  case (2 m turns)
  obtain ns where ns: "run (sends turns) = Some (None, ns)" "if m = 0 then ns = outcome else concat ns = []"
    using hears misses [of m] 2(2) by (cases "m = 0") auto
  obtain task c' where run: "update_turns pc ext new_cipher bc nk Spawned c (turns_of schedule ds) =
      Some (task, c', take (reads 0 turns) ns)" "task = Returned \<longleftrightarrow> overrun 0 turns"
    "task \<noteq> Returned \<and> unread c' = [] \<longrightarrow> task = Looping None \<and> take (reads 0 turns) ns = ns"
    using update_turns_spawned [OF ns(1) [unfolded run_def] assms(5), of "take m ds"] unfolding 2(1) by blast
  have hd: "m = 0 \<longleftrightarrow> \<not> hd schedule" using 2(3) assms(4) by simp
  show ?thesis
  proof (cases "m = 0")
    case True
    moreover from this have "turns = turns_of (tl schedule) ds"
      using 2(1) hd 2(4) assms(4) by (cases schedule) auto
    ultimately show ?thesis using run ns(2) hd 2(4) by (auto simp: take_is_prefix)
  next
    case False
    then have "concat (take (reads 0 turns) ns) = []" using ns(2) by (auto dest: in_set_takeD)
    then show ?thesis using run(1) hd 2(4) False by auto
  qed
qed

end

section \<open>Properties\<close>

definition update_outcome :: "nat \<Rightarrow> (Update \<times> Delay) list \<Rightarrow> Note list list" where
  "update_outcome n plan = [UpdatingTo (Version 1 2 3 None)] # map (chunk_notes n) plan"

text \<open>
  C21. The update example on its broadcast channel, for every schedule of the client's sends and
  the server's turns: nothing panics; a server that never runs does nothing; one that subscribes
  after the client's first datagram ignores all the others; one that subscribes in time makes a
  beginning of the notes of a complete update, its task returns exactly when it was more than 256
  datagrams behind at one of its turns, and if it did not and has read everything it has received
  exactly the image, has finished and is idle.
\<close>

theorem update_over_channel:
  assumes "broadcast_channel bc capacity unread" and "postcard_format pc" and "heapless_vec ext"
    and "aead_cipher (new_cipher network_key)" and "aead_cipher (new_cipher key)" and "length key = 16"
    and "key_separated (new_cipher key) (new_cipher network_key)" and "img \<noteq> []" and "length img \<le> 2 ^ 28"
  shows "\<exists>plan acts. planned img 0 plan \<and> received (concat (update_outcome (length img) plan)) = img \<and>
    client_task pc ext new_cipher (\<lambda>_. True) img key [(1, network_key)] = Some acts \<and>
    (\<forall>schedule. \<exists>task c notes.
       scheduled_main pc ext new_cipher bc img network_key key schedule = Some (task, c, notes) \<and>
       (if False \<notin> set schedule then task = Spawned \<and> notes = []
        else if hd schedule then concat notes = []
        else prefix notes (update_outcome (length img) plan) \<and>
          (task = Returned \<longleftrightarrow> overrun 0 (turns_of (tl schedule) (sent_of acts))) \<and>
          (task \<noteq> Returned \<and> unread c = [] \<longrightarrow> task = Looping None \<and> notes = update_outcome (length img) plan)))"
proof -
  obtain plan where plan: "planned img 0 plan" "received (concat (map (chunk_notes (length img)) plan)) = img"
    and main: "update_main pc ext new_cipher img network_key key 0 = Some (None, update_outcome (length img) plan)"
      "\<And>missed. 0 < missed \<Longrightarrow>
        update_main pc ext new_cipher img network_key key missed = Some (None, replicate (Suc (length plan) - missed) [])"
    using update_main_outcome [OF assms(2-9)] by (auto simp: update_outcome_def)
  obtain acts where acts: "client_task pc ext new_cipher (\<lambda>_. True) img key [(1, network_key)] = Some acts"
    using main(1) by (auto simp: update_main_def bind_eq_Some_conv)
  let ?run = "server_loop pc ext new_cipher (new_cipher network_key) (Version 1 2 0 None) None"
  have run: "?run (drop missed (sent_of acts)) = update_main pc ext new_cipher img network_key key missed" for missed
    using acts by (simp add: update_main_def server_task_def current_version)
  have hears: "?run (sent_of acts) = Some (None, update_outcome (length img) plan)"
    using run [of 0] main(1) by simp
  have misses: "\<exists>ns. ?run (drop m (sent_of acts)) = Some (None, ns) \<and> concat ns = []" if "0 < m" for m
    using run [of m] main(2) [OF that] by simp
  have nonempty: "sent_of acts \<noteq> []" using hears by (auto simp: update_outcome_def)
  have "received (concat (update_outcome (length img) plan)) = img"
    using plan(2) by (simp add: update_outcome_def)
  then show ?thesis
    using plan(1) acts broadcast_channel.schedule_outcome [OF assms(1) hears misses nonempty
        broadcast_channel.channel(2) [OF assms(1)]]
    by (intro exI [of _ plan] exI [of _ acts]) (simp add: scheduled_main_def)
qed

theorem update_over_channel_witness:
  "\<exists>plan acts. planned [1, 2, 3] 0 plan \<and> received (concat (update_outcome (length [1 :: u8, 2, 3]) plan)) = [1, 2, 3] \<and>
    client_task postcard_v1 vec_extend check_cipher (\<lambda>_. True) [1, 2, 3] (replicate 16 8) [(1, replicate 16 7)] = Some acts \<and>
    (\<forall>schedule. \<exists>task c notes.
       scheduled_main postcard_v1 vec_extend check_cipher ring [1, 2, 3] (replicate 16 7) (replicate 16 8) schedule =
         Some (task, c, notes) \<and>
       (if False \<notin> set schedule then task = Spawned \<and> notes = []
        else if hd schedule then concat notes = []
        else prefix notes (update_outcome (length [1 :: u8, 2, 3]) plan) \<and>
          (task = Returned \<longleftrightarrow> overrun 0 (turns_of (tl schedule) (sent_of acts))) \<and>
          (task \<noteq> Returned \<and> ring_unread c = [] \<longrightarrow>
             task = Looping None \<and> notes = update_outcome (length [1 :: u8, 2, 3]) plan)))"
proof (rule update_over_channel [OF ring.broadcast_channel_axioms])
  have "sum_list (replicate 16 (8 :: u8)) \<noteq> sum_list (replicate 16 (7 :: u8))"
    by (simp add: sum_list_replicate)
  then show "key_separated (check_cipher (replicate 16 8)) (check_cipher (replicate 16 7))"
    by (rule key_separated_check_cipher)
qed (simp_all add: v1.postcard_format_axioms)

end
