(* ===== verification/Update_Replay.thy ===== *)
theory Update_Replay
  imports Update_Network
begin

text \<open>
  The update server (\<open>data/examples/update/main.rs\<close>) against datagrams that are sent again. The frame
  counter of a header varies the nonce, and nothing else looks at it: a receiver keeps no counter, so
  an old datagram is as good as a new one.
\<close>

section \<open>A session with one server\<close>

lemma single_server_session:
  assumes "postcard_format pc" and "heapless_vec ext" and "aead_cipher (new_cipher nk)"
    and "aead_cipher (new_cipher key)" and "length key = 16" and "length img \<le> 2 ^ 28"
  obtains a ds plan acts where "client_task pc ext new_cipher (\<lambda>_. True) img key [(1, nk)] = Some acts"
    "sent_of acts = a # ds" "announces pc ext new_cipher key (length img) 0 a (1, nk)"
    "frames (carries pc ext (new_cipher key)) 1 ds plan" "planned img 0 plan"
proof -
  let ?servers = "[(1, nk)] :: (u8 \<times> bytes) list"
  have aead: "\<forall>server \<in> set ?servers. aead_cipher (new_cipher (snd server))" using assms(3) by simp
  obtain as ds plan where trace: "client_task pc ext new_cipher (\<lambda>_. True) img key ?servers =
       Some (announcement_acts as @ acts_of ds plan @ [Slept UPDATE_PROCESSING_TIME])"
    and as: "frames (announces pc ext new_cipher key (length img)) 0 as ?servers"
    and ds: "frames (carries pc ext (new_cipher key)) (of_nat (length as)) ds plan" and plan: "planned img 0 plan"
    by (rule postcard_format.client_task_accepted [OF assms(1,2) aead assms(4-6)])
  have len: "length as = 1" "length ds = length plan"
    using frames_length [OF as] frames_length [OF ds] by simp_all
  then obtain a where a: "as = [a]" by (auto simp: length_Suc_conv)
  show ?thesis
  proof (rule that)
    show "client_task pc ext new_cipher (\<lambda>_. True) img key ?servers =
        Some (announcement_acts as @ acts_of ds plan @ [Slept UPDATE_PROCESSING_TIME])"
      by (rule trace)
    show "sent_of (announcement_acts as @ acts_of ds plan @ [Slept UPDATE_PROCESSING_TIME]) = a # ds"
      using len(2) by (simp add: a sent_of_acts_of)
  qed (use as ds plan in \<open>simp_all add: a\<close>)
qed

section \<open>The server's turns on known datagrams\<close>

text \<open>An announcement is taken also in the middle of an update, which starts again from byte 0.\<close>

lemma server_recv_announced:
  assumes "process_client_prepare_for_update_request pc ext sc d = Some (Some (prepare_for_update_of key n))"
    and "n < 2 ^ 32" and "process_client_update_request pc ext UPDATE_BYTES_SIZE (new_cipher key) d = Some None"
    and "pred_option (\<lambda>info. info_cipher info = new_cipher key) active"
  shows "server_recv pc ext new_cipher sc (Version 1 2 0 None) active d =
    Some (Some \<lparr>info_cipher = new_cipher key, byte_len = n, next_byte_offset = 0\<rparr>, [UpdatingTo (Version 1 2 3 None)])"
  using server_recv_prepare [OF assms(1,2), of new_cipher] assms
  by (cases active) (simp_all add: server_recv_def split: option.splits)

lemma server_recv_gap:
  assumes "process_client_update_request pc ext UPDATE_BYTES_SIZE (info_cipher info) d = Some (Some u)"
    and "unat (byte_offset u) \<noteq> next_byte_offset info"
  shows "server_recv pc ext new_cipher sc v (Some info) d =
    Some (None, [Abandoning (byte_offset u) (length (update_bytes u))])"
  using assms by (simp add: server_recv_update process_active_update_def)

text \<open>A chunk that follows another one is not at the first offset.\<close>

lemma planned_later:
  assumes "planned img off (x # xs @ y # ys)" and "length img < 2 ^ 32"
  shows "off < unat (byte_offset (fst y))"
  using assms(1)
proof (induction xs arbitrary: off x)
  case Nil
  obtain u delay w delay' where xy: "x = (u, delay)" "y = (w, delay')" by (cases x; cases y)
  let ?to = "off + length (update_bytes u)"
  have to: "byte_offset w = of_nat ?to" "off < ?to" "?to \<le> length img"
    using Nil by (simp_all add: xy Let_def)
  then have "unat (byte_offset w) = ?to"
    unfolding to(1) using assms(2) by (intro unat_of_nat_u32) linarith
  then show ?case using to(2) by (simp add: xy)
next
  case (Cons x' xs)
  obtain u delay where x: "x = (u, delay)" by (cases x)
  have "planned img (off + length (update_bytes u)) (x' # xs @ y # ys)"
    using Cons.prems by (simp add: x Let_def)
  from Cons.IH [OF this] show ?case by simp
qed

text \<open>A server that has followed the update to some chunk and hears the announcement again.\<close>

lemma server_loop_restarted:
  assumes plan: "planned img 0 (xs @ y # ys)" "xs \<noteq> []" and n: "length img < 2 ^ 32"
    and upd: "updates_in pc ext (new_cipher key) (ds @ d # es) (xs @ y # ys)" "length ds = length xs"
    and ann: "process_client_prepare_for_update_request pc ext sc a = Some (Some (prepare_for_update_of key (length img)))"
      "process_client_update_request pc ext UPDATE_BYTES_SIZE (new_cipher key) a = Some None"
    and idle: "\<forall>d \<in> set es. process_client_prepare_for_update_request pc ext sc d = Some None"
  shows "server_loop pc ext new_cipher sc (Version 1 2 0 None) None (a # ds @ a # d # es) =
    Some (None, [UpdatingTo (Version 1 2 3 None)] # map (chunk_notes (length img)) xs
      @ [UpdatingTo (Version 1 2 3 None)] # [Abandoning (byte_offset (fst y)) (length (update_bytes (fst y)))]
      # replicate (length es) [])"
proof -
  let ?info = "\<lparr>info_cipher = new_cipher key, byte_len = length img, next_byte_offset = 0\<rparr>"
  let ?run = "server_loop pc ext new_cipher sc (Version 1 2 0 None)"
  note announced = server_recv_announced [where new_cipher = new_cipher, OF ann(1) n ann(2)]
  obtain u delay xs' where xs: "xs = (u, delay) # xs'" using plan(2) by (cases xs) auto
  have later: "0 < unat (byte_offset (fst y))"
    using planned_later [OF _ n, of 0 "(u, delay)" xs' y ys] plan(1) by (simp add: xs)
  have "0 < length (update_bytes u)" "length (update_bytes u) \<le> length img"
    using plan(1) by (simp_all add: xs Let_def)
  then have nonempty: "img \<noteq> []" by auto
  have u: "updates_in pc ext (new_cipher key) ds xs"
    "process_client_update_request pc ext UPDATE_BYTES_SIZE (new_cipher key) d = Some (Some (fst y))"
    using upd by (simp_all add: list_all2_append case_prod_unfold)
  from server_loop_plan [OF plan(1) u(1) n, of ?info new_cipher sc "Version 1 2 0 None"] nonempty
  obtain off where off: "planned img off (y # ys)"
    "?run (Some ?info) ds = Some (if off = length img then None else Some (?info\<lparr>next_byte_offset := off\<rparr>),
       map (chunk_notes (length img)) xs)"
    by auto
  then have "off \<noteq> length img" using planned_end by blast
  then have "?run None (a # ds) =
      Some (Some (?info\<lparr>next_byte_offset := off\<rparr>), [UpdatingTo (Version 1 2 3 None)] # map (chunk_notes (length img)) xs)"
    using announced [of None] off(2) by simp
  moreover have "server_recv pc ext new_cipher sc (Version 1 2 0 None) (Some (?info\<lparr>next_byte_offset := off\<rparr>)) a =
      Some (Some ?info, [UpdatingTo (Version 1 2 3 None)])"
    by (rule announced) simp
  moreover have "server_recv pc ext new_cipher sc (Version 1 2 0 None) (Some ?info) d =
      Some (None, [Abandoning (byte_offset (fst y)) (length (update_bytes (fst y)))])"
    using server_recv_gap [of pc ext ?info d "fst y"] u(2) later by simp
  moreover have "?run None es = Some (None, replicate (length es) [])"
    using idle by (rule server_loop_idle)
  ultimately have "?run None ((a # ds) @ a # d # es) =
    Some (None, [UpdatingTo (Version 1 2 3 None)] # map (chunk_notes (length img)) xs
      @ [UpdatingTo (Version 1 2 3 None)] # [Abandoning (byte_offset (fst y)) (length (update_bytes (fst y)))]
      # replicate (length es) [])"
    by (subst server_loop_append) simp
  then show ?thesis by simp
qed

lemma server_loop_restarted_at:
  assumes "planned img 0 plan" and "length img < 2 ^ 32" and upd: "updates_in pc ext (new_cipher key) ds plan"
    and "process_client_prepare_for_update_request pc ext sc a = Some (Some (prepare_for_update_of key (length img)))"
    and "process_client_update_request pc ext UPDATE_BYTES_SIZE (new_cipher key) a = Some None"
    and idle: "\<forall>d \<in> set ds. process_client_prepare_for_update_request pc ext sc d = Some None"
    and k: "k < length plan" "0 < k"
  shows "server_loop pc ext new_cipher sc (Version 1 2 0 None) None (a # take k ds @ a # drop k ds) =
    Some (None, [UpdatingTo (Version 1 2 3 None)] # map (chunk_notes (length img)) (take k plan)
      @ [UpdatingTo (Version 1 2 3 None)]
      # [Abandoning (byte_offset (fst (plan ! k))) (length (update_bytes (fst (plan ! k))))]
      # replicate (length plan - Suc k) [])"
proof -
  have len: "length ds = length plan" using list_all2_lengthD [OF upd] .
  have split: "take k plan @ plan ! k # drop (Suc k) plan = plan" "take k ds @ ds ! k # drop (Suc k) ds = ds"
    "drop k ds = ds ! k # drop (Suc k) ds"
    using k len by (simp_all add: Cons_nth_drop_Suc flip: id_take_nth_drop)
  have idle': "\<forall>d \<in> set (drop (Suc k) ds). process_client_prepare_for_update_request pc ext sc d = Some None"
    using idle by (auto dest: in_set_dropD)
  have ne: "take k plan \<noteq> []" "length (take k ds) = length (take k plan)" using k len by auto
  show ?thesis
    using server_loop_restarted [where new_cipher = new_cipher and y = "plan ! k" and ys = "drop (Suc k) plan" and d = "ds ! k",
        OF _ ne(1) assms(2) _ ne(2) assms(4,5) idle']
      assms(1) upd
    unfolding split(1,2) split(3) [symmetric] by (simp add: len del: server_loop.simps)
qed

section \<open>Properties\<close>

text \<open>
  C22. The update server has no defence against datagrams that are sent again. A recorded session
  played a second time makes it go through the whole update again. The announcement repeated after
  at least one chunk but not all makes it start anew at byte 0, abandon the update at the next
  chunk and ignore the rest; repeated at once, before the first chunk, it is announced twice and
  the update completes; repeated after the last chunk it leaves the server waiting at byte 0 for
  an update that has been installed already.
\<close>

theorem replays_undetected:
  assumes "postcard_format pc" and "heapless_vec ext" and "aead_cipher (new_cipher nk)"
    and "aead_cipher (new_cipher key)" and "length key = 16" and "key_separated (new_cipher key) (new_cipher nk)"
    and "key_separated (new_cipher nk) (new_cipher key)" and "img \<noteq> []" and "length img \<le> 2 ^ 28"
  shows "\<exists>plan acts session. planned img 0 plan \<and>
    client_task pc ext new_cipher (\<lambda>_. True) img key [(1, nk)] = Some acts \<and> session = sent_of acts \<and>
    length session = Suc (length plan) \<and>
    server_task pc ext new_cipher nk (session @ session) =
      Some (None, let notes = [UpdatingTo (Version 1 2 3 None)] # map (chunk_notes (length img)) plan in notes @ notes) \<and>
    server_task pc ext new_cipher nk (hd session # session) =
      Some (None, [UpdatingTo (Version 1 2 3 None)] # [UpdatingTo (Version 1 2 3 None)] # map (chunk_notes (length img)) plan) \<and>
    server_task pc ext new_cipher nk (session @ [hd session]) =
      Some (Some \<lparr>info_cipher = new_cipher key, byte_len = length img, next_byte_offset = 0\<rparr>,
        [UpdatingTo (Version 1 2 3 None)] # map (chunk_notes (length img)) plan @ [[UpdatingTo (Version 1 2 3 None)]]) \<and>
    (\<forall>k < length plan. 0 < k \<longrightarrow>
      server_task pc ext new_cipher nk (take (Suc k) session @ hd session # drop (Suc k) session) =
        Some (None, [UpdatingTo (Version 1 2 3 None)] # map (chunk_notes (length img)) (take k plan)
          @ [UpdatingTo (Version 1 2 3 None)]
          # [Abandoning (byte_offset (fst (plan ! k))) (length (update_bytes (fst (plan ! k))))]
          # replicate (length plan - Suc k) []))"
proof -
  obtain a ds plan acts where acts: "client_task pc ext new_cipher (\<lambda>_. True) img key [(1, nk)] = Some acts"
    and sent: "sent_of acts = a # ds" and a: "announces pc ext new_cipher key (length img) 0 a (1, nk)"
    and ds: "frames (carries pc ext (new_cipher key)) 1 ds plan" and plan: "planned img 0 plan"
    using single_server_session [OF assms(1-5,9)] by metis
  have n: "length img < 2 ^ 32" and len: "length ds = length plan"
    using assms(9) frames_length [OF ds] by simp_all
  have ann: "process_client_prepare_for_update_request pc ext (new_cipher nk) a =
      Some (Some (prepare_for_update_of key (length img)))"
    "process_client_update_request pc ext UPDATE_BYTES_SIZE (new_cipher key) a = Some None"
    using postcard_format.announces_prepare [OF assms(1,2) _ assms(5) a] assms(3)
      postcard_format.sealed_rejected(1) [OF assms(1,2,3,4,7)] postcard_format.announces_sealed [OF assms(1) a] by auto
  have upd: "updates_in pc ext (new_cipher key) ds plan"
    using postcard_format.planned_updates [OF assms(1,2,4) ds _ assms(9), of 0 "[]"] plan by simp
  have idle: "\<forall>d \<in> set ds. process_client_prepare_for_update_request pc ext (new_cipher nk) d = Some None"
    using postcard_format.chunks_rejected [OF assms(1,2,4,3,6) ds] by blast
  note restarted = server_loop_restarted_at [where new_cipher = new_cipher, OF plan n upd ann idle]
  note announced = server_recv_announced [where new_cipher = new_cipher, OF ann(1) n ann(2)]
  let ?info = "\<lparr>info_cipher = new_cipher key, byte_len = length img, next_byte_offset = 0\<rparr>"
  have chunks: "server_loop pc ext new_cipher (new_cipher nk) (Version 1 2 0 None) (Some ?info) ds =
      Some (None, map (chunk_notes (length img)) plan)"
    using server_loop_plan [of img 0 plan "[]", OF _ upd n] assms(8) plan by simp
  have first: "server_recv pc ext new_cipher (new_cipher nk) (Version 1 2 0 None) None a =
      Some (Some ?info, [UpdatingTo (Version 1 2 3 None)])"
    "server_recv pc ext new_cipher (new_cipher nk) (Version 1 2 0 None) (Some ?info) a =
      Some (Some ?info, [UpdatingTo (Version 1 2 3 None)])"
    by (rule announced, simp)+
  have once: "server_loop pc ext new_cipher (new_cipher nk) (Version 1 2 0 None) None (a # ds) =
      Some (None, [UpdatingTo (Version 1 2 3 None)] # map (chunk_notes (length img)) plan)"
    using first(1) chunks by simp
  have "server_task pc ext new_cipher nk ((a # ds) @ a # ds) =
      Some (None, let notes = [UpdatingTo (Version 1 2 3 None)] # map (chunk_notes (length img)) plan in notes @ notes)"
    by (simp only: server_task_def current_version server_loop_append once bind.bind_lunit prod.case Let_def)
  moreover have "server_task pc ext new_cipher nk (a # a # ds) =
      Some (None, [UpdatingTo (Version 1 2 3 None)] # [UpdatingTo (Version 1 2 3 None)] # map (chunk_notes (length img)) plan)"
    using first chunks by (simp add: server_task_def current_version)
  moreover have "server_task pc ext new_cipher nk ((a # ds) @ [a]) =
      Some (Some ?info, ([UpdatingTo (Version 1 2 3 None)] # map (chunk_notes (length img)) plan) @ [[UpdatingTo (Version 1 2 3 None)]])"
    using first(1) chunks unfolding server_task_def server_loop_append current_version by simp
  ultimately show ?thesis
    using acts plan len restarted by (intro exI [of _ plan] exI [of _ acts] exI [of _ "a # ds"]) (simp add: sent server_task_def current_version del: server_loop.simps)
qed

theorem replays_undetected_witness:
  "\<exists>plan acts session. planned UPDATE 0 plan \<and>
    client_task postcard_v1 vec_extend check_cipher (\<lambda>_. True) UPDATE (replicate 16 8) [(1, replicate 16 7)] = Some acts \<and>
    session = sent_of acts \<and> length session = Suc (length plan) \<and>
    server_task postcard_v1 vec_extend check_cipher (replicate 16 7) (session @ session) =
      Some (None, let notes = [UpdatingTo (Version 1 2 3 None)] # map (chunk_notes (length UPDATE)) plan in notes @ notes) \<and>
    server_task postcard_v1 vec_extend check_cipher (replicate 16 7) (hd session # session) =
      Some (None, [UpdatingTo (Version 1 2 3 None)] # [UpdatingTo (Version 1 2 3 None)] # map (chunk_notes (length UPDATE)) plan) \<and>
    server_task postcard_v1 vec_extend check_cipher (replicate 16 7) (session @ [hd session]) =
      Some (Some \<lparr>info_cipher = check_cipher (replicate 16 8), byte_len = length UPDATE, next_byte_offset = 0\<rparr>,
        [UpdatingTo (Version 1 2 3 None)] # map (chunk_notes (length UPDATE)) plan @ [[UpdatingTo (Version 1 2 3 None)]]) \<and>
    (\<forall>k < length plan. 0 < k \<longrightarrow>
      server_task postcard_v1 vec_extend check_cipher (replicate 16 7)
          (take (Suc k) session @ hd session # drop (Suc k) session) =
        Some (None, [UpdatingTo (Version 1 2 3 None)] # map (chunk_notes (length UPDATE)) (take k plan)
          @ [UpdatingTo (Version 1 2 3 None)]
          # [Abandoning (byte_offset (fst (plan ! k))) (length (update_bytes (fst (plan ! k))))]
          # replicate (length plan - Suc k) []))"
proof (rule replays_undetected)
  have "sum_list (replicate 16 (8 :: u8)) \<noteq> sum_list (replicate 16 (7 :: u8))"
    by (simp add: sum_list_replicate)
  then show "key_separated (check_cipher (replicate 16 8)) (check_cipher (replicate 16 7))"
    "key_separated (check_cipher (replicate 16 7)) (check_cipher (replicate 16 8))"
    using key_separated_check_cipher by metis+
qed (simp_all add: v1.postcard_format_axioms UPDATE_size)

end
