(* ===== verification/Spec2Isabelle.thy ===== *)
theory Spec2Isabelle
  imports App_Link App_Main App_Tests Data_Tests Discovery_Time Discovery_Analysis Nonce_Reuse Robustness
    Update_Channel Update_Replay
begin

text \<open>
  \<^bold>\<open>Verification of the flip-flop protocol.\<close>

  The repository holds two small Rust libraries and the programs that show their use: the application
  layer (\<open>app/src/lib.rs\<close>), in which one client polls servers for numbered events, and the data link
  layer (\<open>data/src/\<close>) for lines without an IP network, with server discovery and software updates.
  The state machines of the protocols are in the examples (\<open>app/examples\<close>, \<open>data/examples\<close>), which
  are therefore modelled along with the libraries.

  \<^bold>\<open>How the sources are modelled.\<close> Structs are records and datatypes, integers words of their width,
  \<open>Result\<close> is a sum with the error on the left, and a function that can panic returns \<open>'a exec\<close>, with
  \<open>None\<close> the panic. Mutable variables are passed along as values. Loops are folds or recursive
  functions that terminate, except four which are partial functions whose \<open>None\<close> also stands for
  running forever: the client's update loop, which is proved to return; the loop of the discovery
  example, without and with time, which is proved to return for some random numbers, and with the right
  result for all others if it does; and the loop of the discovery analysis, with when it returns and when not. No fuel is used
  anywhere. The third-party
  crates are parameters:
  \<^item> postcard and serde: the record \<open>postcard\<close> with the documented wire format as the locale
    \<open>postcard_format\<close>, interpreted on an executable version of that format, \<open>postcard_v1\<close>. The codecs
    that serde derives for a type are written out field by field.
  \<^item> the authenticated cipher (aes, ccm): the record \<open>aead\<close> with the laws \<open>aead_cipher\<close> and
    \<open>authentic\<close>; heapless: \<open>heapless_vec\<close>; circular-queue: \<open>circular_queue\<close>. Each has an executable
    instance (\<open>check_cipher\<close>, \<open>vec_extend\<close>, \<open>list_queue\<close>), which the witnesses of the theorems use. The
    laws of the cipher are also proved for CCM over any block cipher and so for the AES-CCM that the
    programs use (\<open>Aes_Ccm\<close>).
  \<^item> \<open>f64::powi\<close>, whose precision Rust leaves open: an argument with the law \<open>powi_spec\<close>, and repeated
    multiplication (\<open>powi_left\<close>) as its instance.
  \<^item> \<open>tokio::sync::broadcast\<close>: the record \<open>broadcast\<close> with the contract \<open>broadcast_channel\<close>, a locale
    interpreted on the channel as its documentation describes it, \<open>ring\<close>; \<open>tokio::sync::mpsc\<close>: the record
    \<open>mpsc\<close> with the contract \<open>bounded_channel\<close>, interpreted on lists, \<open>list_channel\<close>; chrono: the record \<open>chrono\<close>
    with the law \<open>calendar\<close> and the instance \<open>int_calendar\<close>.
  \<^item> random numbers, the clock, the network and the scheduler: arguments of the operations.

  \<^bold>\<open>The theories.\<close>
  \<^item> \<open>Prelude\<close>: machine integers, results and panics, generic lemmas. \<open>Rust_Std\<close>: the parts of the Rust
    standard library used for comparing, printing and parsing. \<open>Transition\<close>: reachable states and the
    locale of an inductive invariant.
  \<^item> \<open>Wire_Format\<close>: the serialisation library, and the locales \<open>codec\<close> and \<open>strict_codec\<close> that all
    derived encodings are shown to satisfy.
  \<^item> \<open>App_Messages\<close> (\<open>app/src/lib.rs\<close>, \<open>app/examples/common\<close>): requests and replies. Round trips, and
    what the untagged last field does to messages that are cut short, unknown or of empty types.
  \<^item> \<open>App_Server\<close> (\<open>app/examples/server\<close>): the bounded history and the two arms of the server's loop. It
    refines an unbounded log (\<open>log_answer\<close>); where it follows \<open>offset-rules.md\<close> and where not; every
    request that can be decoded is answered; what a client is answered after a restart.
  \<^item> \<open>App_Client\<close> (\<open>app/examples/client\<close>): the client's state, request and handling of replies.
  \<^item> \<open>App_Exchange\<close>: client and server together over encoded datagrams, one prompt turn at a time, and
    the limits of the protocol: recovery, wrap-around, and what a late reply does. \<open>App_Link\<close>: both as a
    state machine on a link that keeps the order of the datagrams, with losses, replies that arrive after
    the timeout, and resets. Delivery exactly once and in order and completeness of polling, with the
    conditions under which they hold. \<open>App_Network\<close>: the same over a network that loses, delays, reorders
    and repeats datagrams, with resets and wrap-around. What the client is given was stored, and from any
    state it catches up once polls get through.
  \<^item> \<open>App_Program\<close>: the two programs in time. The server's background task and its bounded channel,
    with the events in the order of their times; the client's interval and timeout, with the exact times
    of its requests; and how precise the time is that it prints for an event. \<open>Socket_Addr\<close>: the parser
    of socket addresses. \<open>App_Main\<close>: both \<open>main\<close> functions from the command line on, with their errors.
  \<^item> \<open>Data_Link\<close> (\<open>data/src/lib.rs\<close>): header, nonce, frame and datagrams. Bit layout, round trips,
    authenticity, and every error and panic.
  \<^item> \<open>Discovery\<close> (\<open>data/src/discovery.rs\<close>): the bit field of addresses as a set (locale
    \<open>address_set\<close>), its iterator and the choice of a spare address.
  \<^item> \<open>Discovery_Protocol\<close> (\<open>data/examples/discovery\<close>): client and server tasks and their rounds.
    Addresses are unique when discovery finishes and every reply arrives, no round panics, and how a
    lost reply leaves two servers with one address.
    \<open>Discovery_Main\<close>: its \<open>main\<close>, which refines the rounds. It can finish from every state; what it does
    when the servers start late. \<open>Discovery_Time\<close>: the same with the sleep of the servers, the window of
    the client and the latencies between them; how much of these the windows allow for.
  \<^item> \<open>Semver\<close> and \<open>Update_Messages\<close> (\<open>data/src/update.rs\<close>): versions and their order, update messages
    and their sizes.
  \<^item> \<open>Update_Protocol\<close> (\<open>data/examples/update\<close>): the client's chunking and pauses and the server's
    handling of chunks. A disturbed update is abandoned and never finished in part, and only newer
    versions are installed. \<open>Update_Network\<close>: the client with all its servers on one channel, and
    \<open>main\<close>. An undisturbed update completes at every server with the whole image; the client returns
    whatever the channel accepts and refuses, with what it does then; its nonces do not repeat; what a server that starts late misses.
    \<open>Update_Channel\<close>: client and server on the broadcast channel, turn by turn under any schedule, with
    a server that lags behind. \<open>Update_Replay\<close>: what repeated datagrams do to a server.
  \<^item> \<open>Robustness\<close>: what is decoded has the shape of its type, and no datagram makes a task of the data examples
    panic. \<open>Nonce_Reuse\<close>: what the replies of discovery reveal, since they share a nonce.
  \<^item> \<open>Float64\<close> and \<open>Discovery_Analysis\<close> (\<open>data/examples/discovery_analysis\<close>): double precision
    arithmetic by rounding of rationals, and the simulation over it. When it ends and when it does not.
  \<^item> \<open>Aes_Ccm\<close>: AES-128 and CCM as the standards define them, and the laws of the cipher for them.
    \<open>App_Tests\<close> and \<open>Data_Tests\<close>: the unit tests of the libraries, run on the model as a check of its
    definitions; that they all pass is the lemma of this theory.

  \<^bold>\<open>Bounds.\<close> Offsets of events are compared as numbers until they wrap around (\<open>no_wrap\<close>, fewer than
  \<open>2 ^ 32\<close> events since the server's start), because the server compares them so; what happens after is
  a theorem of its own. Update images are at most \<open>2 ^ 28\<close> bytes, beyond which a full chunk no longer
  fits its packet. Networks have at most 255 servers, the number of addresses. The simulation
  is shown to end for at least twice as many slots and addresses as stations.

  \<^bold>\<open>Not modelled.\<close> Time in the update example: its pauses are recorded in the client's trace. In the programs
  of the application layer computing and sending take no time, only sleeping and waiting do. Sockets
  beyond the parsing of addresses and whether the system lets a program have one, the scheduler beyond
  the turns it gives, and printing, except where the printed text is a result (the notes of the update
  server, the lines of the simulation as values before formatting, the time of an event). Receivers of
  the discovery example that lag behind their channel. The strength of the cipher: decryption under a
  wrong key appears as a hypothesis on the datagrams (\<open>authentic\<close>) or on the keys (\<open>key_separated\<close>,
  \<open>isolated\<close>) concerned.
\<close>

text \<open>
  All sixteen unit tests of the two libraries pass on the model, with the wire format of
  postcard and with AES-128 in CCM mode as the cipher: the messages of app/src/lib.rs have the
  expected bytes, the datagram of data/src/lib.rs has the expected ciphertext and is read back,
  and the bit field, the choice of addresses and the versions behave as discovery.rs and update.rs
  expect.
\<close>

lemma unit_tests_pass:
  "test_command_serialisation_with_a_command postcard_v1 = Some () \<and>
   test_command_serialisation_with_no_command postcard_v1 = Some () \<and>
   test_event_serialisation postcard_v1 = Some () \<and>
   test_event_serialisation_with_no_more_events postcard_v1 = Some () \<and>
   test_event_serialisation_with_either postcard_v1 = Some () \<and>
   test_datagram_serialisation postcard_v1 vec_extend aes_ccm = Some () \<and>
   test_datagram_deserialisation postcard_v1 vec_extend aes_ccm = Some () \<and>
   test_set_get_bits = Some () \<and> test_identified_with_none_free = Some () \<and>
   test_identified_with_one_free = Some () \<and> test_identified_with_three_free = Some () \<and>
   test_identified_with_all_but_first_free = Some () \<and> test_iter_with_skip = Some () \<and>
   test_parse_versions = Some () \<and> test_compare_versions = Some () \<and> display_versions = Some ()"
  by (intro conjI) (simp_all add: app_unit_tests_pass datagram_unit_tests_pass discovery_and_update_unit_tests_pass)

end
